(* ===== verification/Shm_Prelude.thy ===== *)
theory Shm_Prelude
  imports Main "HOL-Library.Word"
begin

text \<open>
  What the components share: bytes and the C memory operations on byte arrays
  (\<^verbatim>\<open>memcpy\<close> and \<^verbatim>\<open>memset\<close> as \<open>blit\<close> and \<open>replicate\<close>, reads as
  \<open>mem_read\<close>), the little-endian layout of integers, the C conversions to
  \<^verbatim>\<open>short\<close> and \<^verbatim>\<open>int\<close>, the \<^verbatim>\<open>errno\<close> values the sources use, the enum of
  \<^verbatim>\<open>shmutil/error_code.h\<close>, and the cyclic index walk
  (\<^verbatim>\<open>idx++; if (idx >= max) idx = 0; if (idx == start) break;\<close>) that three
  loops of the hash table run.
\<close>

unbundle bit_operations_syntax

named_theorems mem_simps "memcpy, reads and lengths of byte arrays"
named_theorems le_simps "little-endian encodings"

subsection \<open>Types of the model\<close>

type_synonym byte = "8 word"
type_synonym bytes = "byte list"
type_synonym u16 = "16 word"
type_synonym u32 = "32 word"
type_synonym u64 = "64 word"

text \<open>A pointer argument that the code only compares with \<^verbatim>\<open>NULL\<close>.\<close>

datatype ptr = NULL | Ptr

datatype errno = E_CLEAR | EINVAL | ENOENT | ENOBUFS | EFAULT | ENOMEM | EEXIST | ESRCH | E_OTHER

datatype ErrorCode =
    kOk | kErrShmGet | kErrShmAt | kErrShmInit | kErrInvalidParams | kErrTraverseTableEnd
  | kErrNotFound | kErrDataMess | kErrLruInit | kErrSetSameValue | kErrNotEnoughSpace
  | kErrStoreKVFailed | kErrShmNotInit | kErrShmMQEmpty | kErrInputBufNotEnoughSpace
  | kErrOpenLockFileFailed | kErrLockFileFailed | kErrOther

primrec code_of :: "ErrorCode \<Rightarrow> int" where
  "code_of kOk = 0"
| "code_of kErrShmGet = 1"
| "code_of kErrShmAt = 2"
| "code_of kErrShmInit = 3"
| "code_of kErrInvalidParams = 4"
| "code_of kErrTraverseTableEnd = 5"
| "code_of kErrNotFound = 6"
| "code_of kErrDataMess = 7"
| "code_of kErrLruInit = 8"
| "code_of kErrSetSameValue = 9"
| "code_of kErrNotEnoughSpace = 10"
| "code_of kErrStoreKVFailed = 11"
| "code_of kErrShmNotInit = 12"
| "code_of kErrShmMQEmpty = 13"
| "code_of kErrInputBufNotEnoughSpace = 14"
| "code_of kErrOpenLockFileFailed = 15"
| "code_of kErrLockFileFailed = 16"
| "code_of kErrOther = 10000"

text \<open>The enum is ordered as its values are.\<close>

lemma code_of_inject [simp]: "code_of a = code_of b \<longleftrightarrow> a = b"
  by (cases a; cases b) simp_all

instantiation ErrorCode :: linorder
begin

definition less_eq_ErrorCode :: "ErrorCode \<Rightarrow> ErrorCode \<Rightarrow> bool" where
  "less_eq_ErrorCode a b = (code_of a \<le> code_of b)"

definition less_ErrorCode :: "ErrorCode \<Rightarrow> ErrorCode \<Rightarrow> bool" where
  "less_ErrorCode a b = (code_of a < code_of b)"

instance
  by standard (auto simp: less_eq_ErrorCode_def less_ErrorCode_def)

end

subsection \<open>C integer conversions\<close>

text \<open>Conversion of an integer to \<^verbatim>\<open>short\<close> and to \<^verbatim>\<open>int\<close> (two's complement, as gcc does).\<close>

definition to_short :: "int \<Rightarrow> int" where
  "to_short i = signed_take_bit 15 i"

definition to_int32 :: "int \<Rightarrow> int" where
  "to_int32 i = signed_take_bit 31 i"

lemma to_short_id [simp]: "- 32768 \<le> i \<Longrightarrow> i \<le> 32767 \<Longrightarrow> to_short i = i"
  unfolding to_short_def by (rule signed_take_bit_int_eq_self) simp_all

lemma to_int32_id [simp]: "- 2147483648 \<le> i \<Longrightarrow> i \<le> 2147483647 \<Longrightarrow> to_int32 i = i"
  unfolding to_int32_def by (rule signed_take_bit_int_eq_self) simp_all

subsection \<open>memcpy and reads\<close>

text \<open>\<open>blit off src dst\<close> is \<^verbatim>\<open>memcpy(dst + off, src, length src)\<close>.\<close>

definition blit :: "nat \<Rightarrow> 'a list \<Rightarrow> 'a list \<Rightarrow> 'a list" where
  "blit off src dst = take off dst @ src @ drop (off + length src) dst"

text \<open>\<open>mem_read off n src\<close> is the \<open>n\<close> bytes at \<^verbatim>\<open>src + off\<close>.\<close>

definition mem_read :: "nat \<Rightarrow> nat \<Rightarrow> 'a list \<Rightarrow> 'a list" where
  "mem_read off n src = take n (drop off src)"

lemma length_blit [simp, mem_simps]:
  "off + length src \<le> length dst \<Longrightarrow> length (blit off src dst) = length dst"
  by (simp add: blit_def)

lemma blit_nil [simp]: "blit off [] dst = dst"
  by (simp add: blit_def)

lemma blit_whole: "length src = length dst \<Longrightarrow> blit 0 src dst = src"
  by (simp add: blit_def)

lemma take_blit_0: "n = length src \<Longrightarrow> take n (blit 0 src dst) = src"
  by (simp add: blit_def)

lemma nth_blit:
  "off + length src \<le> length dst \<Longrightarrow> i < length dst \<Longrightarrow>
   blit off src dst ! i = (if off \<le> i \<and> i < off + length src then src ! (i - off) else dst ! i)"
  by (auto simp: blit_def nth_append min_def)

lemma blit_append:
  "a + length xs + length ys \<le> length zs \<Longrightarrow>
   blit (a + length xs) ys (blit a xs zs) = blit a (xs @ ys) zs"
  by (simp add: blit_def add.commute add.left_commute)

lemma length_mem_read [simp, mem_simps]:
  "off + n \<le> length src \<Longrightarrow> length (mem_read off n src) = n"
  by (simp add: mem_read_def)

lemma nth_mem_read:
  "i < n \<Longrightarrow> off + n \<le> length src \<Longrightarrow> mem_read off n src ! i = src ! (off + i)"
  by (simp add: mem_read_def)

lemma mem_read_blit_same [mem_simps]:
  "off + length src \<le> length dst \<Longrightarrow> n = length src \<Longrightarrow> mem_read off n (blit off src dst) = src"
  by (simp add: mem_read_def blit_def)

lemma mem_read_blit_prefix:
  "off + length src \<le> length dst \<Longrightarrow> n \<le> length src \<Longrightarrow>
   mem_read off n (blit off src dst) = take n src"
  by (simp add: mem_read_def blit_def)

lemma mem_read_blit_before [mem_simps]:
  "a + n \<le> off \<Longrightarrow> off + length src \<le> length dst \<Longrightarrow>
   mem_read a n (blit off src dst) = mem_read a n dst"
  by (rule nth_equalityI) (auto simp: nth_mem_read nth_blit)

lemma mem_read_blit_after [mem_simps]:
  "off + length src \<le> a \<Longrightarrow> off + length src \<le> length dst \<Longrightarrow> a + n \<le> length dst \<Longrightarrow>
   mem_read a n (blit off src dst) = mem_read a n dst"
  by (rule nth_equalityI) (auto simp: nth_mem_read nth_blit)

lemma mem_read_all [simp]: "mem_read 0 (length xs) xs = xs"
  by (simp add: mem_read_def)

subsection \<open>Little-endian integers\<close>

text \<open>The first \<open>n\<close> bytes of a word as they lie in the memory of a little-endian host, and back.\<close>

definition to_le :: "nat \<Rightarrow> 'a::len word \<Rightarrow> bytes" where
  "to_le n w = map (\<lambda>i. ucast (drop_bit (8 * i) w)) [0..<n]"

fun of_le :: "bytes \<Rightarrow> 'a::len word" where
  "of_le [] = 0"
| "of_le (b # bs) = ucast b OR push_bit 8 (of_le bs)"

lemma length_to_le [simp, le_simps]: "length (to_le n w) = n"
  by (simp add: to_le_def)

lemma bit_of_le:
  "bit (of_le bs :: 'a::len word) k \<longleftrightarrow>
   k < LENGTH('a) \<and> k div 8 < length bs \<and> bit (bs ! (k div 8)) (k mod 8)"
proof (induction bs arbitrary: k)
  case Nil
  then show ?case by simp
next
  case (Cons b bs)
  show ?case
  proof (cases "k < 8")
    case True
    then show ?thesis
      by (auto simp: bit_or_iff bit_push_bit_iff bit_ucast_iff)
  next
    case False
    then obtain j where "k = j + 8"
      by (metis add.commute le_Suc_ex not_less)
    moreover have "(j + 8) div 8 = Suc (j div 8)" by simp
    ultimately show ?thesis
      by (auto simp: bit_or_iff bit_push_bit_iff bit_ucast_iff Cons.IH dest: bit_imp_le_length)
  qed
qed

lemma of_le_to_le [simp, le_simps]:
  "LENGTH('a::len) = 8 * n \<Longrightarrow> of_le (to_le n (w :: 'a word)) = w"
proof (rule bit_word_eqI)
  fix k
  assume "LENGTH('a) = 8 * n" "k < LENGTH('a)"
  moreover from this have "k div 8 < n" by simp
  moreover have "8 * (k div 8) + k mod 8 = k" by simp
  ultimately show "bit (of_le (to_le n w) :: 'a word) k = bit w k"
    by (auto simp: bit_of_le to_le_def bit_ucast_iff bit_drop_bit_eq add.commute)
qed

lemma to_le_of_le [simp, le_simps]:
  "length bs = n \<Longrightarrow> LENGTH('a::len) = 8 * n \<Longrightarrow> to_le n (of_le bs :: 'a word) = bs"
proof (rule nth_equalityI)
  fix i
  assume n: "length bs = n" "LENGTH('a) = 8 * n" and "i < length (to_le n (of_le bs :: 'a word))"
  then have i: "i < n" by simp
  show "to_le n (of_le bs :: 'a word) ! i = bs ! i"
  proof (rule bit_word_eqI)
    fix k
    assume "k < LENGTH(8)"
    then have "k < 8" by simp
    then show "bit (to_le n (of_le bs :: 'a word) ! i) k = bit (bs ! i) k"
      using i n by (auto simp: to_le_def bit_ucast_iff bit_drop_bit_eq bit_of_le)
  qed
qed simp

lemma to_le_inject:
  "LENGTH('a::len) = 8 * n \<Longrightarrow> to_le n (v :: 'a word) = to_le n w \<longleftrightarrow> v = w"
  by (metis of_le_to_le)

subsection \<open>Decimal printing\<close>

text \<open>\<^verbatim>\<open>%d\<close> of the C library, in ASCII.\<close>

fun print_nat :: "nat \<Rightarrow> bytes" where
  "print_nat n = (if n < 10 then [of_nat (48 + n)] else print_nat (n div 10) @ [of_nat (48 + n mod 10)])"

declare print_nat.simps [simp del]

definition print_int :: "int \<Rightarrow> bytes" where
  "print_int i = (if i < 0 then 45 # print_nat (nat (- i)) else print_nat (nat i))"

subsection \<open>Walking a table cyclically\<close>

text \<open>
  \<^verbatim>\<open>idx++; if (idx >= max) idx = 0;\<close> and the loop that stops when it is back at its
  start. The body \<open>f idx s\<close> returns \<open>Inl r\<close> to leave the loop with \<open>r\<close> and \<open>Inr s\<close> to
  go on. The callers establish \<open>start < m\<close> (a remainder by \<open>m\<close>, a normalised start or
  the index of an occupied slot); without it the walk would never meet its start.
\<close>

definition cyc_next :: "nat \<Rightarrow> nat \<Rightarrow> nat" where
  "cyc_next m i = (if m \<le> Suc i then 0 else Suc i)"

function cyc_loop :: "nat \<Rightarrow> nat \<Rightarrow> (nat \<Rightarrow> 's \<Rightarrow> 'r + 's) \<Rightarrow> nat \<Rightarrow> 's \<Rightarrow> 'r + 's" where
  "cyc_loop m start f idx s =
     (case f idx s of
        Inl r \<Rightarrow> Inl r
      | Inr s' \<Rightarrow>
          (if cyc_next m idx = start \<or> m \<le> start then Inr s'
           else cyc_loop m start f (cyc_next m idx) s'))"
  by pat_completeness auto
termination
  by (relation "measure (\<lambda>(m, start, f, idx, s). if idx < start then start - idx else Suc start + (m - idx))")
    (auto simp: cyc_next_def split: if_splits)

declare cyc_loop.simps [simp del]

text \<open>The indices a full walk visits, and the same loop over a list of indices.\<close>

definition cyc_order :: "nat \<Rightarrow> nat \<Rightarrow> nat list" where
  "cyc_order m start = [start..<m] @ [0..<start]"

fun list_loop :: "(nat \<Rightarrow> 's \<Rightarrow> 'r + 's) \<Rightarrow> nat list \<Rightarrow> 's \<Rightarrow> 'r + 's" where
  "list_loop f [] s = Inr s"
| "list_loop f (i # is) s = (case f i s of Inl r \<Rightarrow> Inl r | Inr s' \<Rightarrow> list_loop f is s')"

lemma set_cyc_order [simp]: "start < m \<Longrightarrow> set (cyc_order m start) = {..<m}"
  by (auto simp: cyc_order_def)

lemma distinct_cyc_order [simp]: "distinct (cyc_order m start)"
  by (auto simp: cyc_order_def)

lemma cyc_loop_low:
  "idx < start \<Longrightarrow> start < m \<Longrightarrow> cyc_loop m start f idx s = list_loop f [idx..<start] s"
proof (induction "start - idx" arbitrary: idx s)
  case 0
  then show ?case by simp
next
  case (Suc d)
  have step: "[idx..<start] = idx # [Suc idx..<start]" "cyc_next m idx = Suc idx"
    using Suc.prems by (simp_all add: upt_conv_Cons cyc_next_def)
  show ?case
  proof (cases "Suc idx = start")
    case True
    then show ?thesis using Suc.prems
      by (subst cyc_loop.simps) (simp add: step split: sum.split)
  next
    case False
    with Suc have "cyc_loop m start f (Suc idx) s' = list_loop f [Suc idx..<start] s'" for s'
      by simp
    then show ?thesis using Suc.prems False
      by (subst cyc_loop.simps) (simp add: step split: sum.split)
  qed
qed

lemma cyc_loop_high:
  "start \<le> idx \<Longrightarrow> idx < m \<Longrightarrow>
   cyc_loop m start f idx s = list_loop f ([idx..<m] @ [0..<start]) s"
proof (induction "m - idx" arbitrary: idx s)
  case 0
  then show ?case by simp
next
  case (Suc d)
  have cons: "[idx..<m] = idx # [Suc idx..<m]"
    using Suc.prems by (simp add: upt_conv_Cons)
  show ?case
  proof (cases "Suc idx < m")
    case True
    with Suc have "cyc_loop m start f (Suc idx) s' = list_loop f ([Suc idx..<m] @ [0..<start]) s'" for s'
      by simp
    then show ?thesis using Suc.prems True
      by (subst cyc_loop.simps) (simp add: cons cyc_next_def split: sum.split)
  next
    case False
    then have next0: "cyc_next m idx = 0" "[Suc idx..<m] = []" by (simp_all add: cyc_next_def)
    show ?thesis using Suc.prems next0
      by (subst cyc_loop.simps) (simp add: cons cyc_loop_low split: sum.split)
  qed
qed

lemma cyc_loop_order:
  "start < m \<Longrightarrow> cyc_loop m start f start s = list_loop f (cyc_order m start) s"
  by (simp add: cyc_loop_high cyc_order_def)

lemma cyc_loop_from_next:
  assumes "start < m" "cyc_next m start \<noteq> start"
  shows "cyc_loop m start f (cyc_next m start) s = list_loop f (tl (cyc_order m start)) s"
proof (cases "Suc start < m")
  case True
  then show ?thesis
    by (simp add: cyc_next_def cyc_loop_high cyc_order_def upt_conv_Cons)
next
  case False
  with assms have "[start..<m] = [start]" "0 < start" "cyc_next m start = 0"
    by (auto simp: cyc_next_def upt_conv_Cons split: if_splits)
  with assms show ?thesis
    by (simp add: cyc_loop_low cyc_order_def)
qed

subsection \<open>Runs of commands\<close>

text \<open>A run of commands on any state: the replies and the final state.\<close>

fun run_cmds :: "('c \<Rightarrow> 's \<Rightarrow> 'r \<times> 's) \<Rightarrow> 'c list \<Rightarrow> 's \<Rightarrow> 'r list \<times> 's" where
  "run_cmds step [] s = ([], s)"
| "run_cmds step (c # cs) s =
     (case step c s of (r, s') \<Rightarrow> map_prod (Cons r) id (run_cmds step cs s'))"

end
