(* ===== verification/Md5.thy ===== *)
theory Md5
  imports Shm_Prelude
begin

text \<open>
  \<^verbatim>\<open>shmutil/md5.c\<close> and \<^verbatim>\<open>shmutil/md5.h\<close>: the MD5 context, the 64 step block transform with
  the source's macros, and \<^verbatim>\<open>QMD5Init\<close>, \<^verbatim>\<open>QMD5Update\<close>, \<^verbatim>\<open>QMD5Pad\<close>,
  \<^verbatim>\<open>QMD5Final\<close>, on 32-bit words. The host is little-endian (the \<^verbatim>\<open>Encode\<close> and
  \<^verbatim>\<open>Decode\<close> of the source are then \<^verbatim>\<open>memcpy\<close>). Theory Md5_Rfc relates it to RFC 1321.
\<close>

subsection \<open>The basic functions and the steps of the four rounds\<close>

definition md5_F :: "u32 \<Rightarrow> u32 \<Rightarrow> u32 \<Rightarrow> u32" where
  "md5_F x y z = ((x AND y) OR (NOT x AND z))"

definition md5_G :: "u32 \<Rightarrow> u32 \<Rightarrow> u32 \<Rightarrow> u32" where
  "md5_G x y z = ((x AND z) OR (y AND NOT z))"

definition md5_H :: "u32 \<Rightarrow> u32 \<Rightarrow> u32 \<Rightarrow> u32" where
  "md5_H x y z = (x XOR y XOR z)"

definition md5_I :: "u32 \<Rightarrow> u32 \<Rightarrow> u32 \<Rightarrow> u32" where
  "md5_I x y z = (y XOR (x OR NOT z))"

definition ROTATE_LEFT :: "u32 \<Rightarrow> nat \<Rightarrow> u32" where
  "ROTATE_LEFT x n = (push_bit n x OR drop_bit (32 - n) x)"

definition FF :: "u32 \<Rightarrow> u32 \<Rightarrow> u32 \<Rightarrow> u32 \<Rightarrow> u32 \<Rightarrow> nat \<Rightarrow> u32 \<Rightarrow> u32" where
  "FF a b c d x s ac = ROTATE_LEFT (a + (md5_F b c d + x + ac)) s + b"

definition GG :: "u32 \<Rightarrow> u32 \<Rightarrow> u32 \<Rightarrow> u32 \<Rightarrow> u32 \<Rightarrow> nat \<Rightarrow> u32 \<Rightarrow> u32" where
  "GG a b c d x s ac = ROTATE_LEFT (a + (md5_G b c d + x + ac)) s + b"

definition HH :: "u32 \<Rightarrow> u32 \<Rightarrow> u32 \<Rightarrow> u32 \<Rightarrow> u32 \<Rightarrow> nat \<Rightarrow> u32 \<Rightarrow> u32" where
  "HH a b c d x s ac = ROTATE_LEFT (a + (md5_H b c d + x + ac)) s + b"

definition II :: "u32 \<Rightarrow> u32 \<Rightarrow> u32 \<Rightarrow> u32 \<Rightarrow> u32 \<Rightarrow> nat \<Rightarrow> u32 \<Rightarrow> u32" where
  "II a b c d x s ac = ROTATE_LEFT (a + (md5_I b c d + x + ac)) s + b"

definition md5_round1 :: "u32 list \<Rightarrow> u32 \<times> u32 \<times> u32 \<times> u32 \<Rightarrow> u32 \<times> u32 \<times> u32 \<times> u32" where
  "md5_round1 x = (\<lambda>(a, b, c, d).
     let a = FF a b c d (x ! 0) 7 0xd76aa478;
         d = FF d a b c (x ! 1) 12 0xe8c7b756;
         c = FF c d a b (x ! 2) 17 0x242070db;
         b = FF b c d a (x ! 3) 22 0xc1bdceee;
         a = FF a b c d (x ! 4) 7 0xf57c0faf;
         d = FF d a b c (x ! 5) 12 0x4787c62a;
         c = FF c d a b (x ! 6) 17 0xa8304613;
         b = FF b c d a (x ! 7) 22 0xfd469501;
         a = FF a b c d (x ! 8) 7 0x698098d8;
         d = FF d a b c (x ! 9) 12 0x8b44f7af;
         c = FF c d a b (x ! 10) 17 0xffff5bb1;
         b = FF b c d a (x ! 11) 22 0x895cd7be;
         a = FF a b c d (x ! 12) 7 0x6b901122;
         d = FF d a b c (x ! 13) 12 0xfd987193;
         c = FF c d a b (x ! 14) 17 0xa679438e;
         b = FF b c d a (x ! 15) 22 0x49b40821
     in (a, b, c, d))"

definition md5_round2 :: "u32 list \<Rightarrow> u32 \<times> u32 \<times> u32 \<times> u32 \<Rightarrow> u32 \<times> u32 \<times> u32 \<times> u32" where
  "md5_round2 x = (\<lambda>(a, b, c, d).
     let a = GG a b c d (x ! 1) 5 0xf61e2562;
         d = GG d a b c (x ! 6) 9 0xc040b340;
         c = GG c d a b (x ! 11) 14 0x265e5a51;
         b = GG b c d a (x ! 0) 20 0xe9b6c7aa;
         a = GG a b c d (x ! 5) 5 0xd62f105d;
         d = GG d a b c (x ! 10) 9 0x2441453;
         c = GG c d a b (x ! 15) 14 0xd8a1e681;
         b = GG b c d a (x ! 4) 20 0xe7d3fbc8;
         a = GG a b c d (x ! 9) 5 0x21e1cde6;
         d = GG d a b c (x ! 14) 9 0xc33707d6;
         c = GG c d a b (x ! 3) 14 0xf4d50d87;
         b = GG b c d a (x ! 8) 20 0x455a14ed;
         a = GG a b c d (x ! 13) 5 0xa9e3e905;
         d = GG d a b c (x ! 2) 9 0xfcefa3f8;
         c = GG c d a b (x ! 7) 14 0x676f02d9;
         b = GG b c d a (x ! 12) 20 0x8d2a4c8a
     in (a, b, c, d))"

definition md5_round3 :: "u32 list \<Rightarrow> u32 \<times> u32 \<times> u32 \<times> u32 \<Rightarrow> u32 \<times> u32 \<times> u32 \<times> u32" where
  "md5_round3 x = (\<lambda>(a, b, c, d).
     let a = HH a b c d (x ! 5) 4 0xfffa3942;
         d = HH d a b c (x ! 8) 11 0x8771f681;
         c = HH c d a b (x ! 11) 16 0x6d9d6122;
         b = HH b c d a (x ! 14) 23 0xfde5380c;
         a = HH a b c d (x ! 1) 4 0xa4beea44;
         d = HH d a b c (x ! 4) 11 0x4bdecfa9;
         c = HH c d a b (x ! 7) 16 0xf6bb4b60;
         b = HH b c d a (x ! 10) 23 0xbebfbc70;
         a = HH a b c d (x ! 13) 4 0x289b7ec6;
         d = HH d a b c (x ! 0) 11 0xeaa127fa;
         c = HH c d a b (x ! 3) 16 0xd4ef3085;
         b = HH b c d a (x ! 6) 23 0x4881d05;
         a = HH a b c d (x ! 9) 4 0xd9d4d039;
         d = HH d a b c (x ! 12) 11 0xe6db99e5;
         c = HH c d a b (x ! 15) 16 0x1fa27cf8;
         b = HH b c d a (x ! 2) 23 0xc4ac5665
     in (a, b, c, d))"

definition md5_round4 :: "u32 list \<Rightarrow> u32 \<times> u32 \<times> u32 \<times> u32 \<Rightarrow> u32 \<times> u32 \<times> u32 \<times> u32" where
  "md5_round4 x = (\<lambda>(a, b, c, d).
     let a = II a b c d (x ! 0) 6 0xf4292244;
         d = II d a b c (x ! 7) 10 0x432aff97;
         c = II c d a b (x ! 14) 15 0xab9423a7;
         b = II b c d a (x ! 5) 21 0xfc93a039;
         a = II a b c d (x ! 12) 6 0x655b59c3;
         d = II d a b c (x ! 3) 10 0x8f0ccc92;
         c = II c d a b (x ! 10) 15 0xffeff47d;
         b = II b c d a (x ! 1) 21 0x85845dd1;
         a = II a b c d (x ! 8) 6 0x6fa87e4f;
         d = II d a b c (x ! 15) 10 0xfe2ce6e0;
         c = II c d a b (x ! 6) 15 0xa3014314;
         b = II b c d a (x ! 13) 21 0x4e0811a1;
         a = II a b c d (x ! 4) 6 0xf7537e82;
         d = II d a b c (x ! 11) 10 0xbd3af235;
         c = II c d a b (x ! 2) 15 0x2ad7d2bb;
         b = II b c d a (x ! 9) 21 0xeb86d391
     in (a, b, c, d))"

text \<open>\<^verbatim>\<open>Decode (x, block, 64)\<close>: sixteen little-endian words; \<^verbatim>\<open>Encode\<close> is the inverse.\<close>

definition md5_Decode :: "bytes \<Rightarrow> nat \<Rightarrow> u32 list" where
  "md5_Decode input len = map (\<lambda>i. of_le (mem_read (4 * i) 4 input)) [0..<len div 4]"

definition md5_Encode :: "u32 list \<Rightarrow> bytes" where
  "md5_Encode ws = concat (map (to_le 4) ws)"

type_synonym md5_state = "u32 \<times> u32 \<times> u32 \<times> u32"

definition QMD5Transform :: "md5_state \<Rightarrow> bytes \<Rightarrow> md5_state" where
  "QMD5Transform st block =
     (let x = md5_Decode block 64;
          (a, b, c, d) = md5_round4 x (md5_round3 x (md5_round2 x (md5_round1 x st)));
          (s0, s1, s2, s3) = st
      in (s0 + a, s1 + b, s2 + c, s3 + d))"

subsection \<open>The context and its operations\<close>

record QMD5_CTX =
  ctx_state :: md5_state
  ctx_count0 :: u32
  ctx_count1 :: u32
  ctx_buffer :: bytes

definition QMD5Init :: "QMD5_CTX \<Rightarrow> QMD5_CTX" where
  "QMD5Init ctx = ctx\<lparr>ctx_count0 := 0, ctx_count1 := 0,
     ctx_state := (0x67452301, 0xefcdab89, 0x98badcfe, 0x10325476)\<rparr>"

text \<open>
  \<^verbatim>\<open>for (i = partLen; i + 63 < inputLen; i += 64) QMD5Transform (state, &input[i]);\<close>, the
  three variables \<^verbatim>\<open>unsigned int\<close>: the sum in the condition wraps. A read beyond the
  \<^verbatim>\<open>inputLen\<close> bytes of the input is \<open>None\<close>.
\<close>

function md5_update_loop :: "md5_state \<Rightarrow> bytes \<Rightarrow> u32 \<Rightarrow> u32 \<Rightarrow> (md5_state \<times> u32) option" where
  "md5_update_loop st input inputLen i =
     (if i + 63 < inputLen
      then if unat i + 64 \<le> unat inputLen
           then md5_update_loop (QMD5Transform st (mem_read (unat i) 64 input)) input inputLen (i + 64)
           else None
      else Some (st, i))"
  by pat_completeness auto
termination
proof (relation "measure (\<lambda>(st, input, n, i). unat n - unat i)")
  fix st :: md5_state and input :: bytes and n i :: u32
  assume "unat i + 64 \<le> unat n"
  moreover have "unat n < 2 ^ 32" using unsigned_less [of n] by simp
  ultimately have "unat (i + 64) = unat i + 64" by (simp add: unat_word_ariths)
  then show "((QMD5Transform st (mem_read (unat i) 64 input), input, n, i + 64), (st, input, n, i)) \<in>
      measure (\<lambda>(st, input, n, i). unat n - unat i)"
    using \<open>unat i + 64 \<le> unat n\<close> by simp
qed simp

declare md5_update_loop.simps [simp del]

text \<open>The input is the \<^verbatim>\<open>inputLen\<close> bytes from its pointer on; \<open>None\<close> is a read beyond them.\<close>

definition QMD5Update :: "QMD5_CTX \<Rightarrow> bytes \<Rightarrow> QMD5_CTX option" where
  "QMD5Update ctx input =
     (let inputLen = (of_nat (length input) :: u32);
          idx = drop_bit 3 (ctx_count0 ctx) AND 0x3F;
          count0 = ctx_count0 ctx + push_bit 3 inputLen;
          count1 = (if count0 < push_bit 3 inputLen then ctx_count1 ctx + 1 else ctx_count1 ctx);
          count1 = count1 + drop_bit 29 inputLen;
          partLen = 64 - idx
      in map_option
           (\<lambda>(st, buf, idx, i).
              ctx\<lparr>ctx_state := st, ctx_count0 := count0, ctx_count1 := count1,
                  ctx_buffer := blit (unat idx) (drop (unat i) input) buf\<rparr>)
           (if partLen \<le> inputLen
            then let buf = blit (unat idx) (take (unat partLen) input) (ctx_buffer ctx);
                     st = QMD5Transform (ctx_state ctx) buf
                 in map_option (\<lambda>(st, i). (st, buf, 0, i)) (md5_update_loop st input inputLen partLen)
            else Some (ctx_state ctx, ctx_buffer ctx, idx, 0)))"

definition PADDING :: bytes where
  "PADDING = 0x80 # replicate 63 0"

definition QMD5Pad :: "QMD5_CTX \<Rightarrow> QMD5_CTX option" where
  "QMD5Pad ctx =
     (let bits = md5_Encode [ctx_count0 ctx, ctx_count1 ctx];
          idx = unat (drop_bit 3 (ctx_count0 ctx) AND 0x3f);
          padLen = (if idx < 56 then 56 - idx else 120 - idx)
      in Option.bind (QMD5Update ctx (take padLen PADDING)) (\<lambda>ctx. QMD5Update ctx bits))"

definition md5_state_list :: "md5_state \<Rightarrow> u32 list" where
  "md5_state_list = (\<lambda>(a, b, c, d). [a, b, c, d])"

text \<open>The digest, and the context zeroised.\<close>

definition QMD5Final :: "QMD5_CTX \<Rightarrow> (bytes \<times> QMD5_CTX) option" where
  "QMD5Final ctx =
     map_option (\<lambda>ctx.
       (md5_Encode (md5_state_list (ctx_state ctx)),
        \<lparr>ctx_state = (0, 0, 0, 0), ctx_count0 = 0, ctx_count1 = 0, ctx_buffer = replicate 64 0\<rparr>))
     (QMD5Pad ctx)"

text \<open>
  The body of \<^verbatim>\<open>qhashmd5\<close>: a context on the stack (its contents before
  \<^verbatim>\<open>QMD5Init\<close> do not matter), one update with the data, the length cut to
  \<^verbatim>\<open>unsigned int\<close>, and the digest. One update of a fresh context never reads beyond the
  data (\<open>md5_run_total\<close> below), so its callers take the digest as a total function.
\<close>

definition md5_run :: "bytes \<Rightarrow> (bytes \<times> QMD5_CTX) option" where
  "md5_run data =
     (let ctx = QMD5Init \<lparr>ctx_state = (0, 0, 0, 0), ctx_count0 = 0, ctx_count1 = 0,
                          ctx_buffer = replicate 64 0\<rparr>
      in Option.bind (QMD5Update ctx (take (length data mod 2 ^ 32) data)) QMD5Final)"

definition md5_digest :: "bytes \<Rightarrow> bytes" where
  "md5_digest data = (case md5_run data of None \<Rightarrow> [] | Some (digest, _) \<Rightarrow> digest)"

subsection \<open>When the loop of an update stays inside the input\<close>

text \<open>
  The condition is exact: only behind a buffer that is not empty, and only for an input that
  reaches up to the last 63 positions of an \<^verbatim>\<open>unsigned int\<close>, does the sum wrap.
\<close>

definition update_in_bounds :: "nat \<Rightarrow> nat \<Rightarrow> bool" where
  "update_in_bounds n i \<longleftrightarrow> (64 - i mod 64) mod 64 + n < 2 ^ 32"

lemma u32_of_nat [simp]: "n < 2 ^ 32 \<Longrightarrow> unat (of_nat n :: u32) = n"
  by (simp add: unsigned_of_nat take_bit_nat_eq_self)

lemma wrapped_sum:
  assumes "i < 2 ^ 32"
  shows "unat (of_nat i + 63 :: u32) = (if i + 63 < 2 ^ 32 then i + 63 else i + 63 - 2 ^ 32)"
  using assms by (simp add: unat_word_ariths mod_if)

lemma update_loop_step:
  assumes "i \<le> n" "n < 2 ^ 32" "update_in_bounds n i"
  shows "md5_update_loop st input (of_nat n) (of_nat i) =
    (if i + 63 < n then md5_update_loop (QMD5Transform st (mem_read i 64 input)) input (of_nat n) (of_nat (i + 64))
     else Some (st, of_nat i))"
proof -
  have "i + 63 < 2 ^ 32"
  proof (rule ccontr)
    assume "\<not> i + 63 < 2 ^ 32"
    then have "i - (2 ^ 32 - 64) < 64" "0 < i - (2 ^ 32 - 64)" "i = 64 * (2 ^ 26 - 1) + (i - (2 ^ 32 - 64))"
      using assms by simp_all
    then have "i mod 64 = i - (2 ^ 32 - 64)" by (metis mod_mult_self4 mod_less)
    then show False
      using assms \<open>0 < i - (2 ^ 32 - 64)\<close> \<open>i - (2 ^ 32 - 64) < 64\<close> by (simp add: update_in_bounds_def)
  qed
  then have "of_nat i + 63 < (of_nat n :: u32) \<longleftrightarrow> i + 63 < n"
    using assms by (simp add: word_less_nat_alt wrapped_sum del: of_nat_add)
  then show ?thesis
    using assms by (simp add: md5_update_loop.simps [of st] add.commute)
qed

lemma update_in_bounds_next: "update_in_bounds n (i + 64) \<longleftrightarrow> update_in_bounds n i"
  by (simp add: update_in_bounds_def)

lemma update_loop_total:
  "i \<le> n \<Longrightarrow> n < 2 ^ 32 \<Longrightarrow> update_in_bounds n i \<Longrightarrow> md5_update_loop st input (of_nat n) (of_nat i) \<noteq> None"
proof (induction "n - i" arbitrary: st i rule: less_induct)
  case less
  show ?case
  proof (cases "i + 63 < n")
    case True
    then have "md5_update_loop (QMD5Transform st (mem_read i 64 input)) input (of_nat n) (of_nat (i + 64)) \<noteq> None"
      using less.prems by (intro less.hyps) (simp_all add: update_in_bounds_next)
    then show ?thesis using True by (simp only: update_loop_step [OF less.prems] if_True not_False_eq_True)
  next
    case False
    then show ?thesis by (simp add: update_loop_step [OF less.prems])
  qed
qed

text \<open>Outside the bounds the loop walks up to the end of the range and then reads beyond it.\<close>

lemma update_loop_overrun:
  "i \<le> n \<Longrightarrow> n < 2 ^ 32 \<Longrightarrow> \<not> update_in_bounds n i \<Longrightarrow> md5_update_loop st input (of_nat n) (of_nat i) = None"
proof (induction "n - i" arbitrary: st i rule: less_induct)
  case less
  define r where "r = i mod 64"
  have r: "0 < r" "r < 64" "2 ^ 32 \<le> 64 - r + n"
  proof -
    show "0 < r" using less.prems(2,3) by (cases "r = 0") (auto simp add: update_in_bounds_def simp flip: r_def)
    then show "2 ^ 32 \<le> 64 - r + n" using less.prems(3) by (simp add: update_in_bounds_def flip: r_def)
  qed (simp add: r_def)
  have step: "md5_update_loop st input (of_nat n) (of_nat i) =
      (if (if i + 63 < 2 ^ 32 then i + 63 else i + 63 - 2 ^ 32) < n
       then if i + 64 \<le> n then md5_update_loop (QMD5Transform st (mem_read i 64 input)) input (of_nat n) (of_nat (i + 64)) else None
       else Some (st, of_nat i))"
  proof -
    have i: "i < 2 ^ 32" using less.prems(1,2) by linarith
    note u = u32_of_nat [OF i] u32_of_nat [OF less.prems(2)]
    have next_i: "of_nat i + 64 = (of_nat (i + 64) :: u32)" by simp
    show ?thesis
      by (simp only: md5_update_loop.simps [of st input "of_nat n" "of_nat i"] word_less_nat_alt wrapped_sum [OF i] u next_i)
  qed
  show ?case
  proof (cases "i + 63 < 2 ^ 32")
    case False
    then show ?thesis using less.prems(1,2) r(3) by (simp add: step)
  next
    case True
    define q where "q = i div 64"
    have i: "i = 64 * q + r" by (simp add: q_def r_def)
    then have "q < 2 ^ 26 - 1" using True r(1) by simp
    then have "i + 64 \<le> n" using r(2,3) by (simp add: i)
    then have "md5_update_loop (QMD5Transform st (mem_read i 64 input)) input (of_nat n) (of_nat (i + 64)) = None"
      using less.prems by (intro less.hyps) (simp_all add: update_in_bounds_next)
    then show ?thesis using \<open>i + 64 \<le> n\<close> True by (simp add: step)
  qed
qed

definition buffered :: "QMD5_CTX \<Rightarrow> nat" where
  "buffered ctx = unat (drop_bit 3 (ctx_count0 ctx) AND 0x3F)"

lemma buffered_less: "buffered ctx < 64"
proof -
  have "(63 :: u32) = mask 6" by (simp add: mask_eq_exp_minus_1)
  then have "buffered ctx = take_bit 6 (unat (drop_bit 3 (ctx_count0 ctx)))"
    unfolding buffered_def by (simp only: take_bit_eq_mask [symmetric] unsigned_take_bit_eq)
  then show ?thesis by (simp add: take_bit_eq_mod)
qed

lemma buffered_word: "(drop_bit 3 (ctx_count0 ctx) AND 0x3F :: u32) = of_nat (buffered ctx)"
  by (simp add: buffered_def)

lemma part_length: "64 - of_nat (buffered ctx) = (of_nat (64 - buffered ctx) :: u32)"
  using buffered_less [of ctx] by simp

lemma length_md5_Encode: "length (md5_Encode ws) = 4 * length ws"
  by (induction ws) (auto simp: md5_Encode_def)

lemma update_total_iff:
  assumes "length d < 2 ^ 32"
  shows "QMD5Update ctx d \<noteq> None \<longleftrightarrow> buffered ctx + length d < 2 ^ 32"
proof -
  let ?i = "64 - buffered ctx"
  have b: "buffered ctx < 64" by (rule buffered_less)
  have le: "(of_nat ?i :: u32) \<le> of_nat (length d) \<longleftrightarrow> ?i \<le> length d"
    using assms b by (simp add: word_le_nat_alt del: of_nat_diff)
  show ?thesis
  proof (cases "?i \<le> length d")
    case False
    then show ?thesis using b by (simp add: QMD5Update_def Let_def buffered_word part_length le del: of_nat_diff)
  next
    case True
    have "(64 - ?i mod 64) mod 64 = buffered ctx" using b by (cases "buffered ctx = 0") simp_all
    then have "update_in_bounds (length d) ?i \<longleftrightarrow> buffered ctx + length d < 2 ^ 32" by (simp add: update_in_bounds_def)
    moreover have "QMD5Update ctx d \<noteq> None \<longleftrightarrow>
        md5_update_loop (QMD5Transform (ctx_state ctx) (blit (buffered ctx) (take ?i d) (ctx_buffer ctx))) d
          (of_nat (length d)) (of_nat ?i) \<noteq> None"
      using True b by (simp add: QMD5Update_def Let_def buffered_word part_length le del: of_nat_diff not_None_eq)
    ultimately show ?thesis
      by (metis update_loop_total [OF True assms] update_loop_overrun [OF True assms])
  qed
qed

lemma pad_total: "QMD5Pad ctx \<noteq> None"
proof -
  let ?pad = "if buffered ctx < 56 then 56 - buffered ctx else 120 - buffered ctx"
  define p where "p = take ?pad PADDING"
  have p: "length p \<le> 64" by (simp add: p_def PADDING_def)
  then have "QMD5Update ctx p \<noteq> None"
    using buffered_less [of ctx] by (subst update_total_iff) simp_all
  then obtain c where c: "QMD5Update ctx p = Some c" by blast
  have "QMD5Update c (md5_Encode [ctx_count0 ctx, ctx_count1 ctx]) \<noteq> None"
    using buffered_less [of c] by (subst update_total_iff) (simp_all add: length_md5_Encode)
  then show ?thesis using c by (simp add: QMD5Pad_def Let_def flip: buffered_def p_def)
qed

lemma final_total: "QMD5Final ctx \<noteq> None"
  using pad_total [of ctx] by (simp add: QMD5Final_def)

lemma md5_run_total: "md5_run data \<noteq> None"
proof -
  define ctx where "ctx = QMD5Init \<lparr>ctx_state = (0, 0, 0, 0), ctx_count0 = 0, ctx_count1 = 0, ctx_buffer = replicate 64 0\<rparr>"
  define n where "n = length data mod 2 ^ 32"
  have n: "n < 2 ^ 32" by (simp add: n_def)
  have "buffered ctx = 0" by (simp add: buffered_def ctx_def QMD5Init_def)
  moreover have "length (take n data) < 2 ^ 32" using n by (simp add: min_def)
  ultimately have "QMD5Update ctx (take n data) \<noteq> None" by (subst update_total_iff) simp_all
  then obtain c where "QMD5Update ctx (take n data) = Some c" by blast
  then have "md5_run data = QMD5Final c" by (simp only: md5_run_def Let_def Option.bind.simps flip: ctx_def n_def)
  then show ?thesis using final_total [of c] by simp
qed

lemma length_md5_state_list: "length (md5_state_list st) = 4"
  by (cases st) (simp add: md5_state_list_def)

lemma length_md5_digest [simp]: "length (md5_digest data) = 16"
proof -
  obtain digest ctx where "md5_run data = Some (digest, ctx)" using md5_run_total [of data] by auto
  then show ?thesis
    by (auto simp: md5_digest_def md5_run_def QMD5Final_def Let_def Option.bind_eq_Some_conv
        length_md5_Encode length_md5_state_list)
qed

end
