(* ===== verification/Hash.thy ===== *)
theory Hash
  imports Md5
begin

text \<open>
  \<^verbatim>\<open>shmutil/qhash.c\<close>: the two hash functions the table uses, \<^verbatim>\<open>qhashmd5\<close> over the MD5 of
  theory Md5 and \<^verbatim>\<open>qhashmurmur3_32\<close>, and the hexadecimal printer. A pair of a pointer
  and a size is \<open>None\<close> for \<^verbatim>\<open>NULL\<close> and \<open>Some\<close> of the bytes it stands for.
\<close>

subsection \<open>MD5\<close>

text \<open>
  The result is the return value, the caller's buffer after the call (\<open>None\<close> if the
  pointer is \<^verbatim>\<open>NULL\<close>) and \<^verbatim>\<open>errno\<close>.
\<close>

definition qhashmd5 :: "bytes option \<Rightarrow> bytes option \<Rightarrow> errno \<Rightarrow> bool \<times> bytes option \<times> errno" where
  "qhashmd5 data retbuf e =
     (case (data, retbuf) of
        (Some d, Some buf) \<Rightarrow> (True, Some (blit 0 (md5_digest d) buf), e)
      | _ \<Rightarrow> (False, retbuf, EINVAL))"

subsection \<open>Murmur3\<close>

definition murmur_c1 :: u32 where "murmur_c1 = 0xcc9e2d51"

definition murmur_c2 :: u32 where "murmur_c2 = 0x1b873593"

text \<open>One pass of the loop over the four byte blocks.\<close>

definition murmur_block :: "u32 \<Rightarrow> u32 \<Rightarrow> u32" where
  "murmur_block h k =
     (let k = k * murmur_c1;
          k = (push_bit 15 k OR drop_bit (32 - 15) k);
          k = k * murmur_c2;
          h = h XOR k;
          h = (push_bit 13 h OR drop_bit (32 - 13) h)
      in h * 5 + 0xe6546b64)"

text \<open>
  The \<^verbatim>\<open>switch (nbytes & 3)\<close>: the cases fall through, so the bytes of the tail are
  combined from the last to the first and then mixed once. The shift of the second line is
  the source's (\<^verbatim>\<open>k << 13\<close> with \<^verbatim>\<open>k >> (32 - 15)\<close>). The tail is the memory from the pointer
  on; a read beyond it is \<open>None\<close>.
\<close>

definition murmur_tail :: "u32 \<Rightarrow> nat \<Rightarrow> bytes \<Rightarrow> u32 option" where
  "murmur_tail h rest tail =
     (if length tail < rest then None
      else let k = 0;
               k = (if 3 \<le> rest then k XOR push_bit 16 (ucast (tail ! 2)) else k);
               k = (if 2 \<le> rest then k XOR push_bit 8 (ucast (tail ! 1)) else k)
           in Some (if 1 \<le> rest
                    then let k = k XOR ucast (tail ! 0);
                             k = k * murmur_c1;
                             k = (push_bit 13 k OR drop_bit (32 - 15) k);
                             k = k * murmur_c2
                         in h XOR k
                    else h))"

definition murmur_final :: "u32 \<Rightarrow> u32" where
  "murmur_final h =
     (let h = h XOR drop_bit 16 h;
          h = h * 0x85ebca6b;
          h = h XOR drop_bit 13 h;
          h = h * 0xc2b2ae35
      in h XOR drop_bit 16 h)"

text \<open>The loop over \<^verbatim>\<open>blocks[i]\<close>, the counter and its bound \<^verbatim>\<open>int\<close>; a read beyond the data is \<open>None\<close>.\<close>

function murmur_blocks :: "bytes \<Rightarrow> int \<Rightarrow> int \<Rightarrow> u32 \<Rightarrow> u32 option" where
  "murmur_blocks data i nblocks h =
     (if i < nblocks
      then if 0 \<le> i \<and> 4 * nat i + 4 \<le> length data
           then murmur_blocks data (i + 1) nblocks (murmur_block h (of_le (mem_read (4 * nat i) 4 data)))
           else None
      else Some h)"
  by pat_completeness auto
termination
  by (relation "measure (\<lambda>(data, i, nblocks, h). nat (nblocks - i))") auto

declare murmur_blocks.simps [simp del]

text \<open>
  \<^verbatim>\<open>nblocks\<close> is the count of blocks cut to \<^verbatim>\<open>int\<close>. \<open>None\<close> is undefined behaviour: the product
  \<^verbatim>\<open>nblocks * 4\<close> overflows, the pointer \<^verbatim>\<open>tail\<close> leaves the data, or a read does.
\<close>

definition qhashmurmur3_32 :: "bytes option \<Rightarrow> u32 option" where
  "qhashmurmur3_32 data =
     (case data of
        None \<Rightarrow> Some 0
      | Some d \<Rightarrow>
          (if length d = 0 then Some 0
           else let nblocks = to_int32 (int (length d div 4));
                    off = nblocks * 4
                in if off < 0 \<or> 2 ^ 31 \<le> off \<or> int (length d) < off then None
                   else Option.bind (murmur_blocks d 0 nblocks 0) (\<lambda>h.
                        Option.bind (murmur_tail h (length d mod 4) (drop (nat off) d)) (\<lambda>h.
                        Some (murmur_final (h XOR of_nat (length d)))))))"

text \<open>
  The value for the callers in \<^verbatim>\<open>qhasharr.c\<close>, which hash keys; it is the function's for data of
  less than 2 GiB (\<open>murmur3_hash_total\<close>).
\<close>

definition murmur3_hash :: "bytes \<Rightarrow> u32" where
  "murmur3_hash key = (case qhashmurmur3_32 (Some key) of None \<Rightarrow> 0 | Some h \<Rightarrow> h)"

lemma murmur_blocks_total:
  "0 \<le> i \<Longrightarrow> 4 * nblocks \<le> int (length data) \<Longrightarrow> murmur_blocks data i nblocks h \<noteq> None"
proof (induction data i nblocks h rule: murmur_blocks.induct)
  case (1 data i nblocks h)
  have "4 * nat i + 4 \<le> length data" if "i < nblocks" using that 1(2,3) by linarith
  then show ?case using 1 by (simp add: murmur_blocks.simps [of data i])
qed

lemma block_count:
  assumes "length d < 2 ^ 33"
  shows "to_int32 (int (length d div 4)) = int (length d div 4)"
  using assms by (intro to_int32_id) simp_all

lemma murmur3_off:
  fixes n :: nat
  shows "int (n div 4) * 4 < 2 ^ 31 \<longleftrightarrow> n < 2 ^ 31" "int (n div 4) * 4 \<le> int n" "nat (int (n div 4) * 4) = 4 * (n div 4)"
proof -
  have "n div 4 < 2 ^ 29 \<longleftrightarrow> n < 2 ^ 31" by (simp add: div_less_iff_less_mult)
  moreover have "int (n div 4) * 4 < 2 ^ 31 \<longleftrightarrow> int (n div 4) < 2 ^ 29" by simp
  ultimately show "int (n div 4) * 4 < 2 ^ 31 \<longleftrightarrow> n < 2 ^ 31" by simp
  have "n div 4 * 4 \<le> n" by simp
  then show "int (n div 4) * 4 \<le> int n" "nat (int (n div 4) * 4) = 4 * (n div 4)" by linarith+
qed

lemma murmur3_hash_total:
  assumes "length d < 2 ^ 31"
  shows "qhashmurmur3_32 (Some d) = Some (murmur3_hash d)"
proof -
  have d: "length d < 2 ^ 33" using assms by simp
  obtain h where h: "murmur_blocks d 0 (int (length d div 4)) 0 = Some h"
    using murmur_blocks_total [of 0 "int (length d div 4)" d 0] murmur3_off(2) [of "length d"]
    by (auto simp: mult.commute)
  have "length d mod 4 \<le> length d - length d div 4 * 4" by (metis div_mult_mod_eq add_diff_cancel_left' order_refl)
  then have "qhashmurmur3_32 (Some d) \<noteq> None"
    using assms h murmur3_off [of "length d"] block_count [OF d]
    by (simp add: qhashmurmur3_32_def Let_def murmur_tail_def not_less mult.commute)
  then show ?thesis by (auto simp: murmur3_hash_def)
qed

subsection \<open>Hexadecimal digits of a digest\<close>

definition hexs :: "char list" where
  "hexs = ''0123456789abcdef''"

fun qhashmd5_bin_to_hex :: "bytes \<Rightarrow> char list" where
  "qhashmd5_bin_to_hex [] = []"
| "qhashmd5_bin_to_hex (b # bs) =
     hexs ! unat (drop_bit 4 b) # hexs ! unat (b AND 0x0F) # qhashmd5_bin_to_hex bs"

end
