(* ===== verification/Hasharr.thy ===== *)
theory Hasharr
  imports Hash
begin

text \<open>
  The static hash table of \<^verbatim>\<open>shmutil/qhasharr.c\<close> with the types of
  \<^verbatim>\<open>shmutil/qlibc.h\<close>: the slot array, every internal routine and every public
  operation, in the order of use. The memory of a table is the record \<open>qenv\<close>, which also
  carries the caller's \<^verbatim>\<open>errno\<close>; an operation takes the state and returns it
  changed. The union of a slot is its 242 bytes, so that a slot reused for another purpose
  keeps what the code leaves in it. A routine that returns an index or -1 returns an
  option. Reading outside the slot array (which the invariant of theory Hasharr_Inv
  excludes) reads an empty slot and writing there does nothing.
\<close>

subsection \<open>Slots\<close>

text \<open>
  Layout of \<^verbatim>\<open>struct _Q_HASHARR_SLOT_KEYVAL\<close>: value at 0 (128 bytes), key at 128
  (96 bytes), keylen at 224 (2 bytes), keymd5 at 226 (16 bytes); 242 bytes in all, which
  is also the size of the extension block and of the union.
\<close>

abbreviation KEYSIZE :: nat where "KEYSIZE \<equiv> 96"
abbreviation VALUESIZE :: nat where "VALUESIZE \<equiv> 128"
abbreviation DATASIZE :: nat where "DATASIZE \<equiv> 242"

record qslot =
  s_count :: int
  s_hash :: nat
  s_size :: nat
  s_link :: int
  s_data :: bytes

definition pair_key :: "bytes \<Rightarrow> bytes" where
  "pair_key d = mem_read 128 KEYSIZE d"

definition pair_keylen :: "bytes \<Rightarrow> nat" where
  "pair_keylen d = unat (of_le (mem_read 224 2 d) :: u16)"

definition pair_keymd5 :: "bytes \<Rightarrow> bytes" where
  "pair_keymd5 d = mem_read 226 16 d"

definition zero_slot :: qslot where
  "zero_slot = \<lparr>s_count = 0, s_hash = 0, s_size = 0, s_link = 0, s_data = replicate DATASIZE 0\<rparr>"

text \<open>A slot that starts an element: the leading slot of a bucket or a colliding key.\<close>

definition is_key_slot :: "qslot \<Rightarrow> bool" where
  "is_key_slot s \<longleftrightarrow> s_count s > 0 \<or> s_count s = -1"

subsection \<open>The table\<close>

record qhasharr_t =
  maxslots :: int
  usedslots :: int
  num :: int
  slots :: "qslot list"

record qenv = qhasharr_t +
  errno :: errno

definition slot_at :: "qenv \<Rightarrow> nat \<Rightarrow> qslot" where
  "slot_at t i = (if i < length (slots t) then slots t ! i else zero_slot)"

definition upd_slot :: "nat \<Rightarrow> (qslot \<Rightarrow> qslot) \<Rightarrow> qenv \<Rightarrow> qenv" where
  "upd_slot i f t = t\<lparr>slots := (slots t)[i := f (slot_at t i)]\<rparr>"

text \<open>\<^verbatim>\<open>sizeof(qhasharr_t)\<close> is 12 and \<^verbatim>\<open>sizeof(qhasharr_slot_t)\<close> is 260.\<close>

abbreviation SIZEOF_TABLE :: u64 where "SIZEOF_TABLE \<equiv> 12"
abbreviation SIZEOF_SLOT :: u64 where "SIZEOF_SLOT \<equiv> 260"

definition qhasharr_calculate_memsize :: "int \<Rightarrow> u64" where
  "qhasharr_calculate_memsize n = SIZEOF_TABLE + SIZEOF_SLOT * word_of_int n"

text \<open>
  The creator: the pointer it returns and the memory, cleared. \<^verbatim>\<open>maxslots\<close> is an
  \<^verbatim>\<open>int\<close>, the quotient a \<^verbatim>\<open>size_t\<close>.
\<close>

definition qhasharr :: "ptr \<Rightarrow> u64 \<Rightarrow> qenv \<Rightarrow> ptr \<times> qenv" where
  "qhasharr memory memsize t =
     (if memory = NULL then (NULL, t)
      else let maxs = to_int32 (uint ((memsize - SIZEOF_TABLE) div SIZEOF_SLOT))
           in if maxs < 1 \<or> memsize \<le> SIZEOF_TABLE then (NULL, t\<lparr>errno := EINVAL\<rparr>)
              else (Ptr, t\<lparr>maxslots := maxs, usedslots := 0, num := 0,
                           slots := replicate (nat maxs) zero_slot\<rparr>))"

text \<open>\<^verbatim>\<open>qhashmurmur3_32(key, key_size) % tbl->maxslots\<close>, in unsigned arithmetic.\<close>

definition bucket :: "qenv \<Rightarrow> bytes \<Rightarrow> nat" where
  "bucket t key = unat (murmur3_hash key) mod nat (maxslots t mod 2 ^ 32)"

subsection \<open>Finding slots\<close>

definition find_empty :: "qenv \<Rightarrow> nat \<Rightarrow> nat option" where
  "find_empty t startidx =
     (if maxslots t \<le> 0 then None
      else let startidx = (if int startidx \<ge> maxslots t then 0 else startidx)
           in case cyc_loop (nat (maxslots t)) startidx
                     (\<lambda>idx (u::unit). if s_count (slot_at t idx) = 0 then Inl idx else Inr u) startidx () of
                Inl idx \<Rightarrow> Some idx
              | Inr _ \<Rightarrow> None)"

text \<open>The comparison of a lookup key with the key stored in a slot.\<close>

definition key_matches :: "bytes \<Rightarrow> qslot \<Rightarrow> bool" where
  "key_matches key s \<longleftrightarrow>
     length key = pair_keylen (s_data s) \<and>
     (if length key \<le> KEYSIZE
      then key = take (length key) (pair_key (s_data s))
      else take KEYSIZE key = pair_key (s_data s) \<and> md5_digest key = pair_keymd5 (s_data s))"

definition get_idx :: "qenv \<Rightarrow> bytes \<Rightarrow> nat \<Rightarrow> nat option" where
  "get_idx t key hash =
     (if s_count (slot_at t hash) > 0
      then case cyc_loop (nat (maxslots t)) hash
                  (\<lambda>idx count.
                     if \<not> count < s_count (slot_at t hash) then Inl None
                     else if s_hash (slot_at t idx) = hash \<and> is_key_slot (slot_at t idx)
                     then (if key_matches key (slot_at t idx) then Inl (Some idx) else Inr (count + 1))
                     else Inr count) hash (0::int) of
             Inl r \<Rightarrow> r
           | Inr _ \<Rightarrow> None
      else None)"

subsection \<open>Reading a value\<close>

text \<open>The first loop of \<^verbatim>\<open>_get_data\<close>: the size of the value, or \<open>None\<close> if it runs too long.\<close>

function get_data_size :: "qenv \<Rightarrow> nat \<Rightarrow> nat \<Rightarrow> nat \<Rightarrow> nat option" where
  "get_data_size t newidx valsize loop_count =
     (let valsize = valsize + s_size (slot_at t newidx)
      in if s_link (slot_at t newidx) = -1 then Some valsize
         else if int (loop_count + 1) > maxslots t then None
         else get_data_size t (nat (s_link (slot_at t newidx))) valsize (loop_count + 1))"
  by pat_completeness auto
termination
  by (relation "measure (\<lambda>(t, newidx, valsize, lc). nat (maxslots t) - lc)") auto

text \<open>The second loop: the copy into the allocated buffer, \<open>vp\<close> being the offset written so far.\<close>

function get_data_copy :: "qenv \<Rightarrow> nat \<Rightarrow> nat \<Rightarrow> bytes \<Rightarrow> nat \<Rightarrow> nat \<Rightarrow> bytes option" where
  "get_data_copy t valsize newidx val vp loop_count =
     (if vp < valsize
      then let s = slot_at t newidx; vsize = s_size s
           in if vp + vsize > valsize then None
              else let val = (if s_count s = -2 then blit vp (mem_read 0 vsize (s_data s)) val
                              else blit vp (mem_read 0 vsize (s_data s)) val);
                       vp = vp + vsize
                   in if s_link s = -1 then Some val
                      else if int (loop_count + 1) > maxslots t then None
                      else get_data_copy t valsize (nat (s_link s)) val vp (loop_count + 1)
      else Some val)"
  by pat_completeness auto
termination
  by (relation "measure (\<lambda>(t, valsize, newidx, val, vp, lc). nat (maxslots t) - lc)") auto

declare get_data_size.simps [simp del] get_data_copy.simps [simp del]

text \<open>\<open>alloc n\<close> tells whether \<^verbatim>\<open>malloc(n)\<close> succeeds.\<close>

definition get_data :: "(nat \<Rightarrow> bool) \<Rightarrow> qenv \<Rightarrow> nat option \<Rightarrow> bytes option \<times> qenv" where
  "get_data alloc t idx =
     (case idx of
        None \<Rightarrow> (None, t\<lparr>errno := ENOENT\<rparr>)
      | Some i \<Rightarrow>
          (case get_data_size t i 0 0 of
             None \<Rightarrow> (None, t)
           | Some valsize \<Rightarrow>
               (if \<not> alloc valsize then (None, t\<lparr>errno := ENOMEM\<rparr>)
                else (get_data_copy t valsize i (replicate valsize 0) 0 0, t))))"

subsection \<open>Moving and freeing slots\<close>

definition copy_slot :: "qenv \<Rightarrow> nat \<Rightarrow> nat \<Rightarrow> bool \<times> qenv" where
  "copy_slot t idx1 idx2 =
     (if s_count (slot_at t idx1) \<noteq> 0 \<or> s_count (slot_at t idx2) = 0
      then (False, t\<lparr>errno := EFAULT\<rparr>)
      else let t = upd_slot idx1 (\<lambda>_. slot_at t idx2) t
           in (True, t\<lparr>usedslots := usedslots t + 1\<rparr>))"

definition remove_slot :: "qenv \<Rightarrow> nat \<Rightarrow> bool \<times> qenv" where
  "remove_slot t idx =
     (if s_count (slot_at t idx) = 0 then (False, t\<lparr>errno := EFAULT\<rparr>)
      else let t = upd_slot idx (\<lambda>s. s\<lparr>s_count := 0\<rparr>) t
           in (True, t\<lparr>usedslots := usedslots t - 1\<rparr>))"

lemma maxslots_upd_slot [simp]: "maxslots (upd_slot i f t) = maxslots t"
  by (simp add: upd_slot_def)

lemma maxslots_remove_slot [simp]: "maxslots (snd (remove_slot t i)) = maxslots t"
  by (simp add: remove_slot_def Let_def)

function remove_data_loop :: "qenv \<Rightarrow> nat \<Rightarrow> nat \<Rightarrow> qenv" where
  "remove_data_loop t idx loop_count =
     (let link = s_link (slot_at t idx); t' = snd (remove_slot t idx)
      in if link = -1 then t'
         else if int (loop_count + 1) > maxslots t' then t'
         else remove_data_loop t' (nat link) (loop_count + 1))"
  by pat_completeness auto
termination
  by (relation "measure (\<lambda>(t, idx, lc). nat (maxslots t) - lc)") auto

declare remove_data_loop.simps [simp del]

definition remove_data :: "qenv \<Rightarrow> nat \<Rightarrow> bool \<times> qenv" where
  "remove_data t idx =
     (if s_count (slot_at t idx) = 0 then (False, t\<lparr>errno := EFAULT\<rparr>)
      else let t = remove_data_loop t idx 0 in (True, t\<lparr>num := num t - 1\<rparr>))"

subsection \<open>Storing an element\<close>

text \<open>
  The start of \<^verbatim>\<open>_put_data\<close> (the key and the head of the chain), the slot it adds for
  the rest of a value and the chunk it copies into a slot.
\<close>

definition put_key :: "nat \<Rightarrow> nat \<Rightarrow> bytes \<Rightarrow> int \<Rightarrow> qenv \<Rightarrow> qenv" where
  "put_key idx hash key count =
     upd_slot idx (\<lambda>s.
       s\<lparr>s_count := to_short count, s_hash := hash, s_link := -1,
         s_data := blit 224 (to_le 2 (of_nat (length key) :: u16))
                    (blit 226 (md5_digest key)
                      (blit 128 (take KEYSIZE key) (s_data s)))\<rparr>)"

definition link_ext :: "nat \<Rightarrow> nat \<Rightarrow> qenv \<Rightarrow> qenv" where
  "link_ext newidx tmpidx t =
     upd_slot newidx (\<lambda>s. s\<lparr>s_link := int tmpidx\<rparr>)
       (upd_slot tmpidx (\<lambda>_. zero_slot\<lparr>s_count := -2, s_hash := newidx, s_link := -1, s_size := 0\<rparr>) t)"

definition chunk_size :: "qenv \<Rightarrow> nat \<Rightarrow> bytes \<Rightarrow> nat \<Rightarrow> nat" where
  "chunk_size t newidx val savesize =
     (let copysize = length val - savesize
      in if s_count (slot_at t newidx) = -2
         then (if copysize > DATASIZE then DATASIZE else copysize)
         else (if copysize > VALUESIZE then VALUESIZE else copysize))"

definition store_chunk :: "nat \<Rightarrow> bytes \<Rightarrow> nat \<Rightarrow> qenv \<Rightarrow> qenv" where
  "store_chunk newidx val savesize t =
     (let copysize = chunk_size t newidx val savesize;
          t = (if s_count (slot_at t newidx) = -2 then t else t\<lparr>num := num t + 1\<rparr>);
          t = upd_slot newidx (\<lambda>s. s\<lparr>s_data := blit 0 (mem_read savesize copysize val) (s_data s)\<rparr>) t;
          t = upd_slot newidx (\<lambda>s. s\<lparr>s_size := copysize mod 256\<rparr>) t
      in t\<lparr>usedslots := usedslots t + 1\<rparr>)"

lemma chunk_size_pos [simp]: "savesize < length val \<Longrightarrow> 0 < chunk_size t i val savesize"
  by (simp add: chunk_size_def Let_def)

function put_data_loop :: "nat \<Rightarrow> bytes \<Rightarrow> nat \<Rightarrow> nat \<Rightarrow> qenv \<Rightarrow> bool \<times> qenv" where
  "put_data_loop idx val newidx savesize t =
     (if savesize < length val
      then if savesize > 0
           then case find_empty t (newidx + 1) of
                  None \<Rightarrow> (False, (snd (remove_data t idx))\<lparr>errno := ENOBUFS\<rparr>)
                | Some tmpidx \<Rightarrow>
                    let t = link_ext newidx tmpidx t
                    in put_data_loop idx val tmpidx (savesize + chunk_size t tmpidx val savesize)
                         (store_chunk tmpidx val savesize t)
           else put_data_loop idx val newidx (savesize + chunk_size t newidx val savesize)
                  (store_chunk newidx val savesize t)
      else (True, t))"
  by pat_completeness auto
termination
  by (relation "measure (\<lambda>(idx, val, newidx, savesize, t). length val - savesize)")
    (auto simp: diff_less_mono2)

declare put_data_loop.simps [simp del]

definition put_data :: "qenv \<Rightarrow> nat \<Rightarrow> nat \<Rightarrow> bytes \<Rightarrow> bytes \<Rightarrow> int \<Rightarrow> bool \<times> qenv" where
  "put_data t idx hash key val count =
     (if s_count (slot_at t idx) \<noteq> 0 then (False, t\<lparr>errno := EFAULT\<rparr>)
      else put_data_loop idx val idx 0 (put_key idx hash key count t))"

end
