(* ===== verification/Hasharr_Api.thy ===== *)
theory Hasharr_Api
  imports Hasharr
begin

text \<open>
  The public operations of \<^verbatim>\<open>shmutil/qhasharr.c\<close> over the routines of theory Hasharr:
  lookup, \<^verbatim>\<open>qhasharr_remove\<close>, \<^verbatim>\<open>qhasharr_put\<close> with its "remove and recall" of an
  existing key (the occupied slots decrease, which is why the recall ends), the string and
  integer variants, the iteration and the two housekeeping operations.
\<close>

subsection \<open>Slots after an update\<close>

named_theorems slot_simps "slots and counters after an operation"

lemma slot_at_upd_slot [slot_simps]:
  "slot_at (upd_slot i f t) j =
   (if i = j \<and> i < length (slots t) then f (slot_at t i) else slot_at t j)"
  by (auto simp: slot_at_def upd_slot_def)

lemma length_slots_upd_slot [simp]: "length (slots (upd_slot i f t)) = length (slots t)"
  by (simp add: upd_slot_def)

lemma fields_upd_slot [simp]:
  "usedslots (upd_slot i f t) = usedslots t" "num (upd_slot i f t) = num t"
  "errno (upd_slot i f t) = errno t"
  by (simp_all add: upd_slot_def)

lemma slot_at_fields [simp]:
  "slot_at (t\<lparr>usedslots := u\<rparr>) i = slot_at t i" "slot_at (t\<lparr>num := n\<rparr>) i = slot_at t i"
  "slot_at (t\<lparr>errno := e\<rparr>) i = slot_at t i"
  by (simp_all add: slot_at_def)

lemma s_count_zero_slot [simp]: "s_count zero_slot = 0"
  by (simp add: zero_slot_def)

lemma in_range_if_occupied: "s_count (slot_at t i) \<noteq> 0 \<Longrightarrow> i < length (slots t)"
  by (auto simp: slot_at_def split: if_splits)

subsection \<open>Occupied slots\<close>

definition occupied :: "qenv \<Rightarrow> nat set" where
  "occupied t = {i. s_count (slot_at t i) \<noteq> 0}"

lemma occupied_iff: "i \<in> occupied t \<longleftrightarrow> s_count (slot_at t i) \<noteq> 0"
  by (simp add: occupied_def)

lemma occupied_sub: "occupied t \<subseteq> {..<length (slots t)}"
  by (auto simp: occupied_def dest: in_range_if_occupied)

lemma finite_occupied [simp]: "finite (occupied t)"
  using occupied_sub by (rule finite_subset) simp

lemma occupied_fields [simp]:
  "occupied (t\<lparr>usedslots := u\<rparr>) = occupied t" "occupied (t\<lparr>num := n\<rparr>) = occupied t"
  "occupied (t\<lparr>errno := e\<rparr>) = occupied t"
  by (simp_all add: occupied_def)

lemma occupied_upd_slot: "occupied (upd_slot i f t) \<subseteq> insert i (occupied t)"
  by (auto simp: occupied_def slot_simps split: if_splits)

lemma occupied_upd_slot_same:
  "(\<And>s. (s_count (f s) = 0) = (s_count s = 0)) \<Longrightarrow> occupied (upd_slot i f t) = occupied t"
  by (auto simp: occupied_def slot_simps split: if_splits)

lemma occupied_remove_slot: "occupied (snd (remove_slot t i)) = occupied t - {i}"
  by (auto simp: remove_slot_def occupied_def slot_simps Let_def split: if_splits
      dest: in_range_if_occupied)

lemma occupied_remove_data_loop: "occupied (remove_data_loop t i lc) \<subseteq> occupied t - {i}"
proof (induction t i lc rule: remove_data_loop.induct)
  case (1 t i lc)
  let ?t = "snd (remove_slot t i)"
  show ?case
    by (subst remove_data_loop.simps)
      (use "1.IH" [OF refl refl] in \<open>auto simp: Let_def occupied_remove_slot\<close>)
qed

lemma occupied_remove_data: "occupied (snd (remove_data t i)) \<subseteq> occupied t - {i}"
  using occupied_remove_data_loop [of t i 0]
  by (auto simp: remove_data_def Let_def occupied_iff split: if_splits)

lemma occupied_copy_slot: "occupied (snd (copy_slot t i j)) \<subseteq> insert i (occupied t)"
  using occupied_upd_slot [of i "\<lambda>_. slot_at t j" t]
  by (auto simp: copy_slot_def Let_def split: if_splits)

subsection \<open>Lookup\<close>

definition qhasharr_exist :: "ptr \<Rightarrow> bytes option \<Rightarrow> qenv \<Rightarrow> bool \<times> qenv" where
  "qhasharr_exist tbl key t =
     (case key of
        None \<Rightarrow> (False, t\<lparr>errno := EINVAL\<rparr>)
      | Some k \<Rightarrow>
          (if tbl = NULL then (False, t\<lparr>errno := EINVAL\<rparr>)
           else if maxslots t = 0 then (False, t)
           else (get_idx t k (bucket t k) \<noteq> None, t)))"

definition qhasharr_get :: "(nat \<Rightarrow> bool) \<Rightarrow> ptr \<Rightarrow> bytes option \<Rightarrow> qenv \<Rightarrow> bytes option \<times> qenv" where
  "qhasharr_get alloc tbl key t =
     (case key of
        None \<Rightarrow> (None, t\<lparr>errno := EINVAL\<rparr>)
      | Some k \<Rightarrow>
          (if tbl = NULL then (None, t\<lparr>errno := EINVAL\<rparr>)
           else if maxslots t = 0 then (None, t)
           else case get_idx t k (bucket t k) of
                  None \<Rightarrow> (None, t\<lparr>errno := ENOENT\<rparr>)
                | Some idx \<Rightarrow> get_data alloc t (Some idx)))"

subsection \<open>Removal\<close>

text \<open>
  The search for a colliding key of the bucket, from the slot after the leading one round
  to it.
\<close>

definition find_dup :: "qenv \<Rightarrow> nat \<Rightarrow> nat \<Rightarrow> nat option" where
  "find_dup t idx hash =
     (let m = nat (maxslots t)
      in if cyc_next m idx = idx then None
         else case cyc_loop m idx
                     (\<lambda>i (u::unit). if s_count (slot_at t i) = -1 \<and> s_hash (slot_at t i) = hash
                            then Inl i else Inr u) (cyc_next m idx) () of
                Inl idx2 \<Rightarrow> Some idx2
              | Inr _ \<Rightarrow> None)"

text \<open>\<^verbatim>\<open>if (slots[idx].link != -1) slots[slots[idx].link].hash = idx;\<close>\<close>

definition relink_next :: "nat \<Rightarrow> qenv \<Rightarrow> qenv" where
  "relink_next idx t =
     (if s_link (slot_at t idx) \<noteq> -1
      then upd_slot (nat (s_link (slot_at t idx))) (\<lambda>s. s\<lparr>s_hash := idx\<rparr>) t
      else t)"

definition qhasharr_remove :: "ptr \<Rightarrow> bytes option \<Rightarrow> qenv \<Rightarrow> bool \<times> qenv" where
  "qhasharr_remove tbl key t =
     (case key of
        None \<Rightarrow> (False, t\<lparr>errno := EINVAL\<rparr>)
      | Some k \<Rightarrow>
          if tbl = NULL then (False, t\<lparr>errno := EINVAL\<rparr>)
          else if maxslots t = 0 then (False, t)
          else let hash = bucket t k
               in case get_idx t k hash of
                    None \<Rightarrow> (False, t\<lparr>errno := ENOENT\<rparr>)
                  | Some idx \<Rightarrow>
                      if s_count (slot_at t idx) = 1 then (True, snd (remove_data t idx))
                      else if s_count (slot_at t idx) > 1
                      then case find_dup t idx hash of
                             None \<Rightarrow> (False, t\<lparr>errno := EFAULT\<rparr>)
                           | Some idx2 \<Rightarrow>
                               let backupcount = s_count (slot_at t idx);
                                   t = snd (remove_data t idx);
                                   t = snd (copy_slot t idx idx2);
                                   t = snd (remove_slot t idx2);
                                   t = upd_slot idx (\<lambda>s. s\<lparr>s_count := to_short (backupcount - 1)\<rparr>) t
                               in (True, relink_next idx t)
                      else if s_count (slot_at t idx) = -1
                      then let lead = s_hash (slot_at t idx)
                           in if s_count (slot_at t lead) \<le> 1 then (False, t\<lparr>errno := EFAULT\<rparr>)
                              else let t = upd_slot lead (\<lambda>s. s\<lparr>s_count := to_short (s_count s - 1)\<rparr>) t
                                   in (True, snd (remove_data t idx))
                      else (False, t\<lparr>errno := ENOENT\<rparr>))"

text \<open>A successful removal frees a slot and occupies none.\<close>

lemma occupied_relink_next [simp]: "occupied (relink_next i t) = occupied t"
  by (simp add: relink_next_def occupied_upd_slot_same)

lemma list_loop_Inl:
  "list_loop f is s = Inl r \<Longrightarrow> \<exists>i\<in>set is. \<exists>s'. f i s' = Inl r"
  by (induction "is" arbitrary: s) (auto split: sum.splits)

lemma cyc_loop_Inl: "cyc_loop m start f idx s = Inl r \<Longrightarrow> \<exists>i s'. f i s' = Inl r"
proof (induction m start f idx s rule: cyc_loop.induct)
  case (1 m start f idx s)
  show ?case
  proof (cases "f idx s")
    case (Inl a)
    with "1.prems" show ?thesis
      by (auto simp: cyc_loop.simps [of m start f idx s])
  next
    case (Inr s')
    with "1.prems" have "\<not> (cyc_next m idx = start \<or> m \<le> start)"
      "cyc_loop m start f (cyc_next m idx) s' = Inl r"
      by (auto simp: cyc_loop.simps [of m start f idx s] split: if_splits)
    with "1.IH" [OF Inr] show ?thesis by blast
  qed
qed

lemma find_dup_SomeD:
  "find_dup t idx hash = Some j \<Longrightarrow> s_count (slot_at t j) = -1 \<and> s_hash (slot_at t j) = hash"
  by (fastforce simp: find_dup_def Let_def split: sum.splits if_splits dest: cyc_loop_Inl)

lemma remove_frees:
  assumes "qhasharr_remove tbl key t = (True, t')"
  shows "\<exists>x\<in>occupied t. occupied t' \<subseteq> occupied t - {x}"
proof -
  obtain k idx where k: "key = Some k" and idx: "get_idx t k (bucket t k) = Some idx"
    using assms by (auto simp: qhasharr_remove_def Let_def split: option.splits if_splits)
  note rem = assms [unfolded k qhasharr_remove_def Let_def, simplified, unfolded idx, simplified]
  consider (one) "s_count (slot_at t idx) = 1" | (more) "s_count (slot_at t idx) > 1"
    | (dup) "s_count (slot_at t idx) = -1"
    using rem by (auto split: if_splits)
  then show ?thesis
  proof cases
    case one
    with rem have "t' = snd (remove_data t idx)" by (auto split: if_splits)
    with one occupied_remove_data [of t idx] show ?thesis
      by (auto simp: occupied_iff intro!: bexI [of _ idx])
  next
    case more
    with rem obtain j where j: "find_dup t idx (bucket t k) = Some j"
      by (auto split: if_splits option.splits)
    define t1 where "t1 = snd (copy_slot (snd (remove_data t idx)) idx j)"
    have t': "t' = relink_next idx (upd_slot idx (\<lambda>s. s\<lparr>s_count := to_short (s_count (slot_at t idx) - 1)\<rparr>)
        (snd (remove_slot t1 j)))"
      using rem more j by (auto simp: t1_def split: if_splits)
    have cj: "s_count (slot_at t j) = -1" using j by (simp add: find_dup_SomeD)
    with more have ij: "idx \<noteq> j" by auto
    have "occupied t1 \<subseteq> insert idx (occupied t)"
      using occupied_copy_slot [of "snd (remove_data t idx)" idx j] occupied_remove_data [of t idx]
      unfolding t1_def by blast
    then have "occupied t' \<subseteq> insert idx (occupied t - {j})"
      using occupied_upd_slot [of idx "\<lambda>s. s\<lparr>s_count := to_short (s_count (slot_at t idx) - 1)\<rparr>"
          "snd (remove_slot t1 j)"]
      unfolding t' occupied_relink_next occupied_remove_slot by blast
    moreover have "idx \<in> occupied t" "j \<in> occupied t"
      using more cj by (simp_all add: occupied_iff)
    ultimately show ?thesis using ij by blast
  next
    case dup
    let ?lead = "s_hash (slot_at t idx)"
    let ?t1 = "upd_slot ?lead (\<lambda>s. s\<lparr>s_count := to_short (s_count s - 1)\<rparr>) t"
    from dup rem have t': "t' = snd (remove_data ?t1 idx)" and lead: "s_count (slot_at t ?lead) > 1"
      by (auto simp: Let_def split: if_splits)
    have "occupied ?t1 \<subseteq> occupied t"
      using occupied_upd_slot [of ?lead "\<lambda>s. s\<lparr>s_count := to_short (s_count s - 1)\<rparr>" t] lead
      by (simp add: occupied_iff insert_absorb)
    with occupied_remove_data [of ?t1 idx] dup show ?thesis
      unfolding t' by (auto simp: occupied_iff intro!: bexI [of _ idx])
  qed
qed

lemma remove_decreases:
  assumes "qhasharr_remove tbl key t = (True, t')"
  shows "card (occupied t') < card (occupied t)"
proof -
  obtain x where "x \<in> occupied t" "occupied t' \<subseteq> occupied t - {x}"
    using remove_frees [OF assms] by blast
  then have "occupied t' \<subset> occupied t" by blast
  then show ?thesis by (rule psubset_card_mono [OF finite_occupied])
qed

subsection \<open>Insertion\<close>

text \<open>
  The repair of the links around a slot that was moved to \<open>idx\<close> to make room for a leading
  key.
\<close>

definition relink_moved :: "nat \<Rightarrow> qenv \<Rightarrow> qenv" where
  "relink_moved idx t =
     (if s_count (slot_at t idx) = -2
      then relink_next idx (upd_slot (s_hash (slot_at t idx)) (\<lambda>s. s\<lparr>s_link := int idx\<rparr>) t)
      else if s_count (slot_at t idx) = -1 then relink_next idx t
      else t)"

function put_body :: "bytes \<Rightarrow> bytes \<Rightarrow> qenv \<Rightarrow> bool \<times> qenv" where
  "put_body key val t =
     (if maxslots t = 0 then (False, t)
      else if usedslots t \<ge> maxslots t then (False, t\<lparr>errno := ENOBUFS\<rparr>)
      else let hash = bucket t key
           in if s_count (slot_at t hash) = 0 then put_data t hash hash key val 1
              else if s_count (slot_at t hash) > 0
              then case get_idx t key hash of
                     Some idx \<Rightarrow>
                       (case qhasharr_remove Ptr (Some key) t of
                          (ok, t') \<Rightarrow> if \<not> ok then (False, t') else put_body key val t')
                   | None \<Rightarrow>
                       (case find_empty t hash of
                          None \<Rightarrow> (False, t\<lparr>errno := ENOBUFS\<rparr>)
                        | Some idx \<Rightarrow>
                            (case put_data t idx hash key val (-1) of
                               (ok, t') \<Rightarrow>
                                 if \<not> ok then (False, t')
                                 else (True, upd_slot hash (\<lambda>s. s\<lparr>s_count := to_short (s_count s + 1)\<rparr>) t')))
              else case find_empty t (hash + 1) of
                     None \<Rightarrow> (False, t\<lparr>errno := ENOBUFS\<rparr>)
                   | Some idx \<Rightarrow>
                       let t = snd (copy_slot t idx hash);
                           t = snd (remove_slot t hash);
                           t = relink_moved idx t
                       in put_data t hash hash key val 1)"
  by pat_completeness auto
termination
  by (relation "measure (\<lambda>(key, val, t). card (occupied t))") (auto intro: remove_decreases [OF sym])

declare put_body.simps [simp del]

definition qhasharr_put :: "ptr \<Rightarrow> bytes option \<Rightarrow> bytes option \<Rightarrow> qenv \<Rightarrow> bool \<times> qenv" where
  "qhasharr_put tbl key val t =
     (case (key, val) of
        (Some k, Some v) \<Rightarrow>
          (if tbl = NULL then (False, t\<lparr>errno := EINVAL\<rparr>) else put_body k v t)
      | _ \<Rightarrow> (False, t\<lparr>errno := EINVAL\<rparr>))"

subsection \<open>Strings and integers\<close>

text \<open>
  A C string is its bytes without the terminating NUL; \<^verbatim>\<open>strlen(s) + 1\<close> bytes are
  stored. \<^verbatim>\<open>snprintf("%ld")\<close> and \<^verbatim>\<open>atoll\<close> of the standard library are the
  decimal printer and reader below.
\<close>

definition qhasharr_putstr :: "ptr \<Rightarrow> bytes option \<Rightarrow> bytes option \<Rightarrow> qenv \<Rightarrow> bool \<times> qenv" where
  "qhasharr_putstr tbl key str t =
     (case key of
        None \<Rightarrow> (False, t\<lparr>errno := EINVAL\<rparr>)
      | Some k \<Rightarrow>
          (if tbl = NULL then (False, t\<lparr>errno := EINVAL\<rparr>)
           else qhasharr_put tbl (Some (k @ [0])) (map_option (\<lambda>s. s @ [0]) str) t))"

definition is_digit :: "byte \<Rightarrow> bool" where
  "is_digit b \<longleftrightarrow> 48 \<le> b \<and> b \<le> 57"

definition is_space :: "byte \<Rightarrow> bool" where
  "is_space b \<longleftrightarrow> b = 32 \<or> (9 \<le> b \<and> b \<le> 13)"

definition read_nat :: "bytes \<Rightarrow> nat" where
  "read_nat bs = foldl (\<lambda>n b. 10 * n + (unat b - 48)) 0 (takeWhile is_digit bs)"

definition atoll :: "bytes \<Rightarrow> int" where
  "atoll bs =
     (case dropWhile is_space bs of
        [] \<Rightarrow> 0
      | b # rest \<Rightarrow>
          if b = 45 then - int (read_nat rest)
          else if b = 43 then int (read_nat rest)
          else int (read_nat (b # rest)))"

definition qhasharr_putint :: "ptr \<Rightarrow> bytes option \<Rightarrow> u64 \<Rightarrow> qenv \<Rightarrow> bool \<times> qenv" where
  "qhasharr_putint tbl key n t =
     (if tbl = NULL \<or> key = None then (False, t\<lparr>errno := EINVAL\<rparr>)
      else qhasharr_putstr tbl key (Some (print_int (sint n))) t)"

definition qhasharr_getstr :: "(nat \<Rightarrow> bool) \<Rightarrow> ptr \<Rightarrow> bytes option \<Rightarrow> qenv \<Rightarrow> bytes option \<times> qenv" where
  "qhasharr_getstr alloc tbl key t = qhasharr_get alloc tbl key t"

definition qhasharr_getint :: "(nat \<Rightarrow> bool) \<Rightarrow> ptr \<Rightarrow> bytes option \<Rightarrow> qenv \<Rightarrow> u64 \<times> qenv" where
  "qhasharr_getint alloc tbl key t =
     (case qhasharr_getstr alloc tbl key t of
        (None, t) \<Rightarrow> (0, t)
      | (Some str, t) \<Rightarrow> (word_of_int (atoll str), t))"

subsection \<open>Iteration\<close>

text \<open>
  The result is the return value, the object (name and data), the index after the call and
  the state. \<open>alloc\<close> is asked for the name and by \<^verbatim>\<open>_get_data\<close> for the value.
\<close>

function getnext_loop :: "(nat \<Rightarrow> bool) \<Rightarrow> qenv \<Rightarrow> nat \<Rightarrow> (bytes \<times> bytes) option \<times> nat \<times> qenv" where
  "getnext_loop alloc t idx =
     (if int idx < maxslots t
      then if s_count (slot_at t idx) = 0 \<or> s_count (slot_at t idx) = -2
           then getnext_loop alloc t (idx + 1)
           else let d = s_data (slot_at t idx);
                    keylen = (if pair_keylen d > KEYSIZE then KEYSIZE else pair_keylen d)
                in if \<not> alloc keylen then (None, idx, t\<lparr>errno := ENOMEM\<rparr>)
                   else case get_data alloc t (Some idx) of
                          (None, t) \<Rightarrow> (None, idx, t\<lparr>errno := ENOMEM\<rparr>)
                        | (Some val, t) \<Rightarrow> (Some (take keylen (pair_key d), val), idx + 1, t)
      else (None, idx, t\<lparr>errno := ENOENT\<rparr>))"
  by pat_completeness auto
termination
  by (relation "measure (\<lambda>(alloc, t, idx). nat (maxslots t) - idx)") auto

declare getnext_loop.simps [simp del]

definition qhasharr_getnext ::
    "(nat \<Rightarrow> bool) \<Rightarrow> ptr \<Rightarrow> nat \<Rightarrow> qenv \<Rightarrow> (bytes \<times> bytes) option \<times> nat \<times> qenv" where
  "qhasharr_getnext alloc tbl idx t =
     (if tbl = NULL then (None, idx, t\<lparr>errno := EINVAL\<rparr>) else getnext_loop alloc t idx)"

subsection \<open>Housekeeping\<close>

text \<open>The number of keys, with \<^verbatim>\<open>maxslots\<close> and \<^verbatim>\<open>usedslots\<close> through the pointers.\<close>

definition qhasharr_size :: "ptr \<Rightarrow> qenv \<Rightarrow> int \<times> (int \<times> int) option" where
  "qhasharr_size tbl t = (if tbl = NULL then (0, None) else (num t, Some (maxslots t, usedslots t)))"

definition qhasharr_clear :: "ptr \<Rightarrow> qenv \<Rightarrow> qenv" where
  "qhasharr_clear tbl t =
     (if tbl = NULL then t
      else if usedslots t = 0 then t
      else t\<lparr>usedslots := 0, num := 0,
             slots := replicate (nat (maxslots t)) zero_slot @ drop (nat (maxslots t)) (slots t)\<rparr>)"

end
