(* ===== verification/Hasharr_Inv.thy ===== *)
theory Hasharr_Inv
  imports Hasharr_Api
begin

text \<open>
  The invariant of the hash table and the map a table stands for. The occupied slots are
  partitioned into chains: a key slot (the leading slot of its bucket, with the bucket's
  counter, or a colliding key marked -1) followed by the extension slots (-2) that hold the
  rest of its value, linked in both directions. \<open>table_map\<close> is the abstraction: from the
  identity under which a key is stored (its bucket, its first 96 bytes, its length, and its
  MD5 if it was cut) to its value. The last part characterises the reading routines over
  the invariant: \<^verbatim>\<open>_find_empty\<close>, \<^verbatim>\<open>_get_idx\<close>, \<^verbatim>\<open>_get_data\<close>.
\<close>

subsection \<open>Neighbours in a list\<close>

definition pairs :: "'a list \<Rightarrow> ('a \<times> 'a) set" where
  "pairs xs = set (zip xs (tl xs))"

lemma pairs_simps [simp]:
  "pairs [] = {}" "pairs [x] = {}" "pairs (x # y # zs) = insert (x, y) (pairs (y # zs))"
  by (simp_all add: pairs_def)

lemma pairs_Cons: "xs \<noteq> [] \<Longrightarrow> pairs (x # xs) = insert (x, hd xs) (pairs xs)"
  by (cases xs) simp_all

lemma pairs_snoc: "xs \<noteq> [] \<Longrightarrow> pairs (xs @ [z]) = insert (last xs, z) (pairs xs)"
proof (induction xs)
  case (Cons x xs)
  then show ?case by (cases xs) auto
qed simp

lemma pairs_map: "pairs (map f xs) = map_prod f f ` pairs xs"
proof (induction xs)
  case (Cons x xs)
  then show ?case by (cases xs) simp_all
qed simp

lemma pairs_mem: "(x, y) \<in> pairs xs \<Longrightarrow> x \<in> set xs \<and> y \<in> set (tl xs)"
  by (auto simp: pairs_def dest: set_zip_leftD set_zip_rightD)

lemma pairs_pred: "y \<in> set (tl xs) \<Longrightarrow> \<exists>x. (x, y) \<in> pairs xs"
proof (induction xs)
  case (Cons x xs)
  then show ?case by (cases xs) auto
qed simp

lemma pairs_succ: "x \<in> set xs \<Longrightarrow> x \<noteq> last xs \<Longrightarrow> \<exists>y. (x, y) \<in> pairs xs"
proof (induction xs)
  case (Cons a xs)
  then show ?case by (cases xs) (auto split: if_splits)
qed simp

lemma pairs_distinct: "distinct xs \<Longrightarrow> (x, y) \<in> pairs xs \<Longrightarrow> x \<noteq> y"
proof (induction xs)
  case (Cons a xs)
  then show ?case by (cases xs) auto
qed simp

subsection \<open>Chains\<close>

definition linked :: "qenv \<Rightarrow> nat list \<Rightarrow> bool" where
  "linked t c \<longleftrightarrow> c \<noteq> [] \<and> s_link (slot_at t (last c)) = -1 \<and>
     (\<forall>(x, y)\<in>pairs c. s_link (slot_at t x) = int y \<and> s_hash (slot_at t y) = x)"

definition is_chain :: "qenv \<Rightarrow> nat list \<Rightarrow> bool" where
  "is_chain t c \<longleftrightarrow> linked t c \<and> distinct c \<and> is_key_slot (slot_at t (hd c)) \<and>
     (\<forall>i\<in>set (tl c). s_count (slot_at t i) = -2)"

definition chains_ok :: "qenv \<Rightarrow> nat list set \<Rightarrow> bool" where
  "chains_ok t CH \<longleftrightarrow> (\<forall>c\<in>CH. is_chain t c) \<and>
     (\<forall>c\<in>CH. \<forall>d\<in>CH. c \<noteq> d \<longrightarrow> set c \<inter> set d = {}) \<and> \<Union> (set ` CH) = occupied t"

definition slot_bytes :: "qenv \<Rightarrow> nat \<Rightarrow> bytes" where
  "slot_bytes t i = take (s_size (slot_at t i)) (s_data (slot_at t i))"

definition chain_val :: "qenv \<Rightarrow> nat list \<Rightarrow> bytes" where
  "chain_val t c = concat (map (slot_bytes t) c)"

lemma linked_single [simp]: "linked t [x] \<longleftrightarrow> s_link (slot_at t x) = -1"
  by (simp add: linked_def)

lemma linked_Cons [simp]:
  "linked t (x # y # c) \<longleftrightarrow>
   s_link (slot_at t x) = int y \<and> s_hash (slot_at t y) = x \<and> linked t (y # c)"
  by (auto simp: linked_def)

lemma linked_not_Nil [simp]: "\<not> linked t []"
  by (simp add: linked_def)

lemma linked_cong:
  "(\<And>i. i \<in> set c \<Longrightarrow> s_link (slot_at t' i) = s_link (slot_at t i) \<and>
      s_hash (slot_at t' i) = s_hash (slot_at t i)) \<Longrightarrow> linked t' c = linked t c"
proof (induction c)
  case (Cons x c)
  then show ?case by (cases c) auto
qed simp

lemma is_chain_cong:
  assumes "\<And>i. i \<in> set c \<Longrightarrow> slot_at t' i = slot_at t i"
  shows "is_chain t' c = is_chain t c"
proof (cases c)
  case (Cons x xs)
  with assms have "linked t' c = linked t c" by (intro linked_cong) simp
  with assms Cons show ?thesis by (auto simp: is_chain_def)
qed (simp add: is_chain_def)

lemma chain_val_cong:
  "(\<And>i. i \<in> set c \<Longrightarrow> slot_at t' i = slot_at t i) \<Longrightarrow> chain_val t' c = chain_val t c"
  by (simp add: chain_val_def slot_bytes_def cong: map_cong)

lemma is_chainD:
  assumes "is_chain t c"
  shows "c \<noteq> []" "linked t c" "distinct c" "is_key_slot (slot_at t (hd c))"
    "i \<in> set (tl c) \<Longrightarrow> s_count (slot_at t i) = -2"
  using assms by (auto simp: is_chain_def)

lemma is_key_slot_count: "is_key_slot s \<Longrightarrow> s_count s \<noteq> 0 \<and> s_count s \<noteq> -2"
  by (auto simp: is_key_slot_def)

lemma is_key_slot_cases: "is_key_slot s \<longleftrightarrow> s_count s \<noteq> 0 \<and> s_count s \<noteq> -2" if "s_count s \<ge> -2"
  using that by (auto simp: is_key_slot_def)

lemma is_chain_occupied: "is_chain t c \<Longrightarrow> i \<in> set c \<Longrightarrow> s_count (slot_at t i) \<noteq> 0"
  by (cases c) (auto simp: is_chain_def dest: is_key_slot_count)

lemma chains_okD:
  assumes "chains_ok t CH"
  shows "c \<in> CH \<Longrightarrow> is_chain t c"
    "c \<in> CH \<Longrightarrow> d \<in> CH \<Longrightarrow> i \<in> set c \<Longrightarrow> i \<in> set d \<Longrightarrow> c = d"
    "s_count (slot_at t i) \<noteq> 0 \<Longrightarrow> \<exists>c\<in>CH. i \<in> set c"
    "c \<in> CH \<Longrightarrow> i \<in> set c \<Longrightarrow> s_count (slot_at t i) \<noteq> 0"
  using assms unfolding chains_ok_def occupied_def by blast+

text \<open>The key slots are the heads of the chains.\<close>

lemma chain_head:
  assumes "chains_ok t CH" "is_key_slot (slot_at t i)"
  shows "\<exists>c\<in>CH. hd c = i"
proof -
  from assms obtain c where c: "c \<in> CH" "i \<in> set c"
    using chains_okD(3) [OF assms(1)] is_key_slot_count by blast
  then have ch: "is_chain t c" using chains_okD(1) [OF assms(1)] by blast
  then have "i \<notin> set (tl c)"
    using assms(2) is_chainD(5) is_key_slot_count by blast
  with c ch have "hd c = i" by (cases c) (auto simp: is_chain_def)
  with c show ?thesis by blast
qed

lemma chain_unique_head:
  "chains_ok t CH \<Longrightarrow> c \<in> CH \<Longrightarrow> d \<in> CH \<Longrightarrow> hd c = hd d \<Longrightarrow> c = d"
  by (metis chains_okD(1,2) is_chainD(1) list.set_sel(1))

subsection \<open>Identities and the stored map\<close>

type_synonym key_id = "nat \<times> bytes \<times> nat \<times> bytes"

definition slot_id :: "qslot \<Rightarrow> key_id" where
  "slot_id s =
     (let len = pair_keylen (s_data s)
      in (s_hash s, take len (pair_key (s_data s)), len, if len > KEYSIZE then pair_keymd5 (s_data s) else []))"

lemma slot_id_cong: "s_hash a = s_hash b \<Longrightarrow> s_data a = s_data b \<Longrightarrow> slot_id a = slot_id b"
  by (simp add: slot_id_def Let_def)

definition key_id :: "qenv \<Rightarrow> bytes \<Rightarrow> key_id" where
  "key_id t key =
     (bucket t key, take KEYSIZE key, length key, if length key > KEYSIZE then md5_digest key else [])"

text \<open>Following the links for at most \<open>n\<close> slots, and the value read that way.\<close>

fun chain_of :: "qenv \<Rightarrow> nat \<Rightarrow> nat \<Rightarrow> nat list" where
  "chain_of t 0 i = []"
| "chain_of t (Suc n) i =
     i # (if s_link (slot_at t i) = -1 then [] else chain_of t n (nat (s_link (slot_at t i))))"

definition key_slots :: "qenv \<Rightarrow> nat set" where
  "key_slots t = {i. is_key_slot (slot_at t i)}"

definition entries :: "qenv \<Rightarrow> (key_id \<times> bytes) list" where
  "entries t =
     map (\<lambda>i. (slot_id (slot_at t i), chain_val t (chain_of t (length (slots t)) i)))
       (filter (\<lambda>i. is_key_slot (slot_at t i)) [0..<length (slots t)])"

definition table_map :: "qenv \<Rightarrow> key_id \<rightharpoonup> bytes" where
  "table_map t = map_of (entries t)"

lemma chain_of_linked: "linked t c \<Longrightarrow> length c \<le> n \<Longrightarrow> chain_of t n (hd c) = c"
proof (induction c arbitrary: n)
  case (Cons x c)
  then obtain m where n: "n = Suc m" by (cases n) auto
  show ?case
  proof (cases c)
    case Nil
    with Cons n show ?thesis by simp
  next
    case (Cons y d)
    with Cons.prems have "linked t c" "s_link (slot_at t x) = int y" by auto
    moreover have "chain_of t m (hd c) = c" using Cons.IH Cons.prems n Cons by simp
    ultimately show ?thesis using n Cons by simp
  qed
qed simp

lemma chain_in_range: "is_chain t c \<Longrightarrow> set c \<subseteq> {..<length (slots t)}"
  using is_chain_occupied in_range_if_occupied by blast

lemma chain_length: "is_chain t c \<Longrightarrow> length c \<le> length (slots t)"
  using chain_in_range [of t c] card_mono [of "{..<length (slots t)}" "set c"]
  by (simp add: distinct_card is_chainD(3))

lemma chain_of_chain: "is_chain t c \<Longrightarrow> chain_of t (length (slots t)) (hd c) = c"
  by (simp add: chain_of_linked chain_length is_chainD(2))

subsection \<open>The invariant\<close>

definition slot_shape :: "qslot \<Rightarrow> bool" where
  "slot_shape s \<longleftrightarrow> length (s_data s) = DATASIZE \<and> s_count s \<ge> -2 \<and>
     (s_count s \<noteq> 0 \<longrightarrow> s_size s \<le> (if s_count s = -2 then DATASIZE else VALUESIZE))"

definition shape_ok :: "qenv \<Rightarrow> bool" where
  "shape_ok t \<longleftrightarrow> 0 < maxslots t \<and> maxslots t < 2 ^ 31 \<and> maxslots t = int (length (slots t)) \<and>
     (\<forall>i. slot_shape (slot_at t i))"

definition in_bucket :: "qenv \<Rightarrow> nat \<Rightarrow> nat set" where
  "in_bucket t h = {i \<in> key_slots t. s_hash (slot_at t i) = h}"

definition buckets_ok :: "qenv \<Rightarrow> bool" where
  "buckets_ok t \<longleftrightarrow>
     (\<forall>i\<in>key_slots t. s_count (slot_at t (s_hash (slot_at t i))) > 0) \<and>
     (\<forall>i. s_count (slot_at t i) > 0 \<longrightarrow>
        s_hash (slot_at t i) = i \<and> s_count (slot_at t i) = int (card (in_bucket t i)) \<and>
        s_count (slot_at t i) \<le> 32767)"

definition counters_ok :: "qenv \<Rightarrow> bool" where
  "counters_ok t \<longleftrightarrow> usedslots t = int (card (occupied t)) \<and> num t = int (card (key_slots t))"

definition ids_ok :: "qenv \<Rightarrow> bool" where
  "ids_ok t \<longleftrightarrow> inj_on (\<lambda>i. slot_id (slot_at t i)) (key_slots t)"

text \<open>
  A value takes no more slots than its length needs: 128 bytes in the first, 242 in each
  further one.
\<close>

definition ext_slots :: "nat \<Rightarrow> nat" where
  "ext_slots n = (n + (DATASIZE - 1)) div DATASIZE"

definition slots_needed :: "nat \<Rightarrow> nat" where
  "slots_needed n = 1 + ext_slots (n - VALUESIZE)"

definition packed :: "qenv \<Rightarrow> nat list set \<Rightarrow> bool" where
  "packed t CH \<longleftrightarrow> (\<forall>c\<in>CH. length c = slots_needed (length (chain_val t c)))"

definition table_ok :: "qenv \<Rightarrow> bool" where
  "table_ok t \<longleftrightarrow> shape_ok t \<and> (\<exists>CH. chains_ok t CH \<and> packed t CH) \<and> buckets_ok t \<and>
     counters_ok t \<and> ids_ok t"

lemma shape_slot: "shape_ok t \<Longrightarrow> slot_shape (slot_at t i)"
  by (simp add: shape_ok_def)

lemma shape_okD:
  assumes "shape_ok t"
  shows "0 < maxslots t" "maxslots t < 2147483648" "maxslots t = int (length (slots t))"
    "nat (maxslots t) = length (slots t)" "0 < length (slots t)"
    "length (s_data (slot_at t i)) = DATASIZE" "s_count (slot_at t i) \<ge> -2"
    "s_count (slot_at t i) \<noteq> 0 \<Longrightarrow> s_size (slot_at t i) \<le> DATASIZE"
  using assms unfolding shape_ok_def slot_shape_def by (auto split: if_splits dest!: spec [of _ i])

lemma key_slots_iff: "i \<in> key_slots t \<longleftrightarrow> is_key_slot (slot_at t i)"
  by (simp add: key_slots_def)

lemma key_slots_occupied: "key_slots t \<subseteq> occupied t"
  by (auto simp: key_slots_iff occupied_iff dest: is_key_slot_count)

lemma finite_key_slots [simp]: "finite (key_slots t)"
  using key_slots_occupied finite_occupied by (rule finite_subset)

lemma finite_in_bucket [simp]: "finite (in_bucket t h)"
  by (simp add: in_bucket_def)

lemma key_slots_range: "i \<in> key_slots t \<Longrightarrow> i < length (slots t)"
  by (metis in_range_if_occupied is_key_slot_count key_slots_iff)

lemma bucket_less [simp]: "shape_ok t \<Longrightarrow> bucket t key < length (slots t)"
  using shape_okD [of t] by (simp add: bucket_def)

lemma bucket_cong: "maxslots t' = maxslots t \<Longrightarrow> bucket t' key = bucket t key"
  by (simp add: bucket_def)

text \<open>The map of a table, by its chains.\<close>

lemma key_slots_heads: "chains_ok t CH \<Longrightarrow> key_slots t = hd ` CH"
  using chain_head chains_okD(1) is_chainD(4) by (fastforce simp: key_slots_iff)

lemma table_map_Some:
  assumes ch: "chains_ok t CH" and ids: "ids_ok t"
  shows "table_map t k = Some v \<longleftrightarrow>
    (\<exists>c\<in>CH. slot_id (slot_at t (hd c)) = k \<and> chain_val t c = v)"
proof -
  have dist: "distinct (map fst (entries t))"
    unfolding entries_def using ids
    by (auto simp: distinct_map ids_ok_def key_slots_def inj_on_def o_def)
  then have "table_map t k = Some v \<longleftrightarrow> (k, v) \<in> set (entries t)"
    by (simp add: table_map_def)
  also have "\<dots> \<longleftrightarrow> (\<exists>i\<in>key_slots t. k = slot_id (slot_at t i) \<and>
      v = chain_val t (chain_of t (length (slots t)) i))"
    using key_slots_range by (auto simp: entries_def key_slots_iff)
  also have "\<dots> \<longleftrightarrow> (\<exists>c\<in>CH. slot_id (slot_at t (hd c)) = k \<and> chain_val t c = v)"
    using key_slots_heads [OF ch] chain_of_chain chains_okD(1) [OF ch] by auto
  finally show ?thesis .
qed

lemma table_map_None:
  assumes "chains_ok t CH" "ids_ok t"
  shows "table_map t k = None \<longleftrightarrow> (\<forall>i\<in>key_slots t. slot_id (slot_at t i) \<noteq> k)"
proof -
  have "table_map t k = None \<longleftrightarrow> (\<forall>v. table_map t k \<noteq> Some v)"
    by (cases "table_map t k") auto
  then show ?thesis
    using table_map_Some [OF assms] key_slots_heads [OF assms(1)] by auto
qed


subsection \<open>The reading routines over the invariant\<close>

lemma list_loop_find:
  "list_loop (\<lambda>i (u::unit). if P i then Inl i else Inr u) is u =
   (case find P is of Some i \<Rightarrow> Inl i | None \<Rightarrow> Inr u)"
  by (induction "is") auto

lemma find_empty_eq:
  assumes "shape_ok t"
  defines "n \<equiv> length (slots t)"
  shows "find_empty t s = find (\<lambda>i. s_count (slot_at t i) = 0) (cyc_order n (if s \<ge> n then 0 else s))"
  using assms(1) shape_okD(1-5) [OF assms(1)]
  by (simp add: find_empty_def Let_def n_def cyc_loop_order list_loop_find split: option.split)

lemma find_empty_Some:
  assumes "shape_ok t" "find_empty t s = Some i"
  shows "i < length (slots t)" "s_count (slot_at t i) = 0"
proof -
  let ?n = "length (slots t)"
  have "set (cyc_order ?n (if s \<ge> ?n then 0 else s)) = {..<?n}"
    using shape_okD(5) [OF assms(1)] by simp
  with assms find_empty_eq [OF assms(1), of s] show "i < length (slots t)" "s_count (slot_at t i) = 0"
    by (auto simp: find_Some_iff dest: nth_mem)
qed

lemma find_empty_None:
  assumes "shape_ok t"
  shows "find_empty t s = None \<longleftrightarrow> occupied t = {..<length (slots t)}"
proof -
  let ?n = "length (slots t)"
  have set: "set (cyc_order ?n (if s \<ge> ?n then 0 else s)) = {..<?n}"
    using shape_okD(5) [OF assms] by simp
  have "find_empty t s = None \<longleftrightarrow> {..<?n} \<subseteq> occupied t"
    unfolding find_empty_eq [OF assms] find_None_iff set by (auto simp: occupied_iff)
  then show ?thesis using occupied_sub [of t] by blast
qed

lemma find_empty_exists:
  "shape_ok t \<Longrightarrow> i < length (slots t) \<Longrightarrow> s_count (slot_at t i) = 0 \<Longrightarrow> \<exists>j. find_empty t s = Some j"
  using find_empty_None [of t s] by (fastforce simp: occupied_iff)

text \<open>
  The lookup loop counts the keys of the bucket it has seen and stops when it has seen as
  many as the leading slot records: then no key of the bucket is left to see.
\<close>

lemma bucket_scan:
  fixes total :: int
  assumes "count + int (length (filter B is)) = total"
  shows "(case list_loop (\<lambda>i c. if \<not> c < total then Inl None
                    else if B i then (if M i then Inl (Some i) else Inr (c + 1)) else Inr c) is count of
            Inl r \<Rightarrow> r | Inr _ \<Rightarrow> None) = find (\<lambda>i. B i \<and> M i) is"
  using assms
proof (induction "is" arbitrary: count)
  case (Cons i "is")
  show ?case
  proof (cases "count < total")
    case True
    with Cons show ?thesis by auto
  next
    case False
    with Cons.prems have "int (length (filter B (i # is))) \<le> 0" by linarith
    then have "filter B (i # is) = []" by (simp del: filter.simps)
    then have "\<forall>j\<in>set (i # is). \<not> B j" by (simp only: filter_empty_conv)
    then have "find (\<lambda>i. B i \<and> M i) (i # is) = None" by (auto simp: find_None_iff)
    with False show ?thesis by simp
  qed
qed simp

lemma get_idx_find:
  assumes "shape_ok t" "buckets_ok t" "h < length (slots t)" "s_count (slot_at t h) > 0"
  shows "get_idx t key h =
    find (\<lambda>i. i \<in> in_bucket t h \<and> key_matches key (slot_at t i)) (cyc_order (length (slots t)) h)"
proof -
  let ?n = "length (slots t)" and ?B = "\<lambda>i. s_hash (slot_at t i) = h \<and> is_key_slot (slot_at t i)"
  have B: "?B i \<longleftrightarrow> i \<in> in_bucket t h" for i
    by (auto simp: in_bucket_def key_slots_iff)
  have "set (filter ?B (cyc_order ?n h)) = in_bucket t h"
    using assms(3) by (auto simp: B in_bucket_def dest: key_slots_range)
  then have "length (filter ?B (cyc_order ?n h)) = card (in_bucket t h)"
    by (metis distinct_card distinct_cyc_order distinct_filter)
  then have total: "0 + int (length (filter ?B (cyc_order ?n h))) = s_count (slot_at t h)"
    using assms(2,4) by (simp add: buckets_ok_def)
  show ?thesis
    using bucket_scan [OF total, of "\<lambda>i. key_matches key (slot_at t i)"] assms(3,4)
    by (simp add: get_idx_def shape_okD(4) [OF assms(1)] cyc_loop_order B conj_assoc)
qed

lemma get_idx_Some:
  assumes "shape_ok t" "buckets_ok t" "h < length (slots t)" "get_idx t key h = Some i"
  shows "i \<in> in_bucket t h" "key_matches key (slot_at t i)" "s_count (slot_at t h) > 0"
proof -
  show h: "s_count (slot_at t h) > 0"
    using assms(4) by (simp add: get_idx_def split: if_splits)
  show "i \<in> in_bucket t h" "key_matches key (slot_at t i)"
    using assms(4) unfolding get_idx_find [OF assms(1-3) h] by (auto simp: find_Some_iff)
qed

lemma get_idx_None:
  assumes "shape_ok t" "buckets_ok t" "h < length (slots t)"
  shows "get_idx t key h = None \<longleftrightarrow> (\<forall>i\<in>in_bucket t h. \<not> key_matches key (slot_at t i))"
proof (cases "s_count (slot_at t h) > 0")
  case True
  then show ?thesis
    using assms(3) by (auto simp: get_idx_find [OF assms True] find_None_iff in_bucket_def
        dest: key_slots_range)
next
  case False
  then have "in_bucket t h = {}"
    using assms(2) by (auto simp: buckets_ok_def in_bucket_def)
  with False show ?thesis by (simp add: get_idx_def)
qed

text \<open>A match is equality of identities, for keys whose length fits the field that stores it.\<close>

lemma key_matches_id:
  assumes "length (s_data s) = DATASIZE" "length key < 65536" "s_hash s = bucket t key"
  shows "key_matches key s \<longleftrightarrow> slot_id s = key_id t key"
proof -
  have "length (pair_key (s_data s)) = KEYSIZE"
    using assms(1) by (simp add: pair_key_def)
  with assms(3) show ?thesis
    by (auto simp: key_matches_def slot_id_def key_id_def Let_def)
qed

lemma get_idx_id:
  assumes "table_ok t" "length key < 65536"
  shows "get_idx t key (bucket t key) = Some i \<longleftrightarrow>
    i \<in> key_slots t \<and> slot_id (slot_at t i) = key_id t key"
    (is "?l = ?r")
proof -
  have sh: "shape_ok t" and bk: "buckets_ok t" and ids: "ids_ok t"
    using assms(1) by (auto simp: table_ok_def)
  note b = bucket_less [OF sh, of key]
  note match = key_matches_id [OF shape_okD(6) [OF sh] assms(2)]
  have hash: "slot_id (slot_at t j) = key_id t key \<Longrightarrow> s_hash (slot_at t j) = bucket t key" for j
    by (simp add: slot_id_def key_id_def Let_def)
  show ?thesis
  proof
    assume ?l
    from get_idx_Some [OF sh bk b this] show ?r
      using match by (auto simp: in_bucket_def)
  next
    assume r: ?r
    with hash have "i \<in> in_bucket t (bucket t key)" "key_matches key (slot_at t i)"
      using match by (auto simp: in_bucket_def)
    then obtain j where j: "get_idx t key (bucket t key) = Some j"
      using get_idx_None [OF sh bk b] by (cases "get_idx t key (bucket t key)") auto
    from get_idx_Some [OF sh bk b j] have "j \<in> key_slots t" "slot_id (slot_at t j) = key_id t key"
      using match by (auto simp: in_bucket_def)
    with r ids have "i = j" by (auto simp: ids_ok_def inj_on_def)
    with j show ?l by simp
  qed
qed

lemma get_idx_table_map:
  assumes "table_ok t" "length key < 65536"
  shows "get_idx t key (bucket t key) = None \<longleftrightarrow> table_map t (key_id t key) = None"
proof -
  obtain CH where CH: "chains_ok t CH" and ids: "ids_ok t"
    using assms(1) by (auto simp: table_ok_def)
  show ?thesis
    using get_idx_id [OF assms] table_map_None [OF CH ids]
    by (metis not_None_eq)
qed

text \<open>Reading a value walks the chain of its key slot.\<close>

lemma get_data_size_chain:
  "linked t c \<Longrightarrow> int (lc + length c) \<le> maxslots t + 1 \<Longrightarrow>
   get_data_size t (hd c) vs lc = Some (vs + sum_list (map (\<lambda>i. s_size (slot_at t i)) c))"
proof (induction c arbitrary: vs lc)
  case (Cons x c)
  show ?case
  proof (cases c)
    case Nil
    with Cons.prems show ?thesis by (subst get_data_size.simps) simp
  next
    case (Cons y d)
    with Cons.prems have "linked t c" "s_link (slot_at t x) = int y" by auto
    with Cons.prems Cons.IH [of "Suc lc"] Cons show ?thesis
      by (subst get_data_size.simps) (simp add: Let_def add.assoc)
  qed
qed simp

lemma concat_slot_bytes_empty:
  "sum_list (map (\<lambda>i. s_size (slot_at t i)) c) = 0 \<Longrightarrow> chain_val t c = []"
  by (induction c) (auto simp: chain_val_def slot_bytes_def)

lemma get_data_copy_chain:
  assumes "linked t c" "int (lc + length c) \<le> maxslots t + 1"
    "\<forall>i\<in>set c. s_size (slot_at t i) \<le> length (s_data (slot_at t i))"
    "length val = valsize" "vp + sum_list (map (\<lambda>i. s_size (slot_at t i)) c) = valsize"
  shows "get_data_copy t valsize (hd c) val vp lc = Some (blit vp (chain_val t c) val)"
  using assms
proof (induction c arbitrary: vp lc val)
  case (Cons x c)
  let ?s = "slot_at t x"
  have read: "mem_read 0 (s_size ?s) (s_data ?s) = slot_bytes t x"
    by (simp add: mem_read_def slot_bytes_def)
  have len: "length (slot_bytes t x) = s_size ?s"
    using Cons.prems(3) by (simp add: slot_bytes_def)
  show ?case
  proof (cases "vp < valsize")
    case False
    with Cons.prems(5) have "sum_list (map (\<lambda>i. s_size (slot_at t i)) (x # c)) = 0" by linarith
    then have "chain_val t (x # c) = []" by (rule concat_slot_bytes_empty)
    with False show ?thesis by (subst get_data_copy.simps) simp
  next
    case True
    show ?thesis
    proof (cases c)
      case Nil
      with Cons.prems True read show ?thesis
        by (subst get_data_copy.simps) (simp add: Let_def chain_val_def)
    next
      case (Cons y d)
      with Cons.prems have lk: "linked t c" "s_link ?s = int y" by auto
      let ?val = "blit vp (slot_bytes t x) val"
      have "get_data_copy t valsize (hd c) ?val (vp + s_size ?s) (Suc lc) =
          Some (blit (vp + s_size ?s) (chain_val t c) ?val)"
        using Cons.prems lk len by (intro Cons.IH) auto
      moreover have "blit (vp + s_size ?s) (chain_val t c) ?val = blit vp (chain_val t (x # c)) val"
      proof -
        have "length (chain_val t c) = sum_list (map (\<lambda>i. s_size (slot_at t i)) c)"
          using Cons.prems(3) by (simp add: chain_val_def length_concat o_def slot_bytes_def
              min_absorb2 cong: map_cong)
        then show ?thesis
          using Cons.prems(4,5) blit_append [of vp "slot_bytes t x" "chain_val t c" val]
          by (simp add: len chain_val_def)
      qed
      ultimately show ?thesis using Cons.prems True read lk Cons
        by (subst get_data_copy.simps) (simp add: Let_def)
    qed
  qed
qed simp

lemma length_chain_val:
  "\<forall>i\<in>set c. s_size (slot_at t i) \<le> length (s_data (slot_at t i)) \<Longrightarrow>
   length (chain_val t c) = sum_list (map (\<lambda>i. s_size (slot_at t i)) c)"
  by (simp add: chain_val_def length_concat o_def slot_bytes_def min_absorb2 cong: map_cong)

lemma get_data_chain:
  assumes "shape_ok t" "is_chain t c"
  shows "get_data alloc t (Some (hd c)) =
    (if alloc (length (chain_val t c)) then (Some (chain_val t c), t)
     else (None, t\<lparr>errno := ENOMEM\<rparr>))"
proof -
  let ?vs = "sum_list (map (\<lambda>i. s_size (slot_at t i)) c)"
  have lk: "linked t c" using assms(2) by (rule is_chainD)
  have len: "int (0 + length c) \<le> maxslots t + 1"
    using chain_length [OF assms(2)] shape_okD(3) [OF assms(1)] by simp
  have sz: "\<forall>i\<in>set c. s_size (slot_at t i) \<le> length (s_data (slot_at t i))"
    using shape_okD(6,8) [OF assms(1)] is_chain_occupied [OF assms(2)] by simp
  have vs: "length (chain_val t c) = ?vs" by (rule length_chain_val [OF sz])
  have "get_data_copy t ?vs (hd c) (replicate ?vs 0) 0 0 =
      Some (blit 0 (chain_val t c) (replicate ?vs 0))"
    by (rule get_data_copy_chain [OF lk len sz]) simp_all
  also have "\<dots> = Some (chain_val t c)" by (simp add: blit_whole vs)
  finally show ?thesis
    using get_data_size_chain [OF lk len, of 0] by (simp add: get_data_def vs)
qed

end
