(* ===== verification/Hasharr_Upd.thy ===== *)
theory Hasharr_Upd
  imports Hasharr_Inv
begin

text \<open>
  What the three ways of changing the slot array do to the chains: freeing a chain
  (\<^verbatim>\<open>_remove_data\<close>), moving a slot to an empty one and repairing the links
  (\<^verbatim>\<open>_copy_slot\<close>, \<^verbatim>\<open>_remove_slot\<close> and the assignments after them), and building a
  chain (\<^verbatim>\<open>_put_data\<close>), with the exact number of slots a value needs.
\<close>

definition same_table :: "qenv \<Rightarrow> qenv \<Rightarrow> bool" where
  "same_table t t' \<longleftrightarrow> maxslots t' = maxslots t \<and> length (slots t') = length (slots t)"

lemma same_table_refl [simp]: "same_table t t"
  by (simp add: same_table_def)

lemma same_table_trans: "same_table t u \<Longrightarrow> same_table u v \<Longrightarrow> same_table t v"
  by (simp add: same_table_def)

lemma same_table_upd [simp]: "same_table t (upd_slot i f t)"
  by (simp add: same_table_def)

lemma same_table_remove_slot [simp]: "same_table t (snd (remove_slot t i))"
  by (simp add: same_table_def remove_slot_def Let_def)

lemma shape_ok_same:
  "shape_ok t \<Longrightarrow> same_table t t' \<Longrightarrow> (\<And>x. slot_shape (slot_at t' x)) \<Longrightarrow> shape_ok t'"
  by (auto simp: shape_ok_def same_table_def)

subsection \<open>Freeing a chain\<close>

definition freed :: "nat set \<Rightarrow> qenv \<Rightarrow> qenv \<Rightarrow> bool" where
  "freed S t t' \<longleftrightarrow> same_table t t' \<and>
     (\<forall>j. slot_at t' j = (if j \<in> S then (slot_at t j)\<lparr>s_count := 0\<rparr> else slot_at t j))"

lemma remove_slot_occupied:
  assumes "s_count (slot_at t i) \<noteq> 0"
  shows "freed {i} t (snd (remove_slot t i))" "usedslots (snd (remove_slot t i)) = usedslots t - 1"
    "num (snd (remove_slot t i)) = num t" "errno (snd (remove_slot t i)) = errno t"
  using assms in_range_if_occupied [OF assms]
  by (auto simp: freed_def remove_slot_def Let_def slot_simps same_table_def)

lemma freed_trans: "freed S t u \<Longrightarrow> freed T u v \<Longrightarrow> freed (S \<union> T) t v"
  by (auto simp: freed_def intro: same_table_trans)

lemma remove_data_loop_chain:
  "linked t c \<Longrightarrow> distinct c \<Longrightarrow> \<forall>i\<in>set c. s_count (slot_at t i) \<noteq> 0 \<Longrightarrow>
   int (lc + length c) \<le> maxslots t + 1 \<Longrightarrow>
   freed (set c) t (remove_data_loop t (hd c) lc) \<and>
   usedslots (remove_data_loop t (hd c) lc) = usedslots t - int (length c) \<and>
   num (remove_data_loop t (hd c) lc) = num t \<and> errno (remove_data_loop t (hd c) lc) = errno t"
proof (induction c arbitrary: t lc)
  case (Cons x c)
  let ?t = "snd (remove_slot t x)"
  have x: "s_count (slot_at t x) \<noteq> 0" using Cons.prems by simp
  note rs = remove_slot_occupied [OF x]
  show ?case
  proof (cases c)
    case Nil
    with Cons.prems rs show ?thesis by (subst (1 2 3 4) remove_data_loop.simps) (simp add: Let_def)
  next
    case (Cons y d)
    with Cons.prems have lk: "linked t c" "s_link (slot_at t x) = int y" by auto
    have "linked ?t c"
      using lk(1) rs(1) by (subst linked_cong) (auto simp: freed_def)
    moreover have "\<forall>i\<in>set c. s_count (slot_at ?t i) \<noteq> 0"
      using Cons.prems rs(1) by (auto simp: freed_def)
    ultimately have IH: "freed (set c) ?t (remove_data_loop ?t y (Suc lc)) \<and>
        usedslots (remove_data_loop ?t y (Suc lc)) = usedslots ?t - int (length c) \<and>
        num (remove_data_loop ?t y (Suc lc)) = num ?t \<and> errno (remove_data_loop ?t y (Suc lc)) = errno ?t"
      using Cons.prems Cons.IH [of ?t "Suc lc"] Cons by simp
    moreover have "remove_data_loop t x lc = remove_data_loop ?t y (Suc lc)"
      using lk Cons.prems Cons by (subst remove_data_loop.simps) (simp add: Let_def)
    ultimately show ?thesis
      using rs freed_trans [OF rs(1), of "set c"] by simp
  qed
qed simp

lemma freed_fields [simp]:
  "freed S t (t'\<lparr>num := n\<rparr>) = freed S t t'" "freed S t (t'\<lparr>errno := e\<rparr>) = freed S t t'"
  by (simp_all add: freed_def same_table_def)

lemma remove_data_chain:
  assumes "shape_ok t" "is_chain t c"
  shows "freed (set c) t (snd (remove_data t (hd c)))"
    "usedslots (snd (remove_data t (hd c))) = usedslots t - int (length c)"
    "num (snd (remove_data t (hd c))) = num t - 1"
    "errno (snd (remove_data t (hd c))) = errno t"
    "fst (remove_data t (hd c))"
proof -
  have "s_count (slot_at t (hd c)) \<noteq> 0"
    using assms(2) is_chain_occupied is_chainD(1) list.set_sel(1) by blast
  moreover have "int (0 + length c) \<le> maxslots t + 1"
    using chain_length [OF assms(2)] shape_okD(3) [OF assms(1)] by simp
  moreover have "\<forall>i\<in>set c. s_count (slot_at t i) \<noteq> 0"
    using is_chain_occupied [OF assms(2)] by blast
  ultimately show
    "freed (set c) t (snd (remove_data t (hd c)))"
    "usedslots (snd (remove_data t (hd c))) = usedslots t - int (length c)"
    "num (snd (remove_data t (hd c))) = num t - 1"
    "errno (snd (remove_data t (hd c))) = errno t"
    "fst (remove_data t (hd c))"
    using remove_data_loop_chain [OF is_chainD(2,3) [OF assms(2)], of 0]
    by (simp_all add: remove_data_def Let_def)
qed

lemma slot_shape_free: "slot_shape s \<Longrightarrow> slot_shape (s\<lparr>s_count := 0\<rparr>)"
  by (simp add: slot_shape_def)

lemma freed_shape: "shape_ok t \<Longrightarrow> freed S t t' \<Longrightarrow> shape_ok t'"
  by (auto simp: shape_ok_def freed_def same_table_def slot_shape_free)

lemma freed_chains:
  assumes "chains_ok t CH" "c \<in> CH" "freed (set c) t t'"
  shows "chains_ok t' (CH - {c})"
proof -
  have other: "slot_at t' i = slot_at t i" if "d \<in> CH - {c}" "i \<in> set d" for d i
    using that assms chains_okD(2) [OF assms(1), of d c i] by (auto simp: freed_def)
  have occ: "occupied t' = occupied t - set c"
    using assms(3) by (auto simp: occupied_def freed_def split: if_splits)
  show ?thesis
    unfolding chains_ok_def
  proof (intro conjI ballI impI)
    fix d assume d: "d \<in> CH - {c}"
    then show "is_chain t' d"
      using is_chain_cong [of d t' t] other chains_okD(1) [OF assms(1)] by blast
  next
    fix d e assume "d \<in> CH - {c}" "e \<in> CH - {c}" "d \<noteq> e"
    then show "set d \<inter> set e = {}" using assms(1) by (auto simp: chains_ok_def)
  next
    show "\<Union> (set ` (CH - {c})) = occupied t'"
      using assms(1,2) chains_okD(2) [OF assms(1) _ assms(2)]
      unfolding occ chains_ok_def by blast
  qed
qed

subsection \<open>Moving a slot\<close>

text \<open>
  Slot \<open>j\<close> has been moved to the empty slot \<open>i\<close>, with counter \<open>k\<close> there; its successor
  and, if it is an extension, its predecessor point to \<open>i\<close>.
\<close>

definition moved :: "nat \<Rightarrow> nat \<Rightarrow> int \<Rightarrow> qenv \<Rightarrow> qenv \<Rightarrow> bool" where
  "moved i j k t t' \<longleftrightarrow> same_table t t' \<and>
     (\<forall>x. s_count (slot_at t' x) = (if x = i then k else if x = j then 0 else s_count (slot_at t x)) \<and>
          s_data (slot_at t' x) = s_data (slot_at t (if x = i then j else x)) \<and>
          s_size (slot_at t' x) = s_size (slot_at t (if x = i then j else x)) \<and>
          (x \<noteq> j \<longrightarrow>
            s_hash (slot_at t' x) =
              (if s_link (slot_at t j) \<noteq> -1 \<and> x = nat (s_link (slot_at t j)) then i
               else s_hash (slot_at t (if x = i then j else x))) \<and>
            s_link (slot_at t' x) =
              (if s_count (slot_at t j) = -2 \<and> x = s_hash (slot_at t j) then int i
               else s_link (slot_at t (if x = i then j else x)))))"

definition rename :: "nat \<Rightarrow> nat \<Rightarrow> nat \<Rightarrow> nat" where
  "rename i j x = (if x = j then i else x)"

lemma movedD:
  assumes "moved i j k t t'"
  shows "same_table t t'"
    "s_count (slot_at t' x) = (if x = i then k else if x = j then 0 else s_count (slot_at t x))"
    "s_data (slot_at t' x) = s_data (slot_at t (if x = i then j else x))"
    "s_size (slot_at t' x) = s_size (slot_at t (if x = i then j else x))"
    "x \<noteq> j \<Longrightarrow> s_link (slot_at t' x) =
       (if s_count (slot_at t j) = -2 \<and> x = s_hash (slot_at t j) then int i
        else s_link (slot_at t (if x = i then j else x)))"
    "x \<noteq> j \<Longrightarrow> s_hash (slot_at t' x) =
       (if s_link (slot_at t j) \<noteq> -1 \<and> x = nat (s_link (slot_at t j)) then i
        else s_hash (slot_at t (if x = i then j else x)))"
proof -
  note all = assms [unfolded moved_def]
  note at = spec [OF conjunct2 [OF all], of x]
  note rest = mp [OF conjunct2 [OF conjunct2 [OF conjunct2 [OF at]]]]
  show "same_table t t'" by (rule conjunct1 [OF all])
  show "s_count (slot_at t' x) = (if x = i then k else if x = j then 0 else s_count (slot_at t x))"
    by (rule conjunct1 [OF at])
  show "s_data (slot_at t' x) = s_data (slot_at t (if x = i then j else x))"
    by (rule conjunct1 [OF conjunct2 [OF at]])
  show "s_size (slot_at t' x) = s_size (slot_at t (if x = i then j else x))"
    by (rule conjunct1 [OF conjunct2 [OF conjunct2 [OF at]]])
  show "x \<noteq> j \<Longrightarrow> s_link (slot_at t' x) =
       (if s_count (slot_at t j) = -2 \<and> x = s_hash (slot_at t j) then int i
        else s_link (slot_at t (if x = i then j else x)))"
    by (rule conjunct2 [OF rest])
  show "x \<noteq> j \<Longrightarrow> s_hash (slot_at t' x) =
       (if s_link (slot_at t j) \<noteq> -1 \<and> x = nat (s_link (slot_at t j)) then i
        else s_hash (slot_at t (if x = i then j else x)))"
    by (rule conjunct1 [OF rest])
qed

lemma chain_links:
  assumes "chains_ok t CH" "c \<in> CH"
  shows "s_link (slot_at t (last c)) = -1"
    "(x, y) \<in> pairs c \<Longrightarrow> s_link (slot_at t x) = int y"
    "(x, y) \<in> pairs c \<Longrightarrow> s_hash (slot_at t y) = x"
  using is_chainD(2) [OF chains_okD(1) [OF assms]] by (auto simp: linked_def)

lemma chain_succ:
  assumes "chains_ok t CH" "c \<in> CH" "j \<in> set c" "s_link (slot_at t j) \<noteq> -1"
  shows "\<exists>y. s_link (slot_at t j) = int y \<and> (j, y) \<in> pairs c"
proof -
  have "j \<noteq> last c" using assms(4) chain_links(1) [OF assms(1,2)] by auto
  then obtain y where y: "(j, y) \<in> pairs c" using pairs_succ [OF assms(3)] by blast
  from chain_links(2) [OF assms(1,2) this] y show ?thesis by blast
qed

lemma chain_pred:
  assumes "chains_ok t CH" "c \<in> CH" "j \<in> set c" "s_count (slot_at t j) = -2"
  shows "(s_hash (slot_at t j), j) \<in> pairs c \<and> s_link (slot_at t (s_hash (slot_at t j))) = int j"
proof -
  have ch: "is_chain t c" using assms(1,2) by (rule chains_okD)
  have "j \<noteq> hd c" using assms(4) is_chainD(4) [OF ch] by (auto dest: is_key_slot_count)
  with assms(3) have "j \<in> set (tl c)" by (cases c) auto
  then obtain x where x: "(x, j) \<in> pairs c" by (auto dest: pairs_pred)
  from chain_links(2,3) [OF assms(1,2) x] x show ?thesis by simp
qed

lemmas chain_neighbours = chain_succ chain_pred

lemma moved_chains:
  assumes ch: "chains_ok t CH" and mv: "moved i j k t t'"
    and i: "s_count (slot_at t i) = 0" and j: "s_count (slot_at t j) \<noteq> 0"
    and k: "k \<noteq> 0" "k = -2 \<longleftrightarrow> s_count (slot_at t j) = -2"
      "is_key_slot (slot_at t j) \<longrightarrow> k > 0 \<or> k = -1"
  shows "chains_ok t' (map (rename i j) ` CH)"
proof -
  let ?f = "rename i j"
  obtain c0 where c0: "c0 \<in> CH" "j \<in> set c0" using chains_okD(3) [OF ch j] by blast
  note nb = chain_neighbours [OF ch c0]
  have ij: "i \<noteq> j" using i j by auto
  have notin: "i \<notin> set c" if "c \<in> CH" for c using chains_okD(4) [OF ch that] i by blast
  have pr: "s_link (slot_at t x) = int y \<and> s_hash (slot_at t y) = x" if "c \<in> CH" "(x, y) \<in> pairs c" for c x y
    using chains_okD(1) [OF ch that(1)] that(2) unfolding is_chain_def linked_def by blast
  have hash0: "s_hash (slot_at t j) \<noteq> i" if "s_count (slot_at t j) = -2"
    using pairs_mem [OF conjunct1 [OF nb(2) [OF that]]] notin [OF c0(1)] by auto
  have link0: "nat (s_link (slot_at t j)) \<noteq> i" if l: "s_link (slot_at t j) \<noteq> -1"
  proof -
    obtain y where "s_link (slot_at t j) = int y" "(j, y) \<in> pairs c0" using nb(1) [OF l] by blast
    moreover from this have "y \<in> set c0" using pairs_mem [of j y c0] by (cases c0) auto
    ultimately show ?thesis using notin [OF c0(1)] by auto
  qed
  note md = movedD [OF mv]
  have count: "s_count (slot_at t' (?f x)) = (if x = j then k else s_count (slot_at t x))" if "x \<noteq> i" for x
    using md(2) [of "?f x"] ij that by (auto simp: rename_def)
  have link_i: "s_link (slot_at t' i) = s_link (slot_at t j)"
    using md(5) [of i] ij hash0 by auto
  have hash_i: "s_hash (slot_at t' i) = s_hash (slot_at t j)"
    using md(6) [of i] ij link0 by auto
  have chain: "is_chain t' (map ?f c)" if c: "c \<in> CH" for c
  proof -
    have cc: "is_chain t c" by (rule chains_okD(1) [OF ch c])
    then have ne: "c \<noteq> []" and dist: "distinct c" and last: "s_link (slot_at t (last c)) = -1"
      by (auto simp: is_chain_def linked_def)
    have xi: "x \<noteq> i" if "x \<in> set c" for x using notin [OF c] that by blast
    have link: "s_link (slot_at t' (?f x)) = int (?f y)" if xy: "(x, y) \<in> pairs c" for x y
    proof -
      have x: "x \<in> set c" and y: "y \<in> set (tl c)" and "x \<noteq> y"
        using pairs_mem [OF xy] pairs_distinct [OF dist xy] by auto
      show ?thesis
      proof (cases "y = j")
        case True
        with is_chainD(5) [OF cc y] have "s_count (slot_at t j) = -2" by simp
        then show ?thesis using True \<open>x \<noteq> y\<close> pr [OF c xy] md(5) [of x] xi [OF x]
          by (simp add: rename_def)
      next
        case False
        show ?thesis
        proof (cases "x = j")
          case True
          then show ?thesis using False link_i pr [OF c xy] by (simp add: rename_def)
        next
          case nx: False
          have "\<not> (s_count (slot_at t j) = -2 \<and> x = s_hash (slot_at t j))"
            using nb(2) pr [OF c xy] False by auto
          then show ?thesis using False nx md(5) [of x] xi [OF x] pr [OF c xy]
            by (auto simp: rename_def)
        qed
      qed
    qed
    have hash: "s_hash (slot_at t' (?f y)) = ?f x" if xy: "(x, y) \<in> pairs c" for x y
    proof -
      have x: "x \<in> set c" and y: "y \<in> set (tl c)" and "x \<noteq> y"
        using pairs_mem [OF xy] pairs_distinct [OF dist xy] by auto
      then have yi: "y \<noteq> i" using xi [of y] by (cases c) auto
      show ?thesis
      proof (cases "x = j")
        case True
        then show ?thesis using \<open>x \<noteq> y\<close> pr [OF c xy] md(6) [of y] yi by (simp add: rename_def)
      next
        case nx: False
        show ?thesis
        proof (cases "y = j")
          case True
          then show ?thesis using nx hash_i pr [OF c xy] by (simp add: rename_def)
        next
          case False
          have "\<not> (s_link (slot_at t j) \<noteq> -1 \<and> y = nat (s_link (slot_at t j)))"
            using nb(1) pr [OF c0(1), of j y] pr [OF c xy] nx by auto
          then show ?thesis using False nx md(6) [of y] yi pr [OF c xy]
            by (auto simp: rename_def)
        qed
      qed
    qed
    have "s_link (slot_at t' (?f (last c))) = -1"
    proof (cases "last c = j")
      case True
      then show ?thesis using link_i last by (simp add: rename_def)
    next
      case False
      have "\<not> (s_count (slot_at t j) = -2 \<and> last c = s_hash (slot_at t j))"
        using nb(2) last by auto
      then show ?thesis using False md(5) [of "last c"] last xi [of "last c"] ne
        by (simp add: rename_def)
    qed
    then have "linked t' (map ?f c)"
      using ne link hash by (auto simp: linked_def last_map pairs_map)
    moreover have "inj_on ?f (set c)"
      using xi by (auto simp: inj_on_def rename_def)
    moreover have "is_key_slot (slot_at t' (?f (hd c)))"
      using count [of "hd c"] xi [of "hd c"] ne is_chainD(4) [OF cc] k
      by (auto simp: is_key_slot_def split: if_splits)
    moreover have "\<forall>x\<in>set (tl c). s_count (slot_at t' (?f x)) = -2"
    proof
      fix x assume x: "x \<in> set (tl c)"
      with xi [of x] ne have "x \<noteq> i" by (cases c) auto
      with x show "s_count (slot_at t' (?f x)) = -2"
        using count [of x] is_chainD(5) [OF cc x] k(2) by auto
    qed
    ultimately show ?thesis
      using ne dist by (auto simp: is_chain_def distinct_map hd_map map_tl [symmetric])
  qed
  show ?thesis
    unfolding chains_ok_def
  proof (intro conjI ballI impI)
    fix c assume "c \<in> map ?f ` CH"
    then show "is_chain t' c" using chain by auto
  next
    fix c d assume "c \<in> map ?f ` CH" "d \<in> map ?f ` CH" "c \<noteq> d"
    then obtain a b where ab: "a \<in> CH" "b \<in> CH" "c = map ?f a" "d = map ?f b" "a \<noteq> b" by auto
    then have "set a \<inter> set b = {}" using ch by (simp add: chains_ok_def)
    then show "set c \<inter> set d = {}"
      using notin [OF ab(1)] notin [OF ab(2)] unfolding ab(3,4) by (auto simp: rename_def split: if_splits)
  next
    have "occupied t' = ?f ` occupied t"
    proof -
      have "x \<in> occupied t' \<longleftrightarrow> x \<in> ?f ` occupied t" for x
        using md(2) [of x] ij i j k(1) by (auto simp: occupied_iff rename_def image_iff)
      then show ?thesis by blast
    qed
    also have "\<dots> = \<Union> (set ` map ?f ` CH)"
    proof -
      have occ: "occupied t = \<Union> (set ` CH)" using ch by (simp add: chains_ok_def)
      show ?thesis unfolding occ by (simp add: image_UN image_image)
    qed
    finally show "\<Union> (set ` map ?f ` CH) = occupied t'" by simp
  qed
qed

text \<open>Values and identities move along.\<close>

lemma moved_val:
  assumes "chains_ok t CH" "moved i j k t t'" "s_count (slot_at t i) = 0" "s_count (slot_at t j) \<noteq> 0"
    "c \<in> CH"
  shows "chain_val t' (map (rename i j) c) = chain_val t c"
proof -
  have ij: "i \<noteq> j" using assms(3,4) by auto
  have "slot_bytes t' (rename i j x) = slot_bytes t x" if "x \<in> set c" for x
  proof -
    have "x \<noteq> i" using chains_okD(4) [OF assms(1,5) that] assms(3) by auto
    then show ?thesis
      using movedD(3,4) [OF assms(2), of "rename i j x"] ij by (auto simp: slot_bytes_def rename_def)
  qed
  then show ?thesis by (simp add: chain_val_def o_def cong: map_cong)
qed

lemma moved_id:
  assumes ch: "chains_ok t CH" and mv: "moved i j k t t'" and i: "s_count (slot_at t i) = 0"
    and j: "s_count (slot_at t j) \<noteq> 0" and x: "is_key_slot (slot_at t x)"
  shows "slot_id (slot_at t' (rename i j x)) = slot_id (slot_at t x)"
    "s_hash (slot_at t' (rename i j x)) = s_hash (slot_at t x)"
proof -
  have ij: "i \<noteq> j" using i j by auto
  have xi: "x \<noteq> i" using x i by (auto dest: is_key_slot_count)
  obtain c where c: "c \<in> CH" "j \<in> set c" using chains_okD(3) [OF ch j] by blast
  have succ: "nat (s_link (slot_at t j)) \<noteq> x \<and> nat (s_link (slot_at t j)) \<noteq> i"
    if l: "s_link (slot_at t j) \<noteq> -1"
  proof -
    obtain y where y: "s_link (slot_at t j) = int y" "(j, y) \<in> pairs c"
      using chain_neighbours(1) [OF ch c l] by blast
    then have "s_count (slot_at t y) = -2"
      using pairs_mem [OF y(2)] is_chainD(5) [OF chains_okD(1) [OF ch c(1)]] by blast
    with y(1) x i show ?thesis by (auto dest: is_key_slot_count)
  qed
  show hash: "s_hash (slot_at t' (rename i j x)) = s_hash (slot_at t x)"
    using movedD(6) [OF mv, of "rename i j x"] succ xi ij by (auto simp: rename_def)
  show "slot_id (slot_at t' (rename i j x)) = slot_id (slot_at t x)"
    using movedD(3,4) [OF mv, of "rename i j x"] hash xi ij
    by (auto simp: slot_id_def rename_def Let_def)
qed

subsection \<open>Building a chain\<close>

text \<open>
  The state between two chunks of \<^verbatim>\<open>_put_data\<close>: the slots of the chain \<open>c\<close> were empty
  in \<open>t0\<close> and hold the first \<open>save\<close> bytes of the value; no other slot has changed.
\<close>

definition built :: "qenv \<Rightarrow> nat list \<Rightarrow> bytes \<Rightarrow> qenv \<Rightarrow> bool" where
  "built t0 c v t \<longleftrightarrow> shape_ok t \<and> same_table t0 t \<and> is_chain t c \<and> chain_val t c = v \<and>
     (\<forall>x. x \<notin> set c \<longrightarrow> slot_at t x = slot_at t0 x) \<and> (\<forall>x\<in>set c. s_count (slot_at t0 x) = 0) \<and>
     usedslots t = usedslots t0 + int (length c) \<and> num t = num t0 + 1 \<and> errno t = errno t0"

lemma builtD:
  assumes "built t0 c v t"
  shows "shape_ok t" "same_table t0 t" "is_chain t c" "chain_val t c = v"
    "x \<notin> set c \<Longrightarrow> slot_at t x = slot_at t0 x" "x \<in> set c \<Longrightarrow> s_count (slot_at t0 x) = 0"
    "usedslots t = usedslots t0 + int (length c)" "num t = num t0 + 1" "errno t = errno t0"
  using assms by (auto simp: built_def)

text \<open>The number of empty slots.\<close>

definition free_slots :: "qenv \<Rightarrow> nat" where
  "free_slots t = length (slots t) - card (occupied t)"

lemma ext_slots_0 [simp]: "ext_slots 0 = 0"
  by (simp add: ext_slots_def)

lemma ext_slots_step: "0 < n \<Longrightarrow> ext_slots n = Suc (ext_slots (n - min DATASIZE n))"
  by (simp add: ext_slots_def min_def) linarith

lemma occupied_built:
  assumes "built t0 c v t"
  shows "occupied t = occupied t0 \<union> set c" "occupied t0 \<inter> set c = {}"
  using builtD(5,6) [OF assms] is_chain_occupied [OF builtD(3) [OF assms]]
  by (auto simp: occupied_iff) metis+

lemma free_built:
  assumes "built t0 c v t"
  shows "free_slots t = free_slots t0 - length c"
proof -
  have "card (occupied t) = card (occupied t0) + length c"
    using occupied_built [OF assms] is_chainD(3) [OF builtD(3) [OF assms]]
    by (simp add: card_Un_disjoint distinct_card)
  then show ?thesis using builtD(2) [OF assms] by (simp add: free_slots_def same_table_def)
qed

lemma free_slots_0:
  assumes "shape_ok t"
  shows "free_slots t = 0 \<longleftrightarrow> find_empty t s = None"
proof -
  have "free_slots t = 0 \<longleftrightarrow> card (occupied t) \<ge> card {..<length (slots t)}"
    by (auto simp: free_slots_def)
  also have "\<dots> \<longleftrightarrow> occupied t = {..<length (slots t)}"
    by (metis card_seteq finite_lessThan occupied_sub order_refl)
  finally show ?thesis using find_empty_None [OF assms] by simp
qed

lemma freed_built:
  assumes "built t0 c v t" "freed (set c) t t'"
  shows "occupied t' = occupied t0" "x \<notin> set c \<Longrightarrow> slot_at t' x = slot_at t0 x"
  using assms(2) builtD(5,6) [OF assms(1)]
  by (auto simp: freed_def occupied_def split: if_splits)

text \<open>One more extension slot.\<close>

lemma fields_link_ext [simp]:
  "usedslots (link_ext p e t) = usedslots t" "num (link_ext p e t) = num t"
  "errno (link_ext p e t) = errno t" "same_table t (link_ext p e t)"
  by (simp_all add: link_ext_def same_table_def)

lemma fields_store_chunk:
  "usedslots (store_chunk i v save t) = usedslots t + 1"
  "num (store_chunk i v save t) = (if s_count (slot_at t i) = -2 then num t else num t + 1)"
  "errno (store_chunk i v save t) = errno t" "same_table t (store_chunk i v save t)"
  by (auto simp: store_chunk_def Let_def same_table_def)

lemma built_extend:
  assumes b: "built t0 c v t" and e: "s_count (slot_at t e) = 0" "e < length (slots t)"
    and chunk: "chunk = mem_read save (chunk_size (link_ext (last c) e t) e val save) val"
    and save: "save < length val"
  shows "built t0 (c @ [e]) (v @ chunk) (store_chunk e val save (link_ext (last c) e t))"
    and "chunk_size (link_ext (last c) e t) e val save = min DATASIZE (length val - save)"
    and "x \<in> set c \<Longrightarrow> s_count (slot_at (store_chunk e val save (link_ext (last c) e t)) x) = s_count (slot_at t x) \<and>
      s_hash (slot_at (store_chunk e val save (link_ext (last c) e t)) x) = s_hash (slot_at t x) \<and>
      s_data (slot_at (store_chunk e val save (link_ext (last c) e t)) x) = s_data (slot_at t x)"
proof -
  have ch: "is_chain t c" by (rule builtD [OF b])
  have ne: "c \<noteq> []" by (rule is_chainD [OF ch])
  have notin: "e \<notin> set c" using is_chain_occupied [OF ch] e(1) by blast
  with ne have le: "last c \<noteq> e" by auto
  have lrange: "last c < length (slots t)"
    using chain_in_range [OF ch] ne by (meson last_in_set lessThan_iff subsetD)
  let ?t1 = "link_ext (last c) e t"
  have t1: "slot_at ?t1 x =
      (if x = last c then (slot_at t x)\<lparr>s_link := int e\<rparr>
       else if x = e then zero_slot\<lparr>s_count := -2, s_hash := last c, s_link := -1, s_size := 0\<rparr>
       else slot_at t x)" for x
    using le e lrange by (auto simp: link_ext_def slot_simps)
  have len1: "length (slots ?t1) = length (slots t)" by (simp add: link_ext_def)
  show size: "chunk_size ?t1 e val save = min DATASIZE (length val - save)"
    using le by (auto simp: chunk_size_def t1 Let_def)
  let ?cs = "min DATASIZE (length val - save)"
  have chunk': "chunk = mem_read save ?cs val" and len: "length chunk = ?cs"
    using chunk size save by auto
  let ?t2 = "store_chunk e val save ?t1"
  have t2: "slot_at ?t2 x =
      (if x = last c then (slot_at t x)\<lparr>s_link := int e\<rparr>
       else if x = e then \<lparr>s_count = -2, s_hash = last c, s_size = ?cs, s_link = -1,
                           s_data = blit 0 chunk (replicate DATASIZE 0)\<rparr>
       else slot_at t x)" for x
    using le e lrange
    by (auto simp: store_chunk_def size chunk' [symmetric] Let_def slot_simps t1 zero_slot_def len1)
  show "x \<in> set c \<Longrightarrow> s_count (slot_at ?t2 x) = s_count (slot_at t x) \<and>
      s_hash (slot_at ?t2 x) = s_hash (slot_at t x) \<and> s_data (slot_at ?t2 x) = s_data (slot_at t x)"
    using notin by (auto simp: t2)
  have "s_count (slot_at ?t1 e) = -2" using le by (simp add: t1)
  then have fields: "same_table t ?t2" "usedslots ?t2 = usedslots t + 1" "num ?t2 = num t" "errno ?t2 = errno t"
    by (auto simp: fields_store_chunk intro: same_table_trans [OF fields_link_ext(4) fields_store_chunk(4)])
  have "shape_ok ?t2"
  proof -
    have "slot_shape (slot_at ?t2 x)" for x
    proof (cases "x = last c \<or> x = e")
      case True
      then show ?thesis
        using shape_slot [OF builtD(1) [OF b], of "last c"] le len by (auto simp: t2 slot_shape_def)
    next
      case False
      then show ?thesis using shape_slot [OF builtD(1) [OF b], of x] by (simp add: t2)
    qed
    then show ?thesis by (rule shape_ok_same [OF builtD(1) [OF b] fields(1)])
  qed
  moreover have "is_chain ?t2 (c @ [e])"
  proof -
    have "linked ?t2 (c @ [e])"
      unfolding linked_def
    proof (intro conjI ballI; (clarify)?)
      show "s_link (slot_at ?t2 (last (c @ [e]))) = -1" using le by (simp add: t2)
      fix x y assume "(x, y) \<in> pairs (c @ [e])"
      then consider "x = last c" "y = e" | "(x, y) \<in> pairs c" using ne by (auto simp: pairs_snoc)
      then show "s_link (slot_at ?t2 x) = int y \<and> s_hash (slot_at ?t2 y) = x"
      proof cases
        case 1
        then show ?thesis using le by (simp add: t2)
      next
        case 2
        then have "s_link (slot_at t x) = int y" "s_hash (slot_at t y) = x" "x \<in> set c" "y \<in> set c"
          using is_chainD(2) [OF ch] pairs_mem [OF 2] ne by (auto simp: linked_def list.set_sel)
        moreover from this have "x \<noteq> last c" using is_chainD(2) [OF ch] by (auto simp: linked_def)
        ultimately show ?thesis using notin by (auto simp: t2)
      qed
    qed
    moreover have "s_count (slot_at ?t2 x) = s_count (slot_at t x)" if "x \<in> set c" for x
      using that notin by (auto simp: t2)
    ultimately show ?thesis
      using ch ne notin le by (auto simp: is_chain_def t2 is_key_slot_def list.set_sel)
  qed
  moreover have "chain_val ?t2 (c @ [e]) = v @ chunk"
  proof -
    have "chain_val ?t2 c = chain_val t c"
      unfolding chain_val_def using notin by (intro arg_cong [where f = concat]) (auto simp: slot_bytes_def t2)
    moreover have "slot_bytes ?t2 e = chunk"
      using le len by (simp add: slot_bytes_def t2 take_blit_0)
    ultimately show ?thesis using builtD(4) [OF b] by (simp add: chain_val_def del: map_eq_conv)
  qed
  moreover have "x \<notin> set (c @ [e]) \<longrightarrow> slot_at ?t2 x = slot_at t0 x" for x
    using builtD(5) [OF b, of x] ne by (auto simp: t2)
  moreover have "\<forall>x\<in>set (c @ [e]). s_count (slot_at t0 x) = 0"
    using builtD(5,6) [OF b] e(1) notin by auto
  ultimately show "built t0 (c @ [e]) (v @ chunk) ?t2"
    using builtD(2,7-9) [OF b] fields by (simp add: built_def same_table_def)
qed

text \<open>Nothing but empty slots has changed.\<close>

definition restored :: "qenv \<Rightarrow> qenv \<Rightarrow> bool" where
  "restored t0 t \<longleftrightarrow> shape_ok t \<and> same_table t0 t \<and> occupied t = occupied t0 \<and>
     (\<forall>x\<in>occupied t0. slot_at t x = slot_at t0 x) \<and> usedslots t = usedslots t0 \<and> num t = num t0"

lemma shape_ok_fields [simp]:
  "shape_ok (t\<lparr>errno := e\<rparr>) = shape_ok t" "shape_ok (t\<lparr>usedslots := u\<rparr>) = shape_ok t"
  "shape_ok (t\<lparr>num := n\<rparr>) = shape_ok t"
  by (simp_all add: shape_ok_def)

lemma same_table_fields [simp]: "same_table t (u\<lparr>errno := e\<rparr>) = same_table t u"
  by (simp add: same_table_def)

lemma built_undo:
  assumes "built t0 c v t"
  shows "restored t0 ((snd (remove_data t (hd c)))\<lparr>errno := e\<rparr>)"
proof -
  note rd = remove_data_chain [OF builtD(1,3) [OF assms]]
  have "x \<in> occupied t0 \<Longrightarrow> slot_at (snd (remove_data t (hd c))) x = slot_at t0 x" for x
    using occupied_built(2) [OF assms] by (intro freed_built(2) [OF assms rd(1)]) blast
  then show ?thesis
    using freed_built(1) [OF assms rd(1)] rd(2,3) builtD(2,7,8) [OF assms] freed_shape [OF builtD(1) [OF assms] rd(1)]
      same_table_trans [OF builtD(2) [OF assms]] rd(1)
    by (auto simp: restored_def freed_def)
qed

lemma put_data_loop_built:
  assumes "built t0 c (take save val) t" "0 < save" "save \<le> length val"
  shows "if ext_slots (length val - save) \<le> free_slots t
    then \<exists>c' t'. put_data_loop (hd c) val (last c) save t = (True, t') \<and> built t0 c' val t' \<and>
      hd c' = hd c \<and> length c' = length c + ext_slots (length val - save) \<and>
      s_count (slot_at t' (hd c)) = s_count (slot_at t (hd c)) \<and>
      slot_id (slot_at t' (hd c)) = slot_id (slot_at t (hd c))
    else \<exists>t'. put_data_loop (hd c) val (last c) save t = (False, t') \<and> restored t0 t' \<and> errno t' = ENOBUFS"
  using assms
proof (induction "length val - save" arbitrary: c save t rule: less_induct)
  case less
  note b = less.prems(1)
  have sh: "shape_ok t" and ch: "is_chain t c" by (rule builtD [OF b])+
  have ne: "c \<noteq> []" by (rule is_chainD [OF ch])
  show ?case
  proof (cases "save < length val")
    case False
    with less.prems have "save = length val" by simp
    with b show ?thesis by (subst (1 2) put_data_loop.simps) auto
  next
    case True
    show ?thesis
    proof (cases "find_empty t (last c + 1)")
      case None
      then have "free_slots t = 0" using free_slots_0 [OF sh, of "last c + 1"] by simp
      moreover have "ext_slots (length val - save) \<noteq> 0" using True ext_slots_step by simp
      ultimately show ?thesis using True less.prems(2) None built_undo [OF b]
        by (subst (1 2) put_data_loop.simps) simp
    next
      case (Some e)
      let ?t1 = "link_ext (last c) e t"
      let ?cs = "chunk_size ?t1 e val save"
      let ?t2 = "store_chunk e val save ?t1"
      note e = find_empty_Some [OF sh Some]
      note ext = built_extend [OF b e(2,1) refl True]
      have cs: "?cs = min DATASIZE (length val - save)" by (rule ext)
      have "take save val @ mem_read save ?cs val = take (save + ?cs) val"
        by (simp add: mem_read_def take_add)
      with ext(1) have b2: "built t0 (c @ [e]) (take (save + ?cs) val) ?t2" by simp
      have "is_chain ?t2 (c @ [e])" by (rule builtD [OF b2])
      have loop: "put_data_loop (hd c) val (last c) save t = put_data_loop (hd c) val e (save + ?cs) ?t2"
        using True less.prems(2) Some by (subst put_data_loop.simps) (simp add: Let_def)
      have free: "free_slots t = Suc (free_slots ?t2)"
        using free_built [OF b] free_built [OF b2] free_slots_0 [OF sh, of "last c + 1"] Some
        by (cases "free_slots t") auto
      have step: "ext_slots (length val - save) = Suc (ext_slots (length val - (save + ?cs)))"
        using ext_slots_step [of "length val - save"] True cs by simp
      have small: "length val - (save + ?cs) < length val - save" "0 < save + ?cs" "save + ?cs \<le> length val"
        using True cs less.prems(2) by auto
      have hd: "s_count (slot_at ?t2 (hd c)) = s_count (slot_at t (hd c))"
        "slot_id (slot_at ?t2 (hd c)) = slot_id (slot_at t (hd c))"
        using ext(3) [of "hd c"] ne by (simp_all add: slot_id_def Let_def)
      from less.hyps [OF small(1) b2 small(2,3)]
      show ?thesis
        using hd ne unfolding loop free step
        by (auto split: if_splits)
    qed
  qed
qed

text \<open>The key part of the first slot.\<close>

lemma key_fields:
  assumes d: "length d = DATASIZE" and key: "length key < 65536"
  defines "d' \<equiv> blit 224 (to_le 2 (of_nat (length key) :: u16))
             (blit 226 (md5_digest key) (blit 128 (take KEYSIZE key) d))"
  shows "length d' = DATASIZE" "pair_keylen d' = length key" "pair_keymd5 d' = md5_digest key"
    "take (length key) (pair_key d') = take KEYSIZE key"
proof -
  have lens: "length (blit 128 (take KEYSIZE key) d) = DATASIZE" using d by simp
  show "length d' = DATASIZE" using d by (simp add: d'_def)
  have "mem_read 224 2 d' = to_le 2 (of_nat (length key) :: u16)"
    using d by (simp add: d'_def mem_simps)
  then show "pair_keylen d' = length key"
    using key by (simp add: pair_keylen_def unsigned_of_nat take_bit_nat_eq_self)
  show "pair_keymd5 d' = md5_digest key"
    using d by (simp add: d'_def pair_keymd5_def mem_simps)
  have "pair_key d' = mem_read 128 KEYSIZE (blit 128 (take KEYSIZE key) d)"
    using d by (simp add: d'_def pair_key_def mem_simps)
  also have "\<dots> = take KEYSIZE (take KEYSIZE key @ drop (128 + length (take KEYSIZE key)) d)"
    using d by (simp add: mem_read_def blit_def)
  finally show "take (length key) (pair_key d') = take KEYSIZE key"
    by (simp add: min_def)
qed

lemma key_id_bucket: "bucket t' key = bucket t key \<Longrightarrow> key_id t' key = key_id t key"
  by (simp add: key_id_def)

text \<open>The first chunk: a chain of one slot that holds the key.\<close>

lemma put_first:
  fixes h :: nat
  assumes sh: "shape_ok t" and i: "s_count (slot_at t i) = 0" "i < length (slots t)"
    and val: "val \<noteq> []" and cnt: "cnt = 1 \<or> cnt = -1" and key: "length key < 65536"
  defines "t1 \<equiv> put_key i h key cnt t"
  defines "t2 \<equiv> store_chunk i val 0 t1"
  shows "chunk_size t1 i val 0 = min VALUESIZE (length val)"
    "built t [i] (take (min VALUESIZE (length val)) val) t2"
    "s_count (slot_at t2 i) = cnt"
    "h = bucket t key \<Longrightarrow> slot_id (slot_at t2 i) = key_id t key"
proof -
  let ?d = "blit 224 (to_le 2 (of_nat (length key) :: u16))
             (blit 226 (md5_digest key) (blit 128 (take KEYSIZE key) (s_data (slot_at t i))))"
  note d = key_fields [OF shape_okD(6) [OF sh] key, of i]
  have t1: "slot_at t1 x = (if x = i then
      (slot_at t i)\<lparr>s_count := cnt, s_hash := h, s_link := -1, s_data := ?d\<rparr> else slot_at t x)" for x
    using i cnt by (auto simp: t1_def put_key_def slot_simps)
  show size: "chunk_size t1 i val 0 = min VALUESIZE (length val)"
    using cnt by (auto simp: chunk_size_def t1 Let_def)
  let ?cs = "min VALUESIZE (length val)"
  let ?chunk = "take ?cs val"
  let ?d2 = "blit 0 ?chunk ?d"
  have len1: "length (slots t1) = length (slots t)" "same_table t t1" "usedslots t1 = usedslots t"
    "num t1 = num t" "errno t1 = errno t"
    by (simp_all add: t1_def put_key_def)
  have t2: "slot_at t2 x = (if x = i then
      (slot_at t i)\<lparr>s_count := cnt, s_hash := h, s_link := -1, s_data := ?d2, s_size := ?cs\<rparr>
      else slot_at t x)" for x
    using i by (auto simp: t2_def store_chunk_def size Let_def slot_simps t1 len1 mem_read_def)
  have d2: "length ?d2 = DATASIZE" using d(1) by simp
  have shape: "shape_ok t2"
  proof -
    have "slot_shape (slot_at t2 x)" for x
      using shape_slot [OF sh, of x] d2 cnt by (cases "x = i") (auto simp: t2 slot_shape_def)
    then show ?thesis
      using same_table_trans [OF len1(2) fields_store_chunk(4) [of t1 i val 0]]
      by (auto simp: t2_def intro: shape_ok_same [OF sh])
  qed
  have chain: "is_chain t2 [i]"
    using cnt by (auto simp: is_chain_def t2 is_key_slot_def)
  have cval: "chain_val t2 [i] = ?chunk"
    by (simp add: chain_val_def slot_bytes_def t2 take_blit_0)
  have fields: "usedslots t2 = usedslots t + 1" "num t2 = num t + 1" "errno t2 = errno t"
    using cnt by (auto simp: t2_def fields_store_chunk len1 t1)
  show "built t [i] ?chunk t2"
    using shape chain cval i len1 cnt
      same_table_trans [OF len1(2) fields_store_chunk(4) [of t1 i val 0]]
    unfolding built_def by (auto simp: t2 t2_def [symmetric] t1 fields)
  show "s_count (slot_at t2 i) = cnt" by (simp add: t2)
  have "pair_key ?d2 = pair_key ?d" "pair_keylen ?d2 = pair_keylen ?d" "pair_keymd5 ?d2 = pair_keymd5 ?d"
    using d(1) by (simp_all add: pair_key_def pair_keylen_def pair_keymd5_def mem_simps)
  then show "slot_id (slot_at t2 i) = key_id t key" if "h = bucket t key"
    using d that by (simp add: slot_id_def key_id_def t2 Let_def)
qed

text \<open>
  Storing an element in an empty slot: it takes exactly \<open>slots_needed\<close> slots, and fails
  without a trace when there are not as many.
\<close>

lemma put_data_built:
  assumes sh: "shape_ok t" and i: "s_count (slot_at t i) = 0" "i < length (slots t)"
    and val: "val \<noteq> []" and cnt: "cnt = 1 \<or> cnt = -1" and key: "length key < 65536"
    and h: "h = bucket t key"
  shows "if slots_needed (length val) \<le> free_slots t
    then \<exists>c t'. put_data t i h key val cnt = (True, t') \<and> built t c val t' \<and> hd c = i \<and>
      length c = slots_needed (length val) \<and> s_count (slot_at t' i) = cnt \<and>
      slot_id (slot_at t' i) = key_id t key
    else \<exists>t'. put_data t i h key val cnt = (False, t') \<and> restored t t' \<and> errno t' = ENOBUFS"
proof -
  let ?t1 = "put_key i h key cnt t"
  let ?t2 = "store_chunk i val 0 ?t1"
  let ?cs = "min VALUESIZE (length val)"
  note first = put_first [OF sh i val cnt key, of h]
  have "put_data t i h key val cnt = put_data_loop i val i ?cs ?t2"
    using i val first(1) unfolding put_data_def
    by (subst put_data_loop.simps) (simp add: Let_def)
  moreover have "0 < ?cs" "?cs \<le> length val" using val by auto
  moreover have "free_slots ?t2 = free_slots t - 1" using free_built [OF first(2)] by simp
  moreover have "free_slots t \<noteq> 0"
    using free_slots_0 [OF sh, of 0] find_empty_exists [OF sh i(2,1), of 0] by auto
  moreover have "slots_needed (length val) = Suc (ext_slots (length val - ?cs))"
    by (simp add: slots_needed_def min_def)
  ultimately show ?thesis
    using put_data_loop_built [OF first(2)] first(3,4) h
    by (auto split: if_splits)
qed

end
