(* ===== verification/Hasharr_Correct.thy ===== *)
theory Hasharr_Correct
  imports Hasharr_Upd
begin

text \<open>
  The public operations of the hash table keep the invariant and act on the map a table
  stands for as the operations of a finite map: lookup, removal, insertion with the exact
  condition under which it succeeds, clearing. The bounds of the code appear as
  hypotheses: keys shorter than 65536 bytes (the width of \<^verbatim>\<open>keylen\<close>), values that are
  not empty, fewer than 32767 keys in the bucket (the width of \<^verbatim>\<open>count\<close>).
\<close>

subsection \<open>Entries\<close>

definition entry_set :: "qenv \<Rightarrow> nat list set \<Rightarrow> (key_id \<times> bytes) set" where
  "entry_set t CH = (\<lambda>c. (slot_id (slot_at t (hd c)), chain_val t c)) ` CH"

lemma table_map_entries:
  assumes "chains_ok t CH" "ids_ok t"
  shows "table_map t k = Some v \<longleftrightarrow> (k, v) \<in> entry_set t CH"
  using table_map_Some [OF assms] by (auto simp: entry_set_def)

lemma table_map_eqI:
  assumes "chains_ok t CH" "ids_ok t" "\<And>k v. m k = Some v \<longleftrightarrow> (k, v) \<in> entry_set t CH"
  shows "table_map t = m"
proof
  fix k
  show "table_map t k = m k"
    using table_map_entries [OF assms(1,2), of k] assms(3) [of k]
    by (metis not_None_eq)
qed

lemma table_okD:
  assumes "table_ok t"
  shows "shape_ok t" "buckets_ok t" "counters_ok t" "ids_ok t"
    "\<exists>CH. chains_ok t CH \<and> packed t CH"
  using assms by (auto simp: table_ok_def)

lemma table_okI:
  "shape_ok t \<Longrightarrow> chains_ok t CH \<Longrightarrow> packed t CH \<Longrightarrow> buckets_ok t \<Longrightarrow> counters_ok t \<Longrightarrow> ids_ok t \<Longrightarrow>
   table_ok t"
  by (auto simp: table_ok_def)

subsection \<open>Tables that differ in empty slots only\<close>

definition agree :: "qenv \<Rightarrow> qenv \<Rightarrow> bool" where
  "agree t t' \<longleftrightarrow> same_table t t' \<and> occupied t' = occupied t \<and>
     (\<forall>x\<in>occupied t. slot_at t' x = slot_at t x)"

lemma agree_keys:
  assumes "agree t t'"
  shows "key_slots t' = key_slots t"
proof -
  have "is_key_slot (slot_at t' x) \<longleftrightarrow> is_key_slot (slot_at t x)" for x
  proof (cases "x \<in> occupied t")
    case True
    with assms show ?thesis by (simp add: agree_def)
  next
    case False
    with assms have "s_count (slot_at t x) = 0" "s_count (slot_at t' x) = 0"
      unfolding agree_def by (metis occupied_iff)+
    then show ?thesis by (simp add: is_key_slot_def)
  qed
  then show ?thesis by (auto simp: key_slots_def)
qed

lemma agree_buckets:
  assumes "agree t t'"
  shows "in_bucket t' h = in_bucket t h" "buckets_ok t \<Longrightarrow> buckets_ok t'" "ids_ok t \<Longrightarrow> ids_ok t'"
proof -
  have slot: "slot_at t' x = slot_at t x" if "x \<in> key_slots t" for x
    using that assms key_slots_occupied [of t] by (auto simp: agree_def)
  have count: "s_count (slot_at t' x) = s_count (slot_at t x)" for x
    using assms unfolding agree_def by (metis occupied_iff)
  have bucket: "in_bucket t' h = in_bucket t h" for h
    using slot by (auto simp: in_bucket_def agree_keys [OF assms])
  show "in_bucket t' h = in_bucket t h" by (rule bucket)
  show "ids_ok t'" if "ids_ok t"
    using that slot unfolding ids_ok_def agree_keys [OF assms] by (simp add: inj_on_def)
  show "buckets_ok t'" if b: "buckets_ok t"
    unfolding buckets_ok_def agree_keys [OF assms] bucket count
  proof (intro conjI allI impI ballI)
    fix i assume "i \<in> key_slots t"
    then show "0 < s_count (slot_at t (s_hash (slot_at t' i)))"
      using b slot by (simp add: buckets_ok_def)
  next
    fix i assume i: "0 < s_count (slot_at t i)"
    then have "slot_at t' i = slot_at t i" by (intro slot) (simp add: key_slots_iff is_key_slot_def)
    with b i show "s_hash (slot_at t' i) = i" "s_count (slot_at t i) = int (card (in_bucket t i))"
      "s_count (slot_at t i) \<le> 32767"
      by (simp_all add: buckets_ok_def)
  qed
qed

lemma agree_chains:
  assumes "agree t t'" "chains_ok t CH"
  shows "chains_ok t' CH" "entry_set t' CH = entry_set t CH" "packed t CH \<Longrightarrow> packed t' CH"
proof -
  have slot: "slot_at t' x = slot_at t x" if "c \<in> CH" "x \<in> set c" for c x
    using that assms chains_okD(4) [OF assms(2)] by (auto simp: agree_def occupied_iff)
  have "is_chain t' c" "chain_val t' c = chain_val t c" if "c \<in> CH" for c
    using is_chain_cong [of c t' t] chain_val_cong [of c t' t] slot [OF that] chains_okD(1) [OF assms(2) that]
    by auto
  moreover have "slot_at t' (hd c) = slot_at t (hd c)" if "c \<in> CH" for c
    using slot [OF that] is_chainD(1) [OF chains_okD(1) [OF assms(2) that]] by simp
  ultimately show "chains_ok t' CH" "entry_set t' CH = entry_set t CH" "packed t CH \<Longrightarrow> packed t' CH"
    using assms by (auto simp: chains_ok_def agree_def entry_set_def packed_def)
qed

lemma agree_table:
  assumes "agree t t'" "table_ok t" "shape_ok t'" "usedslots t' = usedslots t" "num t' = num t"
  shows "table_ok t'" "table_map t' = table_map t"
proof -
  obtain CH where CH: "chains_ok t CH" "packed t CH" using table_okD(5) [OF assms(2)] by blast
  note ok = table_okD [OF assms(2)]
  note ch = agree_chains [OF assms(1) CH(1)]
  have "counters_ok t'"
    using ok(3) assms agree_keys [OF assms(1)] by (simp add: counters_ok_def agree_def)
  then show "table_ok t'"
    using ch CH agree_buckets [OF assms(1)] ok by (intro table_okI [OF assms(3) ch(1)]) auto
  show "table_map t' = table_map t"
    using agree_buckets(3) [OF assms(1) ok(4)] table_map_entries [OF CH(1) ok(4)] ch
    by (intro table_map_eqI [OF ch(1)]) auto
qed

lemma restored_table:
  "table_ok t \<Longrightarrow> restored t t' \<Longrightarrow> table_ok t' \<and> table_map t' = table_map t"
  using agree_table [of t t'] by (auto simp: restored_def agree_def)

lemma chain_of_errno [simp]: "chain_of (t\<lparr>errno := e\<rparr>) n i = chain_of t n i"
  by (induction n arbitrary: i) simp_all

lemma chain_val_errno [simp]: "chain_val (t\<lparr>errno := e\<rparr>) c = chain_val t c"
  by (rule chain_val_cong) simp

lemma table_map_errno [simp]: "table_map (t\<lparr>errno := e\<rparr>) = table_map t"
  by (simp add: table_map_def entries_def)

lemma table_ok_errno [simp]: "table_ok (t\<lparr>errno := e\<rparr>) = table_ok t"
proof -
  have ag: "agree t (t\<lparr>errno := e\<rparr>)" for t e by (simp add: agree_def)
  have "table_ok t \<Longrightarrow> table_ok (t\<lparr>errno := e\<rparr>)" for t e
    using agree_table(1) [OF ag] by (simp add: table_okD(1))
  from this [of t e] this [of "t\<lparr>errno := e\<rparr>" "errno t"] show ?thesis by auto
qed

subsection \<open>The counter of a leading slot\<close>

text \<open>
  Storing another positive counter in a leading slot changes neither chains nor entries.
\<close>

definition recounted :: "nat \<Rightarrow> int \<Rightarrow> qenv \<Rightarrow> qenv" where
  "recounted h k t = upd_slot h (\<lambda>s. s\<lparr>s_count := k\<rparr>) t"

lemma recounted_slots:
  assumes "s_count (slot_at t h) > 0" "k > 0"
  shows "same_table t (recounted h k t)"
    "slot_at (recounted h k t) x = (if x = h then (slot_at t h)\<lparr>s_count := k\<rparr> else slot_at t x)"
    "is_key_slot (slot_at (recounted h k t) x) = is_key_slot (slot_at t x)"
    "slot_id (slot_at (recounted h k t) x) = slot_id (slot_at t x)"
    "occupied (recounted h k t) = occupied t" "key_slots (recounted h k t) = key_slots t"
    "in_bucket (recounted h k t) b = in_bucket t b"
    "usedslots (recounted h k t) = usedslots t" "num (recounted h k t) = num t"
    "errno (recounted h k t) = errno t"
proof -
  have h: "h < length (slots t)" using assms(1) in_range_if_occupied [of t h] by simp
  show slot: "slot_at (recounted h k t) x = (if x = h then (slot_at t h)\<lparr>s_count := k\<rparr> else slot_at t x)" for x
    using h by (auto simp: recounted_def slot_simps)
  show key: "is_key_slot (slot_at (recounted h k t) x) = is_key_slot (slot_at t x)" for x
    using assms by (auto simp: slot is_key_slot_def)
  show "slot_id (slot_at (recounted h k t) x) = slot_id (slot_at t x)"
    by (rule slot_id_cong) (simp_all add: slot)
  show "occupied (recounted h k t) = occupied t"
    using assms by (auto simp: occupied_def slot)
  show ks: "key_slots (recounted h k t) = key_slots t"
    by (simp add: key_slots_def key)
  show "in_bucket (recounted h k t) b = in_bucket t b"
    by (auto simp: in_bucket_def ks slot)
qed (simp_all add: recounted_def)

lemma recounted_chains:
  assumes "s_count (slot_at t h) > 0" "k > 0" "chains_ok t CH"
  shows "chains_ok (recounted h k t) CH" "entry_set (recounted h k t) CH = entry_set t CH"
    "packed t CH \<Longrightarrow> packed (recounted h k t) CH"
proof -
  note rs = recounted_slots [OF assms(1,2)]
  have val: "chain_val (recounted h k t) c = chain_val t c" for c
    unfolding chain_val_def by (intro arg_cong [where f = concat] map_cong) (auto simp: slot_bytes_def rs(2))
  have chain: "is_chain (recounted h k t) c" if c: "c \<in> CH" for c
  proof -
    have ch: "is_chain t c" by (rule chains_okD(1) [OF assms(3) c])
    have "linked (recounted h k t) c"
      using is_chainD(2) [OF ch] linked_cong [of c "recounted h k t" t] by (simp add: rs(2))
    moreover have "s_count (slot_at (recounted h k t) x) = -2" if "x \<in> set (tl c)" for x
      using is_chainD(5) [OF ch that] assms(1) by (auto simp: rs(2))
    ultimately show ?thesis using ch by (simp add: is_chain_def rs(3))
  qed
  then show "chains_ok (recounted h k t) CH"
    using assms(3) by (simp add: chains_ok_def rs(5))
  show "entry_set (recounted h k t) CH = entry_set t CH"
    by (simp add: entry_set_def rs(4) val)
  show "packed t CH \<Longrightarrow> packed (recounted h k t) CH"
    by (simp add: packed_def val)
qed

lemma recounted_shape:
  assumes "s_count (slot_at t h) > 0" "k > 0" "shape_ok t"
  shows "shape_ok (recounted h k t)"
proof (rule shape_ok_same [OF assms(3) recounted_slots(1) [OF assms(1,2)]])
  fix x
  show "slot_shape (slot_at (recounted h k t) x)"
    using shape_slot [OF assms(3), of x] assms(1,2)
    by (auto simp: recounted_slots(2) [OF assms(1,2)] slot_shape_def split: if_splits)
qed

subsection \<open>Freeing an element\<close>

lemma freed_keys:
  assumes "chains_ok t CH" "c \<in> CH" "freed (set c) t t'"
  shows "key_slots t' = key_slots t - {hd c}" "in_bucket t' h = in_bucket t h - {hd c}"
    "x \<notin> set c \<Longrightarrow> slot_at t' x = slot_at t x"
proof -
  have ch: "is_chain t c" by (rule chains_okD(1) [OF assms(1,2)])
  show slot: "x \<notin> set c \<Longrightarrow> slot_at t' x = slot_at t x" for x
    using assms(3) by (simp add: freed_def)
  have only: "x = hd c" if "x \<in> set c" "is_key_slot (slot_at t x)" for x
    using that is_chainD(5) [OF ch, of x] by (cases c) (auto dest: is_key_slot_count)
  have "is_key_slot (slot_at t' x) \<longleftrightarrow> is_key_slot (slot_at t x) \<and> x \<noteq> hd c" for x
  proof (cases "x \<in> set c")
    case True
    then have "\<not> is_key_slot (slot_at t' x)" using assms(3) by (simp add: freed_def is_key_slot_def)
    with only [OF True] show ?thesis by auto
  next
    case False
    with is_chainD(1) [OF ch] slot [OF False] show ?thesis by auto
  qed
  then show ks: "key_slots t' = key_slots t - {hd c}" by (auto simp: key_slots_def)
  have hash: "s_hash (slot_at t' x) = s_hash (slot_at t x)" for x
    using assms(3) by (simp add: freed_def)
  show "in_bucket t' h = in_bucket t h - {hd c}"
    by (auto simp: in_bucket_def ks hash)
qed

lemma freed_entries:
  assumes "chains_ok t CH" "c \<in> CH" "freed (set c) t t'"
  shows "entry_set t' (CH - {c}) = (\<lambda>d. (slot_id (slot_at t (hd d)), chain_val t d)) ` (CH - {c})"
    "packed t CH \<Longrightarrow> packed t' (CH - {c})"
proof -
  have slot: "slot_at t' x = slot_at t x" if "d \<in> CH - {c}" "x \<in> set d" for d x
    using that assms chains_okD(2) [OF assms(1), of d c x] by (intro freed_keys(3)) auto
  have val: "chain_val t' d = chain_val t d" if "d \<in> CH - {c}" for d
    using slot [OF that] by (rule chain_val_cong)
  have "slot_at t' (hd d) = slot_at t (hd d)" if "d \<in> CH - {c}" for d
    using slot [OF that] that is_chainD(1) [OF chains_okD(1) [OF assms(1)], of d] by simp
  with val show "entry_set t' (CH - {c}) = (\<lambda>d. (slot_id (slot_at t (hd d)), chain_val t d)) ` (CH - {c})"
    by (simp add: entry_set_def)
  show "packed t CH \<Longrightarrow> packed t' (CH - {c})"
    using val by (simp add: packed_def)
qed

text \<open>The map without one entry.\<close>

lemma table_map_delete:
  assumes "chains_ok t CH" "ids_ok t" "c \<in> CH"
    and "chains_ok t' CH'" "ids_ok t'"
    and "entry_set t' CH' = (\<lambda>d. (slot_id (slot_at t (hd d)), chain_val t d)) ` (CH - {c})"
  shows "table_map t' = (table_map t)(slot_id (slot_at t (hd c)) := None)"
proof (rule table_map_eqI [OF assms(4,5)])
  fix k v
  have neq: "slot_id (slot_at t (hd d)) \<noteq> slot_id (slot_at t (hd c))" if "d \<in> CH - {c}" for d
  proof
    assume "slot_id (slot_at t (hd d)) = slot_id (slot_at t (hd c))"
    moreover have "hd d \<in> key_slots t" "hd c \<in> key_slots t"
      using that assms(3) key_slots_heads [OF assms(1)] by auto
    ultimately have "hd d = hd c" using assms(2) by (auto simp: ids_ok_def inj_on_def)
    with that assms(3) chain_unique_head [OF assms(1)] show False by blast
  qed
  show "((table_map t)(slot_id (slot_at t (hd c)) := None)) k = Some v \<longleftrightarrow> (k, v) \<in> entry_set t' CH'"
  proof -
    have "(k, v) \<in> entry_set t' CH' \<longleftrightarrow>
        (\<exists>d\<in>CH - {c}. slot_id (slot_at t (hd d)) = k \<and> chain_val t d = v)"
      unfolding assms(6) by auto
    then show ?thesis
      using table_map_Some [OF assms(1,2), of k v] neq by auto
  qed
qed

text \<open>Everything a call of \<^verbatim>\<open>_remove_data\<close> on the head of a chain does.\<close>

lemma remove_data_core:
  assumes sh: "shape_ok t" and ch: "chains_ok t CH" and pk: "packed t CH" and ids: "ids_ok t"
    and ct: "counters_ok t" and c: "c \<in> CH"
  defines "t' \<equiv> snd (remove_data t (hd c))"
  shows "freed (set c) t t'" "shape_ok t'" "chains_ok t' (CH - {c})" "packed t' (CH - {c})" "ids_ok t'"
    "counters_ok t'" "table_map t' = (table_map t)(slot_id (slot_at t (hd c)) := None)"
    "free_slots t' = free_slots t + length c" "errno t' = errno t"
proof -
  have cc: "is_chain t c" by (rule chains_okD(1) [OF ch c])
  note rd = remove_data_chain [OF sh cc, folded t'_def]
  show fr: "freed (set c) t t'" by (rule rd)
  show "shape_ok t'" by (rule freed_shape [OF sh fr])
  show ch': "chains_ok t' (CH - {c})" by (rule freed_chains [OF ch c fr])
  show "packed t' (CH - {c})" by (rule freed_entries(2) [OF ch c fr pk])
  note ks = freed_keys [OF ch c fr]
  have id: "slot_id (slot_at t' x) = slot_id (slot_at t x)" for x
    using fr by (intro slot_id_cong) (simp_all add: freed_def)
  show ids': "ids_ok t'"
    using ids by (auto simp: ids_ok_def ks(1) id inj_on_def)
  have occ: "occupied t' = occupied t - set c"
    using fr by (auto simp: freed_def occupied_def split: if_splits)
  have sub: "set c \<subseteq> occupied t" using chains_okD(4) [OF ch c] by (auto simp: occupied_iff)
  have card: "card (occupied t') = card (occupied t) - length c" "length c \<le> card (occupied t)"
    using sub is_chainD(3) [OF cc] card_mono [OF finite_occupied sub]
    by (simp_all add: occ card_Diff_subset distinct_card)
  have "hd c \<in> key_slots t" using is_chainD(4) [OF cc] by (simp add: key_slots_iff)
  then have "card (key_slots t') = card (key_slots t) - 1" "0 < card (key_slots t)"
    by (auto simp: ks(1) card_gt_0_iff)
  with card ct rd(2,3) show "counters_ok t'" by (simp add: counters_ok_def)
  show "table_map t' = (table_map t)(slot_id (slot_at t (hd c)) := None)"
    by (rule table_map_delete [OF ch ids c ch' ids' freed_entries(1) [OF ch c fr]])
  have "card (occupied t) \<le> length (slots t)" using card_mono [OF _ occupied_sub, of t] by simp
  with card fr show "free_slots t' = free_slots t + length c"
    by (simp add: free_slots_def freed_def same_table_def)
  show "errno t' = errno t" by (rule rd)
qed

subsection \<open>Moving an element\<close>

lemma moved_core:
  assumes mv: "moved i j k t t'" and i: "s_count (slot_at t i) = 0" and j: "s_count (slot_at t j) \<noteq> 0"
    and k: "k \<noteq> 0" "k \<ge> -2" "k = -2 \<longleftrightarrow> s_count (slot_at t j) = -2"
    and sh: "shape_ok t" and ch: "chains_ok t CH" and pk: "packed t CH" and ids: "ids_ok t"
    and ct: "counters_ok t" and fields: "usedslots t' = usedslots t" "num t' = num t"
  shows "shape_ok t'" "chains_ok t' (map (rename i j) ` CH)" "packed t' (map (rename i j) ` CH)" "ids_ok t'"
    "counters_ok t'" "table_map t' = table_map t" "free_slots t' = free_slots t"
    "key_slots t' = rename i j ` key_slots t" "in_bucket t' h = rename i j ` in_bucket t h"
    "inj_on (rename i j) (occupied t)"
proof -
  have ij: "i \<noteq> j" using i j by auto
  have keyj: "is_key_slot (slot_at t j) \<longrightarrow> k > 0 \<or> k = -1"
    using k by (auto dest: is_key_slot_count)
  have ni: "x \<noteq> i" if "x \<in> occupied t" for x using that i by (auto simp: occupied_iff)
  show inj: "inj_on (rename i j) (occupied t)"
    using ni by (auto simp: inj_on_def rename_def)
  have injk: "inj_on (rename i j) (key_slots t)"
    by (rule inj_on_subset [OF inj key_slots_occupied])
  have injb: "inj_on (rename i j) (in_bucket t h)" for h
    by (rule inj_on_subset [OF injk]) (auto simp: in_bucket_def)
  note md = movedD [OF mv]
  note st = md(1)
  show "shape_ok t'"
  proof (rule shape_ok_same [OF sh st])
    fix x
    show "slot_shape (slot_at t' x)"
      using shape_slot [OF sh, of x] shape_slot [OF sh, of j] md(2-4) [of x] ij j k
      by (cases "x = i") (auto simp: slot_shape_def split: if_splits)
  qed
  show ch': "chains_ok t' (map (rename i j) ` CH)"
    by (rule moved_chains [OF ch mv i j k(1,3) keyj])
  note val = moved_val [OF ch mv i j]
  note id = moved_id [OF ch mv i j]
  show "packed t' (map (rename i j) ` CH)"
    using pk val by (simp add: packed_def)
  have hd: "hd (map (rename i j) c) = rename i j (hd c)" "is_key_slot (slot_at t (hd c))" if "c \<in> CH" for c
    using is_chainD(1,4) [OF chains_okD(1) [OF ch that]] by (auto simp: hd_map)
  show ks: "key_slots t' = rename i j ` key_slots t"
    using key_slots_heads [OF ch] key_slots_heads [OF ch'] hd by (auto simp: image_image)
  have key: "is_key_slot (slot_at t x)" if "x \<in> key_slots t" for x using that by (simp add: key_slots_iff)
  show "in_bucket t' h = rename i j ` in_bucket t h"
    unfolding in_bucket_def ks using id(2) [OF key] by auto
  show ids': "ids_ok t'"
    using ids id(1) [OF key] unfolding ids_ok_def ks by (auto simp: inj_on_def)
  have occ: "occupied t' = rename i j ` occupied t"
  proof -
    have "x \<in> occupied t' \<longleftrightarrow> x \<in> rename i j ` occupied t" for x
      using md(2) [of x] ij i j k(1) by (auto simp: occupied_iff rename_def image_iff)
    then show ?thesis by blast
  qed
  show "counters_ok t'"
    using ct fields by (simp add: counters_ok_def occ ks card_image [OF inj] card_image [OF injk])
  show "free_slots t' = free_slots t"
    using st by (simp add: free_slots_def occ card_image [OF inj] same_table_def)
  have "entry_set t' (map (rename i j) ` CH) = entry_set t CH"
    using hd id(1) val by (simp add: entry_set_def image_image)
  then show "table_map t' = table_map t"
    using table_map_entries [OF ch ids] by (intro table_map_eqI [OF ch' ids']) simp
qed

text \<open>What the code does to move a slot: copy, remove, repair the links.\<close>

lemma copy_remove_slot:
  assumes i: "s_count (slot_at t i) = 0" "i < length (slots t)" and j: "s_count (slot_at t j) \<noteq> 0"
  defines "t' \<equiv> snd (remove_slot (snd (copy_slot t i j)) j)"
  shows "slot_at t' x = (if x = i then slot_at t j else if x = j then (slot_at t j)\<lparr>s_count := 0\<rparr>
      else slot_at t x)"
    "same_table t t'" "usedslots t' = usedslots t" "num t' = num t" "errno t' = errno t"
proof -
  have ij: "i \<noteq> j" using i j by auto
  have jr: "j < length (slots t)" using in_range_if_occupied j by blast
  have copy: "snd (copy_slot t i j) = (upd_slot i (\<lambda>_. slot_at t j) t)\<lparr>usedslots := usedslots t + 1\<rparr>"
    using i j by (simp add: copy_slot_def Let_def)
  show "slot_at t' x = (if x = i then slot_at t j else if x = j then (slot_at t j)\<lparr>s_count := 0\<rparr>
      else slot_at t x)"
    using i j ij jr by (auto simp: t'_def copy remove_slot_def Let_def slot_simps)
  show "same_table t t'" "usedslots t' = usedslots t" "num t' = num t" "errno t' = errno t"
    using i j ij by (auto simp: t'_def copy remove_slot_def Let_def slot_simps same_table_def)
qed

lemma same_table_relink_next [simp]: "same_table t (relink_next i t)"
  by (simp add: relink_next_def)

lemma fields_relink_next [simp]:
  "usedslots (relink_next i t) = usedslots t" "num (relink_next i t) = num t"
  "errno (relink_next i t) = errno t"
  by (simp_all add: relink_next_def)

lemma slot_at_relink_next:
  "s_link (slot_at t i) = -1 \<or> nat (s_link (slot_at t i)) < length (slots t) \<Longrightarrow>
   slot_at (relink_next i t) x =
   (if s_link (slot_at t i) \<noteq> -1 \<and> x = nat (s_link (slot_at t i)) then (slot_at t x)\<lparr>s_hash := i\<rparr>
    else slot_at t x)"
  by (auto simp: relink_next_def slot_simps)

text \<open>The neighbours of an occupied slot are not empty.\<close>

lemma neighbours_occupied:
  assumes ch: "chains_ok t CH" and j: "s_count (slot_at t j) \<noteq> 0"
  shows "s_link (slot_at t j) \<noteq> -1 \<Longrightarrow> s_count (slot_at t (nat (s_link (slot_at t j)))) = -2"
    "s_link (slot_at t j) \<noteq> -1 \<Longrightarrow> nat (s_link (slot_at t j)) \<noteq> j"
    "s_count (slot_at t j) = -2 \<Longrightarrow> s_count (slot_at t (s_hash (slot_at t j))) \<noteq> 0"
    "s_count (slot_at t j) = -2 \<Longrightarrow> s_hash (slot_at t j) \<noteq> j"
proof -
  obtain c where c: "c \<in> CH" "j \<in> set c" using chains_okD(3) [OF ch j] by blast
  have cc: "is_chain t c" by (rule chains_okD(1) [OF ch c(1)])
  note dist = pairs_distinct [OF is_chainD(3) [OF cc]]
  show "s_count (slot_at t (nat (s_link (slot_at t j)))) = -2" "nat (s_link (slot_at t j)) \<noteq> j"
    if l: "s_link (slot_at t j) \<noteq> -1"
    using chain_succ [OF ch c l] pairs_mem [of j _ c] is_chainD(5) [OF cc] dist by force+
  show "s_count (slot_at t (s_hash (slot_at t j))) \<noteq> 0" "s_hash (slot_at t j) \<noteq> j"
    if l: "s_count (slot_at t j) = -2"
    using chain_pred [OF ch c l] pairs_mem [of _ j c] chains_okD(4) [OF ch c(1)] dist by force+
qed

lemma move_to_empty:
  assumes sh: "shape_ok t" and ch: "chains_ok t CH"
    and i: "s_count (slot_at t i) = 0" "i < length (slots t)"
    and j: "s_count (slot_at t j) = -1 \<or> s_count (slot_at t j) = -2"
  defines "t' \<equiv> relink_moved i (snd (remove_slot (snd (copy_slot t i j)) j))"
  shows "moved i j (s_count (slot_at t j)) t t'" "usedslots t' = usedslots t" "num t' = num t"
    "errno t' = errno t"
proof -
  have j0: "s_count (slot_at t j) \<noteq> 0" using j by auto
  have ij: "i \<noteq> j" using i j by auto
  define t2 where "t2 = snd (remove_slot (snd (copy_slot t i j)) j)"
  note cr = copy_remove_slot [OF i j0, folded t2_def]
  note nb = neighbours_occupied [OF ch j0]
  have len: "length (slots t2) = length (slots t)" using cr(2) by (simp add: same_table_def)
  have succ: "nat (s_link (slot_at t j)) < length (slots t)" "nat (s_link (slot_at t j)) \<noteq> i"
    if "s_link (slot_at t j) \<noteq> -1"
    using nb(1) [OF that] i in_range_if_occupied [of t "nat (s_link (slot_at t j))"] by auto
  have pred: "s_hash (slot_at t j) < length (slots t)" "s_hash (slot_at t j) \<noteq> i"
    if "s_count (slot_at t j) = -2"
    using nb(3) [OF that] i in_range_if_occupied [of t "s_hash (slot_at t j)"] by auto
  define t3 where "t3 = (if s_count (slot_at t j) = -2
      then upd_slot (s_hash (slot_at t j)) (\<lambda>s. s\<lparr>s_link := int i\<rparr>) t2 else t2)"
  have t3: "slot_at t3 x = (if s_count (slot_at t j) = -2 \<and> x = s_hash (slot_at t j)
      then (slot_at t2 x)\<lparr>s_link := int i\<rparr> else slot_at t2 x)" for x
    using pred len by (auto simp: t3_def slot_simps)
  have l3: "s_link (slot_at t3 i) = s_link (slot_at t j)" using pred by (auto simp: t3 cr(1))
  have t': "t' = relink_next i t3"
    using j by (auto simp: t'_def relink_moved_def t3_def t2_def [symmetric] cr(1))
  have len3: "length (slots t3) = length (slots t)" by (simp add: t3_def len)
  have at: "slot_at t' x = (if s_link (slot_at t j) \<noteq> -1 \<and> x = nat (s_link (slot_at t j))
      then (slot_at t3 x)\<lparr>s_hash := i\<rparr> else slot_at t3 x)" for x
    unfolding t' using succ by (subst slot_at_relink_next) (auto simp: l3 len3)
  have st: "same_table t t3" using cr(2) by (auto simp: t3_def intro: same_table_trans)
  show "usedslots t' = usedslots t" "num t' = num t" "errno t' = errno t"
    by (simp_all add: t' t3_def cr(3-5))
  have "same_table t t'" unfolding t' by (rule same_table_trans [OF st same_table_relink_next])
  then show "moved i j (s_count (slot_at t j)) t t'"
    using ij succ(2) pred(2) nb(2,4) by (auto simp: moved_def at t3 cr(1))
qed

lemma move_to_lead:
  assumes sh: "shape_ok t" and ch: "chains_ok t CH"
    and i: "s_count (slot_at t i) = 0" "i < length (slots t)"
    and j: "s_count (slot_at t j) = -1" and k: "to_short k' = k"
  defines "t' \<equiv> relink_next i (upd_slot i (\<lambda>s. s\<lparr>s_count := to_short k'\<rparr>)
                  (snd (remove_slot (snd (copy_slot t i j)) j)))"
  shows "moved i j k t t'" "usedslots t' = usedslots t" "num t' = num t" "errno t' = errno t"
proof -
  have j0: "s_count (slot_at t j) \<noteq> 0" using j by auto
  have ij: "i \<noteq> j" using i j by auto
  define t2 where "t2 = snd (remove_slot (snd (copy_slot t i j)) j)"
  note cr = copy_remove_slot [OF i j0, folded t2_def]
  note nb = neighbours_occupied [OF ch j0]
  have len: "length (slots t2) = length (slots t)" using cr(2) by (simp add: same_table_def)
  have succ: "nat (s_link (slot_at t j)) < length (slots t)" "nat (s_link (slot_at t j)) \<noteq> i"
    if "s_link (slot_at t j) \<noteq> -1"
    using nb(1) [OF that] i in_range_if_occupied [of t "nat (s_link (slot_at t j))"] by auto
  define t3 where "t3 = upd_slot i (\<lambda>s. s\<lparr>s_count := k\<rparr>) t2"
  have t3: "slot_at t3 x = (if x = i then (slot_at t2 x)\<lparr>s_count := k\<rparr> else slot_at t2 x)" for x
    using i len by (auto simp: t3_def slot_simps)
  have t': "t' = relink_next i t3" by (simp add: t'_def t3_def t2_def k)
  have at: "slot_at t' x = (if s_link (slot_at t j) \<noteq> -1 \<and> x = nat (s_link (slot_at t j))
      then (slot_at t3 x)\<lparr>s_hash := i\<rparr> else slot_at t3 x)" for x
    unfolding t' using succ by (subst slot_at_relink_next) (auto simp: t3_def len slot_simps i cr(1))
  have st: "same_table t t3" using cr(2) by (auto simp: t3_def intro: same_table_trans)
  show "usedslots t' = usedslots t" "num t' = num t" "errno t' = errno t"
    by (simp_all add: t' t3_def cr(3-5))
  have "same_table t t'" unfolding t' by (rule same_table_trans [OF st same_table_relink_next])
  then show "moved i j k t t'"
    using ij succ(2) nb(2) j by (auto simp: moved_def at t3 cr(1))
qed

end
