(* ===== verification/Hasharr_Remove.thy ===== *)
theory Hasharr_Remove
  imports Hasharr_Correct
begin

text \<open>
  \<^verbatim>\<open>qhasharr_remove\<close> on a well-formed table: the three cases of the code (a bucket's only
  key, a colliding key, the leading key of a bucket that holds others, whose place a
  colliding key takes) all delete one entry of the map and free the slots of its value.
\<close>

subsection \<open>Key slots outside a freed chain\<close>

lemma key_slot_not_in_chain:
  assumes "chains_ok t CH" "c \<in> CH" "i \<in> key_slots t" "i \<noteq> hd c"
  shows "i \<notin> set c"
proof
  assume "i \<in> set c"
  moreover have "is_chain t c" by (rule chains_okD(1) [OF assms(1,2)])
  ultimately have "i \<in> set (tl c)" using assms(4) by (cases c) auto
  with \<open>is_chain t c\<close> assms(3) show False
    using is_chainD(5) [of t c i] by (auto simp: key_slots_iff dest: is_key_slot_count)
qed

lemma freed_key_slot:
  assumes "chains_ok t CH" "c \<in> CH" "freed (set c) t t'" "i \<in> key_slots t" "i \<noteq> hd c"
  shows "slot_at t' i = slot_at t i"
  using freed_keys(3) [OF assms(1-3)] key_slot_not_in_chain [OF assms(1,2,4,5)] by blast

lemma buckets_okD:
  assumes "buckets_ok t"
  shows "i \<in> key_slots t \<Longrightarrow> s_count (slot_at t (s_hash (slot_at t i))) > 0"
    "s_count (slot_at t i) > 0 \<Longrightarrow> s_hash (slot_at t i) = i"
    "s_count (slot_at t i) > 0 \<Longrightarrow> s_count (slot_at t i) = int (card (in_bucket t i))"
    "s_count (slot_at t i) > 0 \<Longrightarrow> s_count (slot_at t i) \<le> 32767"
  using assms by (auto simp: buckets_ok_def)

lemma positive_key: "s_count (slot_at t i) > 0 \<Longrightarrow> i \<in> key_slots t"
  by (simp add: key_slots_iff is_key_slot_def)

lemma key_count: "i \<in> key_slots t \<Longrightarrow> s_count (slot_at t i) > 0 \<or> s_count (slot_at t i) = -1"
  by (simp add: key_slots_iff is_key_slot_def)

lemma in_bucket_iff: "i \<in> in_bucket t h \<longleftrightarrow> i \<in> key_slots t \<and> s_hash (slot_at t i) = h"
  by (simp add: in_bucket_def)

text \<open>A leading slot with a counter above 1 has a colliding key.\<close>

lemma find_dup_exists:
  assumes sh: "shape_ok t" and bk: "buckets_ok t" and k: "s_count (slot_at t i) > 1"
  shows "\<exists>j. find_dup t i i = Some j"
proof -
  let ?n = "length (slots t)"
  have i: "i < ?n" using k in_range_if_occupied [of t i] by auto
  have "card (in_bucket t i) > 1" using buckets_okD(3) [OF bk, of i] k by simp
  moreover have "i \<in> in_bucket t i"
    using k buckets_okD(2) [OF bk, of i] positive_key [of t i] by (simp add: in_bucket_iff)
  ultimately have "card (in_bucket t i - {i}) > 0" by (simp add: card_Diff_singleton_if)
  then have "in_bucket t i - {i} \<noteq> {}" by force
  then obtain j where "j \<in> in_bucket t i" "j \<noteq> i" by blast
  then have j: "j \<in> key_slots t" "s_hash (slot_at t j) = i" "j \<noteq> i"
    by (simp_all add: in_bucket_iff)
  then have cj: "s_count (slot_at t j) = -1"
    using key_count [OF j(1)] buckets_okD(2) [OF bk, of j] by auto
  have jn: "j < ?n" using j(1) by (rule key_slots_range)
  have next_i: "cyc_next ?n i \<noteq> i" using i jn j(3) by (auto simp: cyc_next_def)
  let ?P = "\<lambda>x. s_count (slot_at t x) = -1 \<and> s_hash (slot_at t x) = i"
  have "j \<in> set (tl (cyc_order ?n i))"
  proof -
    have "cyc_order ?n i = i # tl (cyc_order ?n i)" using i by (simp add: cyc_order_def upt_conv_Cons)
    moreover have "j \<in> set (cyc_order ?n i)" using i jn by simp
    ultimately show ?thesis using j(3) by (metis set_ConsD)
  qed
  then have "find ?P (tl (cyc_order ?n i)) \<noteq> None"
    using cj j(2) by (auto simp: find_None_iff)
  then show ?thesis
    using next_i
    by (simp add: find_dup_def Let_def shape_okD(4) [OF sh] cyc_loop_from_next [OF i next_i]
        list_loop_find split: option.split)
qed

subsection \<open>The three cases\<close>

lemma buckets_remove_only:
  assumes bk: "buckets_ok t" and ch: "chains_ok t CH" and c: "c \<in> CH" and fr: "freed (set c) t t'"
    and one: "s_count (slot_at t (hd c)) = 1"
  shows "buckets_ok t'"
proof -
  note ks = freed_keys [OF ch c fr]
  note same = freed_key_slot [OF ch c fr]
  have hash: "s_hash (slot_at t (hd c)) = hd c" using buckets_okD(2) [OF bk, of "hd c"] one by simp
  have "card (in_bucket t (hd c)) = 1" using buckets_okD(3) [OF bk, of "hd c"] one by simp
  moreover have "hd c \<in> in_bucket t (hd c)"
    using one hash positive_key [of t "hd c"] by (simp add: in_bucket_iff)
  ultimately have only: "in_bucket t (hd c) = {hd c}" by (auto simp: card_1_singleton_iff)
  show ?thesis
    unfolding buckets_ok_def
  proof (intro conjI ballI allI impI)
    fix i assume "i \<in> key_slots t'"
    then have i: "i \<in> key_slots t" "i \<noteq> hd c" by (auto simp: ks(1))
    let ?l = "s_hash (slot_at t i)"
    have l: "s_count (slot_at t ?l) > 0" by (rule buckets_okD(1) [OF bk i(1)])
    have "i \<notin> in_bucket t (hd c)" using only i by simp
    then have "?l \<noteq> hd c" using i(1) by (simp add: in_bucket_iff)
    then show "0 < s_count (slot_at t' (s_hash (slot_at t' i)))"
      using same [OF i] same [OF positive_key [OF l]] l by simp
  next
    fix i assume p: "0 < s_count (slot_at t' i)"
    then have i: "i \<in> key_slots t" "i \<noteq> hd c" using positive_key [of t' i] by (auto simp: ks(1))
    note s = same [OF i]
    note b = buckets_okD [OF bk, of i]
    show "s_hash (slot_at t' i) = i" using b(2) p s by simp
    have "hd c \<notin> in_bucket t i" using hash i by (simp add: in_bucket_iff)
    then show "s_count (slot_at t' i) = int (card (in_bucket t' i))"
      using b(3) p s by (simp add: ks(2))
    show "s_count (slot_at t' i) \<le> 32767" using b(4) p s by simp
  qed
qed

lemma buckets_remove_dup:
  assumes bk: "buckets_ok t" and ch: "chains_ok t CH" and c: "c \<in> CH"
    and dup: "s_count (slot_at t (hd c)) = -1"
  defines "h \<equiv> s_hash (slot_at t (hd c))"
  assumes fr: "freed (set c) (recounted h (s_count (slot_at t h) - 1) t) t'"
  shows "s_count (slot_at t h) > 1" "buckets_ok t'"
proof -
  let ?k = "s_count (slot_at t h)"
  have ch0: "is_chain t c" by (rule chains_okD(1) [OF ch c])
  have key: "hd c \<in> key_slots t" using is_chainD(4) [OF ch0] by (simp add: key_slots_iff)
  have pos: "?k > 0" using buckets_okD(1) [OF bk key] by (simp add: h_def)
  have hb: "h \<in> in_bucket t h" "hd c \<in> in_bucket t h" "h \<noteq> hd c"
    using pos buckets_okD(2) [OF bk pos] positive_key [OF pos] key dup
    by (auto simp: in_bucket_iff h_def)
  then have "card {h, hd c} \<le> card (in_bucket t h)" by (intro card_mono) auto
  then show k: "?k > 1" using buckets_okD(3) [OF bk pos] hb(3) by simp
  let ?t = "recounted h (?k - 1) t"
  have k1: "?k - 1 > 0" using k by simp
  note rs = recounted_slots [OF pos k1]
  have ch1: "chains_ok ?t CH" by (rule recounted_chains(1) [OF pos k1 ch])
  note ks = freed_keys [OF ch1 c fr]
  note same = freed_key_slot [OF ch1 c fr]
  show "buckets_ok t'"
    unfolding buckets_ok_def
  proof (intro conjI ballI allI impI)
    fix i assume "i \<in> key_slots t'"
    then have i: "i \<in> key_slots ?t" "i \<in> key_slots t" "i \<noteq> hd c" by (auto simp: ks(1) rs(6))
    let ?l = "s_hash (slot_at t i)"
    have l: "s_count (slot_at t ?l) > 0" by (rule buckets_okD(1) [OF bk i(2)])
    have nl: "?l \<noteq> hd c" using l dup by auto
    have hash: "s_hash (slot_at t' i) = ?l" using same [OF i(1,3)] by (simp add: rs(2))
    have "slot_at t' ?l = slot_at ?t ?l"
      using same [OF _ nl] positive_key [OF l] by (simp add: rs(6))
    then show "0 < s_count (slot_at t' (s_hash (slot_at t' i)))"
      using k l by (simp add: hash rs(2))
  next
    fix i assume p: "0 < s_count (slot_at t' i)"
    then have i: "i \<in> key_slots ?t" "i \<in> key_slots t" "i \<noteq> hd c"
      using positive_key [of t' i] by (auto simp: ks(1) rs(6))
    note s = same [OF i(1,3)]
    have pi: "s_count (slot_at t i) > 0" using p s k by (simp add: rs(2) split: if_splits)
    note b = buckets_okD [OF bk, of i]
    show "s_hash (slot_at t' i) = i" using b(2) [OF pi] s by (cases "i = h") (simp_all add: rs(2))
    show "s_count (slot_at t' i) \<le> 32767" using b(4) [OF pi] s by (cases "i = h") (simp_all add: rs(2))
    show "s_count (slot_at t' i) = int (card (in_bucket t' i))"
    proof (cases "i = h")
      case True
      then have "card (in_bucket t' i) = card (in_bucket t h) - 1" "0 < card (in_bucket t h)"
        using hb by (auto simp: ks(2) rs(7) card_gt_0_iff)
      moreover have "s_count (slot_at t' i) = ?k - 1" using s True by (simp add: rs(2))
      ultimately show ?thesis using b(3) [OF pi] by (simp add: True)
    next
      case False
      then have "hd c \<notin> in_bucket t i" by (auto simp: in_bucket_iff h_def)
      then show ?thesis using b(3) [OF pi] s False by (simp add: ks(2) rs(2,7))
    qed
  qed
qed

lemma buckets_remove_lead:
  assumes bk: "buckets_ok t" and ch: "chains_ok t CH" and c: "c \<in> CH"
    and k: "s_count (slot_at t (hd c)) > 1" and fr: "freed (set c) t t1"
    and j: "s_count (slot_at t j) = -1" "s_hash (slot_at t j) = hd c"
    and mv: "moved (hd c) j (s_count (slot_at t (hd c)) - 1) t1 t'"
    and keys: "key_slots t' = rename (hd c) j ` key_slots t1"
      "\<And>h. in_bucket t' h = rename (hd c) j ` in_bucket t1 h"
      "inj_on (rename (hd c) j) (occupied t1)"
    and hash': "\<And>x. x \<in> key_slots t1 \<Longrightarrow> s_hash (slot_at t' (rename (hd c) j x)) = s_hash (slot_at t1 x)"
  shows "buckets_ok t'"
proof -
  let ?i = "hd c" and ?k = "s_count (slot_at t (hd c))"
  note ks = freed_keys [OF ch c fr]
  note same = freed_key_slot [OF ch c fr]
  have ij: "?i \<noteq> j" using j k by auto
  have pos: "?k > 0" using k by simp
  note bi = buckets_okD [OF bk, of ?i]
  have inj: "inj_on (rename ?i j) (in_bucket t1 h)" for h
    by (rule inj_on_subset [OF keys(3)]) (auto simp: in_bucket_iff dest: subsetD [OF key_slots_occupied])
  have count: "s_count (slot_at t' x) = s_count (slot_at t x)"
    if "x \<in> key_slots t" "x \<noteq> ?i" "x \<noteq> j" for x
    using movedD(2) [OF mv, of x] same that by simp
  have count_i: "s_count (slot_at t' ?i) = ?k - 1" using movedD(2) [OF mv, of ?i] by simp
  show ?thesis
    unfolding buckets_ok_def
  proof (intro conjI ballI allI impI)
    fix i assume "i \<in> key_slots t'"
    then obtain x where x: "x \<in> key_slots t1" "i = rename ?i j x" by (auto simp: keys(1))
    then have xt: "x \<in> key_slots t" "x \<noteq> ?i" by (auto simp: ks(1))
    let ?l = "s_hash (slot_at t x)"
    have hash: "s_hash (slot_at t' i) = ?l" using hash' [OF x(1)] same [OF xt] x(2) by simp
    have l: "s_count (slot_at t ?l) > 0" by (rule buckets_okD(1) [OF bk xt(1)])
    then have "?l \<noteq> j" using j by auto
    then show "0 < s_count (slot_at t' (s_hash (slot_at t' i)))"
      using count [OF positive_key [OF l]] count_i l k by (cases "?l = ?i") (simp_all add: hash)
  next
    fix i assume p: "0 < s_count (slot_at t' i)"
    show "s_hash (slot_at t' i) = i" "s_count (slot_at t' i) = int (card (in_bucket t' i))"
      "s_count (slot_at t' i) \<le> 32767"
    proof -
      have card: "card (in_bucket t' i) = card (in_bucket t i - {?i})"
        unfolding keys(2) card_image [OF inj] by (simp add: ks(2))
      have "s_hash (slot_at t' i) = i \<and> s_count (slot_at t' i) = int (card (in_bucket t' i)) \<and>
        s_count (slot_at t' i) \<le> 32767"
      proof (cases "i = ?i")
        case True
        have "j \<in> key_slots t1" using j ij by (simp add: ks(1) key_slots_iff is_key_slot_def)
        then have "s_hash (slot_at t' ?i) = ?i"
          using hash' [of j] same [of j] j ij by (simp add: rename_def ks(1))
        moreover have "?i \<in> in_bucket t ?i"
          using bi(2) [OF pos] positive_key [OF pos] by (simp add: in_bucket_iff)
        then have "card (in_bucket t ?i - {?i}) = card (in_bucket t ?i) - 1" "0 < card (in_bucket t ?i)"
          by (auto simp: card_gt_0_iff)
        ultimately show ?thesis using bi(3,4) [OF pos] count_i True by (simp add: card [unfolded True])
      next
        case False
        have nj: "i \<noteq> j" using p movedD(2) [OF mv, of i] False by auto
        have "i \<in> key_slots t'" using p by (rule positive_key)
        then obtain x where x: "x \<in> key_slots t1" "i = rename ?i j x" by (auto simp: keys(1))
        with False nj have xi: "x = i" by (auto simp: rename_def split: if_splits)
        have it: "i \<in> key_slots t" "i \<in> key_slots t1" using x(1) unfolding xi by (simp_all add: ks(1))
        have pi: "s_count (slot_at t i) > 0" using count [OF it(1) False nj] p by simp
        note b = buckets_okD [OF bk, of i]
        have "s_hash (slot_at t' i) = s_hash (slot_at t1 i)"
          using hash' [OF it(2)] nj by (simp add: rename_def)
        then have "s_hash (slot_at t' i) = i" using same [OF it(1) False] b(2) [OF pi] by simp
        moreover have "?i \<notin> in_bucket t i" using bi(2) [OF pos] False by (simp add: in_bucket_iff)
        ultimately show ?thesis using b(3,4) [OF pi] count [OF it(1) False nj] by (simp add: card)
      qed
      then show "s_hash (slot_at t' i) = i" "s_count (slot_at t' i) = int (card (in_bucket t' i))"
        "s_count (slot_at t' i) \<le> 32767"
        by simp_all
    qed
  qed
qed

subsection \<open>The operation\<close>

text \<open>The chain of a key that is stored.\<close>

lemma stored_chain:
  assumes ok: "table_ok t" and key: "length key < 65536" and v: "table_map t (key_id t key) = Some v"
    and ch: "chains_ok t CH"
  shows "\<exists>c\<in>CH. get_idx t key (bucket t key) = Some (hd c) \<and> chain_val t c = v \<and>
    slot_id (slot_at t (hd c)) = key_id t key \<and> s_hash (slot_at t (hd c)) = bucket t key"
proof -
  obtain c where c: "c \<in> CH" "slot_id (slot_at t (hd c)) = key_id t key" "chain_val t c = v"
    using v table_map_Some [OF ch table_okD(4) [OF ok]] by blast
  have "hd c \<in> key_slots t" using c(1) key_slots_heads [OF ch] by blast
  with c(2) have "get_idx t key (bucket t key) = Some (hd c)"
    using get_idx_id [OF ok key] by blast
  moreover have "s_hash (slot_at t (hd c)) = bucket t key"
    using c(2) by (simp add: slot_id_def key_id_def Let_def)
  ultimately show ?thesis using c by blast
qed

lemma remove_case_only:
  assumes ok: "table_ok t" and ch: "chains_ok t CH" and pk: "packed t CH" and c: "c \<in> CH"
    and one: "s_count (slot_at t (hd c)) = 1"
  defines "t' \<equiv> snd (remove_data t (hd c))"
  shows "table_ok t'" "table_map t' = (table_map t)(slot_id (slot_at t (hd c)) := None)"
    "free_slots t' = free_slots t + length c" "errno t' = errno t" "same_table t t'"
proof -
  note core = remove_data_core [OF table_okD(1) [OF ok] ch pk table_okD(4,3) [OF ok] c, folded t'_def]
  have "buckets_ok t'" by (rule buckets_remove_only [OF table_okD(2) [OF ok] ch c core(1) one])
  then show "table_ok t'" by (intro table_okI [OF core(2-4)] core(5,6))
  show "same_table t t'" using core(1) by (simp add: freed_def)
qed (use remove_data_core [OF table_okD(1) [OF ok] ch pk table_okD(4,3) [OF ok] c, folded t'_def] in auto)

lemma recounted_free:
  assumes "s_count (slot_at t h) > 0" "k > 0"
  shows "free_slots (recounted h k t) = free_slots t"
    "chains_ok t CH \<Longrightarrow> ids_ok t \<Longrightarrow> table_map (recounted h k t) = table_map t"
    "ids_ok t \<Longrightarrow> ids_ok (recounted h k t)" "counters_ok t \<Longrightarrow> counters_ok (recounted h k t)"
proof -
  note rs = recounted_slots [OF assms]
  show "free_slots (recounted h k t) = free_slots t"
    using rs(1) by (simp add: free_slots_def rs(5) same_table_def)
  show ids: "ids_ok t \<Longrightarrow> ids_ok (recounted h k t)"
    by (simp add: ids_ok_def rs(4,6))
  show "counters_ok t \<Longrightarrow> counters_ok (recounted h k t)"
    by (simp add: counters_ok_def rs(5,6,8,9))
  show "table_map (recounted h k t) = table_map t" if "chains_ok t CH" "ids_ok t"
    using table_map_entries [OF that] recounted_chains(1,2) [OF assms that(1)] ids [OF that(2)]
    by (intro table_map_eqI [of _ CH]) auto
qed

lemma remove_case_dup:
  assumes ok: "table_ok t" and ch: "chains_ok t CH" and pk: "packed t CH" and c: "c \<in> CH"
    and dup: "s_count (slot_at t (hd c)) = -1"
  defines "h \<equiv> s_hash (slot_at t (hd c))"
  defines "t' \<equiv> snd (remove_data (recounted h (s_count (slot_at t h) - 1) t) (hd c))"
  shows "s_count (slot_at t h) > 1"
    "table_ok t'" "table_map t' = (table_map t)(slot_id (slot_at t (hd c)) := None)"
    "free_slots t' = free_slots t + length c" "errno t' = errno t" "same_table t t'"
proof -
  let ?k = "s_count (slot_at t h)"
  note okt = table_okD [OF ok]
  have key: "hd c \<in> key_slots t"
    using c key_slots_heads [OF ch] by blast
  have pos: "?k > 0" using buckets_okD(1) [OF okt(2) key] by (simp add: h_def)
  have k: "?k > 1"
  proof -
    have sub: "{h, hd c} \<subseteq> in_bucket t h" "h \<noteq> hd c"
      using pos buckets_okD(2) [OF okt(2) pos] positive_key [OF pos] key dup
      by (auto simp: in_bucket_iff h_def)
    then have "card {h, hd c} \<le> card (in_bucket t h)" by (intro card_mono) simp_all
    then show ?thesis using buckets_okD(3) [OF okt(2) pos] sub(2) by simp
  qed
  then show "?k > 1" .
  then have k1: "?k - 1 > 0" by simp
  let ?t = "recounted h (?k - 1) t"
  note rs = recounted_slots [OF pos k1]
  note rc = recounted_chains [OF pos k1 ch]
  note rf = recounted_free [OF pos k1]
  note core = remove_data_core [OF recounted_shape [OF pos k1 okt(1)] rc(1) rc(3) [OF pk] rf(3) [OF okt(4)]
      rf(4) [OF okt(3)] c, folded t'_def]
  have "buckets_ok t'"
    by (rule buckets_remove_dup(2) [OF okt(2) ch c dup core(1) [unfolded h_def]])
  then show "table_ok t'" by (intro table_okI [OF core(2-4)] core(5,6))
  show "table_map t' = (table_map t)(slot_id (slot_at t (hd c)) := None)"
    using core(7) by (simp add: rf(2) [OF ch okt(4)] rs(4))
  show "free_slots t' = free_slots t + length c" "errno t' = errno t"
    using core(8,9) by (simp_all add: rf(1) rs(10))
  have "same_table ?t t'" using core(1) by (simp add: freed_def)
  then show "same_table t t'" by (rule same_table_trans [OF rs(1)])
qed

lemma remove_case_lead:
  assumes ok: "table_ok t" and ch: "chains_ok t CH" and pk: "packed t CH" and c: "c \<in> CH"
    and k: "s_count (slot_at t (hd c)) > 1" and dup: "find_dup t (hd c) (hd c) = Some j"
  defines "t' \<equiv> relink_next (hd c)
      (upd_slot (hd c) (\<lambda>s. s\<lparr>s_count := to_short (s_count (slot_at t (hd c)) - 1)\<rparr>)
        (snd (remove_slot (snd (copy_slot (snd (remove_data t (hd c))) (hd c) j)) j)))"
  shows "table_ok t'" "table_map t' = (table_map t)(slot_id (slot_at t (hd c)) := None)"
    "free_slots t' = free_slots t + length c" "errno t' = errno t" "same_table t t'"
proof -
  let ?i = "hd c" and ?k = "s_count (slot_at t (hd c))"
  let ?t1 = "snd (remove_data t ?i)"
  note okt = table_okD [OF ok]
  note core = remove_data_core [OF okt(1) ch pk okt(4,3) c]
  have j: "s_count (slot_at t j) = -1" "s_hash (slot_at t j) = ?i"
    using find_dup_SomeD [OF dup] by auto
  have ji: "j \<noteq> ?i" using j k by auto
  have "j \<in> key_slots t" using j by (simp add: key_slots_iff is_key_slot_def)
  then have sj: "slot_at ?t1 j = slot_at t j" by (rule freed_key_slot [OF ch c core(1) _ ji])
  have ic: "?i \<in> set c" using is_chainD(1) [OF chains_okD(1) [OF ch c]] by simp
  then have i: "s_count (slot_at ?t1 ?i) = 0" using core(1) by (simp add: freed_def)
  have st1: "same_table t ?t1" using core(1) by (simp add: freed_def)
  have irange: "?i < length (slots ?t1)"
    using in_range_if_occupied [of t ?i] k st1 by (simp add: same_table_def)
  have pos: "?k > 0" using k by simp
  have short: "to_short (?k - 1) = ?k - 1"
    using k buckets_okD(4) [OF okt(2) pos] by (intro to_short_id) auto
  have j1: "s_count (slot_at ?t1 j) = -1" using j sj by simp
  then have j0: "s_count (slot_at ?t1 j) \<noteq> 0" by simp
  note mv = move_to_lead [OF core(2,3) i irange j1 short, folded t'_def]
  have "?k - 1 \<noteq> 0" "?k - 1 \<ge> -2" "?k - 1 = -2 \<longleftrightarrow> s_count (slot_at ?t1 j) = -2"
    using k j1 by auto
  note mc = moved_core [OF mv(1) i j0 this core(2-6) mv(2,3)]
  have hash': "s_hash (slot_at t' (rename ?i j x)) = s_hash (slot_at ?t1 x)" if "x \<in> key_slots ?t1" for x
    using that by (intro moved_id(2) [OF core(3) mv(1) i j0]) (simp add: key_slots_iff)
  have "buckets_ok t'"
    by (rule buckets_remove_lead [OF okt(2) ch c k core(1) j mv(1) mc(8,9,10) hash'])
  then show "table_ok t'" by (intro table_okI [OF mc(1-3)] mc(4,5))
  show "table_map t' = (table_map t)(slot_id (slot_at t ?i) := None)" using mc(6) core(7) by simp
  show "free_slots t' = free_slots t + length c" using mc(7) core(8) by simp
  show "errno t' = errno t" using mv(4) core(9) by simp
  show "same_table t t'" by (rule same_table_trans [OF st1 movedD(1) [OF mv(1)]])
qed

text \<open>The three cases together.\<close>

definition removes :: "qenv \<Rightarrow> bytes \<Rightarrow> bytes \<Rightarrow> qenv \<Rightarrow> bool" where
  "removes t key v t' \<longleftrightarrow> table_ok t' \<and> same_table t t' \<and>
     table_map t' = (table_map t)(key_id t key := None) \<and>
     free_slots t' = free_slots t + slots_needed (length v) \<and> errno t' = errno t"

lemma qhasharr_remove_absent:
  assumes "table_ok t" "length key < 65536" "table_map t (key_id t key) = None"
  shows "qhasharr_remove Ptr (Some key) t = (False, t\<lparr>errno := ENOENT\<rparr>)"
proof -
  have "maxslots t \<noteq> 0" using shape_okD(1) [OF table_okD(1) [OF assms(1)]] by simp
  then show ?thesis
    using get_idx_table_map [OF assms(1,2)] assms(3) by (simp add: qhasharr_remove_def Let_def)
qed

lemma qhasharr_remove_present:
  assumes ok: "table_ok t" and key: "length key < 65536" and v: "table_map t (key_id t key) = Some v"
  shows "\<exists>t'. qhasharr_remove Ptr (Some key) t = (True, t') \<and> removes t key v t'"
proof -
  note okt = table_okD [OF ok]
  obtain CH where ch: "chains_ok t CH" and pk: "packed t CH" using okt(5) by blast
  obtain c where c: "c \<in> CH" and idx: "get_idx t key (bucket t key) = Some (hd c)"
    and val: "chain_val t c = v" and id: "slot_id (slot_at t (hd c)) = key_id t key"
    and hash: "s_hash (slot_at t (hd c)) = bucket t key"
    using stored_chain [OF ok key v ch] by blast
  have len: "length c = slots_needed (length v)" using pk c val by (simp add: packed_def)
  have max: "maxslots t \<noteq> 0" using shape_okD(1) [OF okt(1)] by simp
  have rem: "removes t key v t'"
    if "table_ok t'" "table_map t' = (table_map t)(slot_id (slot_at t (hd c)) := None)"
      "free_slots t' = free_slots t + length c" "errno t' = errno t" "same_table t t'" for t'
    using that by (simp add: removes_def id len)
  have "hd c \<in> key_slots t" using c key_slots_heads [OF ch] by blast
  then consider "s_count (slot_at t (hd c)) = 1" | "s_count (slot_at t (hd c)) = -1"
    | "s_count (slot_at t (hd c)) > 1"
    using key_count [of "hd c" t] by linarith
  then show ?thesis
  proof cases
    case 1
    then have "qhasharr_remove Ptr (Some key) t = (True, snd (remove_data t (hd c)))"
      using max by (simp add: qhasharr_remove_def Let_def idx)
    with rem [OF remove_case_only [OF ok ch pk c 1]] show ?thesis by blast
  next
    case 2
    let ?h = "s_hash (slot_at t (hd c))"
    note case2 = remove_case_dup [OF ok ch pk c 2]
    have "s_count (slot_at t ?h) \<le> 32767" using buckets_okD(4) [OF okt(2), of ?h] case2(1) by simp
    then have "to_short (s_count (slot_at t ?h) - 1) = s_count (slot_at t ?h) - 1"
      using case2(1) by (intro to_short_id) auto
    then have "upd_slot ?h (\<lambda>s. s\<lparr>s_count := to_short (s_count s - 1)\<rparr>) t =
        recounted ?h (s_count (slot_at t ?h) - 1) t"
      by (simp add: recounted_def upd_slot_def)
    then have "qhasharr_remove Ptr (Some key) t =
        (True, snd (remove_data (recounted ?h (s_count (slot_at t ?h) - 1) t) (hd c)))"
      using max 2 case2(1) by (simp add: qhasharr_remove_def Let_def idx)
    with rem [OF case2(2-6)] show ?thesis by blast
  next
    case 3
    then have hc: "bucket t key = hd c" using buckets_okD(2) [OF okt(2), of "hd c"] hash by simp
    obtain j where j: "find_dup t (hd c) (hd c) = Some j"
      using find_dup_exists [OF okt(1,2) 3] by blast
    show ?thesis
      using rem [OF remove_case_lead [OF ok ch pk c 3 j]] max 3 idx j
      by (simp add: qhasharr_remove_def Let_def hc)
  qed
qed

end
