(* ===== verification/Hasharr_Put.thy ===== *)
theory Hasharr_Put
  imports Hasharr_Remove
begin

text \<open>
  \<^verbatim>\<open>qhasharr_put\<close> on a well-formed table: the three branches of the code for a key that is
  not stored (an empty slot at its bucket, a bucket with other keys, a bucket slot taken by
  an element of another bucket that has to move), then the overwriting of a stored key.
\<close>

subsection \<open>The number of keys in a bucket\<close>

definition bucket_load :: "qenv \<Rightarrow> nat \<Rightarrow> nat" where
  "bucket_load t h = card {k \<in> dom (table_map t). fst k = h}"

lemma in_bucket_load:
  assumes "table_ok t"
  shows "card (in_bucket t h) = bucket_load t h"
proof -
  note okt = table_okD [OF assms]
  obtain CH where ch: "chains_ok t CH" using okt(5) by blast
  have fst_id: "fst (slot_id (slot_at t i)) = s_hash (slot_at t i)" for i
    by (simp add: slot_id_def Let_def)
  have "{k \<in> dom (table_map t). fst k = h} = (\<lambda>i. slot_id (slot_at t i)) ` in_bucket t h"
  proof -
    have "k \<in> dom (table_map t) \<longleftrightarrow> k \<in> (\<lambda>i. slot_id (slot_at t i)) ` key_slots t" for k
      using table_map_None [OF ch okt(4), of k] by (auto simp: domIff)
    then show ?thesis by (auto simp: in_bucket_iff fst_id)
  qed
  moreover have "inj_on (\<lambda>i. slot_id (slot_at t i)) (in_bucket t h)"
    using okt(4) unfolding ids_ok_def by (rule inj_on_subset) (auto simp: in_bucket_iff)
  ultimately show ?thesis by (simp add: bucket_load_def card_image)
qed

lemma finite_table_map: "finite (dom (table_map t))"
  by (simp add: table_map_def finite_dom_map_of)

lemma bucket_load_max: "table_ok t \<Longrightarrow> bucket_load t h \<le> 32767"
proof -
  assume ok: "table_ok t"
  note bk = table_okD(2) [OF ok]
  show ?thesis
  proof (cases "s_count (slot_at t h) > 0")
    case True
    then show ?thesis
      using buckets_okD(3,4) [OF bk True] in_bucket_load [OF ok, of h] by linarith
  next
    case False
    then have "in_bucket t h = {}"
      using buckets_okD(1) [OF bk] by (auto simp: in_bucket_iff)
    then show ?thesis using in_bucket_load [OF ok, of h] by simp
  qed
qed

lemma bucket_load_delete:
  assumes "table_map t' = (table_map t)(k := None)" "k \<in> dom (table_map t)"
  shows "Suc (bucket_load t' (fst k)) = bucket_load t (fst k)"
proof -
  have "{x \<in> dom (table_map t). fst x = fst k} = insert k {x \<in> dom (table_map t'). fst x = fst k}"
    using assms by auto
  moreover have "k \<notin> {x \<in> dom (table_map t'). fst x = fst k}" using assms by auto
  moreover have "finite {x \<in> dom (table_map t'). fst x = fst k}" using finite_table_map by simp
  ultimately show ?thesis by (simp add: bucket_load_def)
qed

subsection \<open>A table with one more chain\<close>

lemma built_keys:
  assumes b: "built t c val t'"
  shows "key_slots t' = insert (hd c) (key_slots t)"
    "in_bucket t' h = (if h = s_hash (slot_at t' (hd c)) then insert (hd c) (in_bucket t h) else in_bucket t h)"
    "hd c \<notin> key_slots t" "i \<in> key_slots t \<Longrightarrow> slot_at t' i = slot_at t i"
proof -
  have ch: "is_chain t' c" by (rule builtD [OF b])
  have hdc: "hd c \<in> set c" using is_chainD(1) [OF ch] by simp
  have out: "i \<notin> set c" if "i \<in> key_slots t" for i
    using builtD(6) [OF b, of i] that key_slots_occupied [of t] by (auto simp: occupied_iff)
  show notin: "hd c \<notin> key_slots t" using out hdc by blast
  show same: "slot_at t' i = slot_at t i" if "i \<in> key_slots t" for i
    using builtD(5) [OF b out [OF that]] .
  have "i \<in> key_slots t' \<longleftrightarrow> i = hd c \<or> i \<in> key_slots t" for i
  proof (cases "i \<in> set c")
    case True
    show ?thesis
    proof (cases "i = hd c")
      case True
      then show ?thesis using is_chainD(4) [OF ch] by (simp add: key_slots_iff)
    next
      case False
      with True have "i \<in> set (tl c)" by (cases c) auto
      then have "i \<notin> key_slots t'"
        using is_chainD(5) [OF ch] by (auto simp: key_slots_iff dest: is_key_slot_count)
      with False True out show ?thesis by blast
    qed
  next
    case False
    with hdc show ?thesis using builtD(5) [OF b False] by (auto simp: key_slots_iff)
  qed
  then show ks: "key_slots t' = insert (hd c) (key_slots t)" by blast
  show "in_bucket t' h = (if h = s_hash (slot_at t' (hd c)) then insert (hd c) (in_bucket t h) else in_bucket t h)"
    using same notin by (auto simp: in_bucket_iff ks)
qed

lemma built_core:
  assumes ok: "table_ok t" and b: "built t c val t'" and len: "length c = slots_needed (length val)"
    and id: "slot_id (slot_at t' (hd c)) = k" and new: "table_map t k = None"
    and ch: "chains_ok t CH" and pk: "packed t CH"
  shows "shape_ok t'" "chains_ok t' (insert c CH)" "packed t' (insert c CH)" "counters_ok t'" "ids_ok t'"
    "table_map t' = (table_map t)(k \<mapsto> val)" "free_slots t' = free_slots t - length c"
proof -
  note okt = table_okD [OF ok]
  note ks = built_keys [OF b]
  have cc: "is_chain t' c" by (rule builtD [OF b])
  have occ: "occupied t' = occupied t \<union> set c" "occupied t \<inter> set c = {}"
    by (rule occupied_built [OF b])+
  have same: "slot_at t' x = slot_at t x" if "d \<in> CH" "x \<in> set d" for d x
    using chains_okD(4) [OF ch that] builtD(5,6) [OF b, of x] by blast
  have chain: "is_chain t' d" "chain_val t' d = chain_val t d" if "d \<in> CH" for d
    using is_chain_cong [of d t' t] chain_val_cong [of d t' t] same [OF that] chains_okD(1) [OF ch that]
    by auto
  have disj: "set d \<inter> set c = {}" if "d \<in> CH" for d
    using chains_okD(4) [OF ch that] builtD(6) [OF b] by blast
  show "shape_ok t'" by (rule builtD [OF b])
  show ch': "chains_ok t' (insert c CH)"
    unfolding chains_ok_def
  proof (intro conjI ballI impI)
    fix d assume "d \<in> insert c CH"
    then show "is_chain t' d" using cc chain by blast
  next
    fix d e assume "d \<in> insert c CH" "e \<in> insert c CH" "d \<noteq> e"
    then show "set d \<inter> set e = {}" using disj ch unfolding chains_ok_def by blast
  next
    show "\<Union> (set ` insert c CH) = occupied t'" using ch by (auto simp: occ(1) chains_ok_def)
  qed
  show "packed t' (insert c CH)"
    using pk chain len builtD(4) [OF b] by (simp add: packed_def)
  have "card (key_slots t') = Suc (card (key_slots t))" using ks(1,3) by simp
  moreover have "card (occupied t') = card (occupied t) + length c"
    using is_chainD(3) [OF cc] by (simp add: occ card_Un_disjoint distinct_card)
  ultimately show "counters_ok t'"
    using okt(3) builtD(7,8) [OF b] by (simp add: counters_ok_def)
  have neq: "slot_id (slot_at t i) \<noteq> k" if "i \<in> key_slots t" for i
    using new table_map_None [OF ch okt(4), of k] that by blast
  show ids': "ids_ok t'"
    using okt(4) neq id unfolding ids_ok_def ks(1) by (force simp: inj_on_def ks(4))
  have hd_same: "slot_at t' (hd d) = slot_at t (hd d)" if "d \<in> CH" for d
    using same [OF that] is_chainD(1) [OF chains_okD(1) [OF ch that]] by simp
  have "entry_set t' (insert c CH) = insert (k, val) (entry_set t CH)"
    using chain hd_same builtD(4) [OF b] id by (simp add: entry_set_def)
  moreover have "(k, v) \<notin> entry_set t CH" for v
    using table_map_entries [OF ch okt(4), of k v] new by simp
  ultimately show "table_map t' = (table_map t)(k \<mapsto> val)"
    using table_map_entries [OF ch okt(4)]
    by (intro table_map_eqI [OF ch' ids']) auto
  show "free_slots t' = free_slots t - length c" by (rule free_built [OF b])
qed

text \<open>A new key in an empty bucket, whose slot is free.\<close>

lemma buckets_new_lead:
  assumes bk: "buckets_ok t" and b: "built t c val t'" and h: "s_hash (slot_at t' (hd c)) = hd c"
    and one: "s_count (slot_at t' (hd c)) = 1"
  shows "buckets_ok t'"
proof -
  note ks = built_keys [OF b]
  have "s_count (slot_at t (hd c)) = 0"
    using builtD(6) [OF b, of "hd c"] is_chainD(1) [OF builtD(3) [OF b]] by simp
  then have "in_bucket t (hd c) = {}"
    using buckets_okD(1) [OF bk] by (force simp: in_bucket_iff)
  then have bucket: "in_bucket t' x = (if x = hd c then {hd c} else in_bucket t x)" for x
    using ks(2) h by auto
  show ?thesis
    unfolding buckets_ok_def
  proof (intro conjI ballI allI impI)
    fix i assume i: "i \<in> key_slots t'"
    show "0 < s_count (slot_at t' (s_hash (slot_at t' i)))"
    proof (cases "i = hd c")
      case True
      then show ?thesis using h one by simp
    next
      case False
      with i have it: "i \<in> key_slots t" by (simp add: ks(1))
      note l = buckets_okD(1) [OF bk it]
      then show ?thesis using ks(4) [OF it] ks(4) [OF positive_key [OF l]] by simp
    qed
  next
    fix i assume p: "0 < s_count (slot_at t' i)"
    have "s_hash (slot_at t' i) = i \<and> s_count (slot_at t' i) = int (card (in_bucket t' i)) \<and>
      s_count (slot_at t' i) \<le> 32767"
    proof (cases "i = hd c")
      case True
      then show ?thesis using h one by (simp add: bucket)
    next
      case False
      then have it: "i \<in> key_slots t" using positive_key [OF p] by (simp add: ks(1))
      have pi: "s_count (slot_at t i) > 0" using p ks(4) [OF it] by simp
      then show ?thesis using buckets_okD(2-4) [OF bk pi] ks(4) [OF it] False by (simp add: bucket)
    qed
    then show "s_hash (slot_at t' i) = i" "s_count (slot_at t' i) = int (card (in_bucket t' i))"
      "s_count (slot_at t' i) \<le> 32767"
      by simp_all
  qed
qed

text \<open>A new key in a bucket that has a leading slot \<open>h\<close>: its counter is incremented.\<close>

lemma buckets_new_dup:
  assumes bk: "buckets_ok t" and b: "built t c val t'" and h: "s_hash (slot_at t' (hd c)) = h"
    and dup: "s_count (slot_at t' (hd c)) = -1" and lead: "s_count (slot_at t h) > 0"
    and k: "s_count (slot_at t h) < 32767"
  shows "buckets_ok (recounted h (s_count (slot_at t h) + 1) t')"
proof -
  let ?k = "s_count (slot_at t h)"
  note ks = built_keys [OF b]
  have lk: "h \<in> key_slots t" using lead by (rule positive_key)
  have lead': "s_count (slot_at t' h) > 0" and k1: "?k + 1 > 0" using ks(4) [OF lk] lead by auto
  note rs = recounted_slots [OF lead' k1]
  have bucket: "in_bucket (recounted h (?k + 1) t') x =
      (if x = h then insert (hd c) (in_bucket t x) else in_bucket t x)" for x
    using ks(2) h by (simp add: rs(7))
  have notin: "hd c \<notin> in_bucket t x" for x using ks(3) by (simp add: in_bucket_iff)
  show ?thesis
    unfolding buckets_ok_def
  proof (intro conjI ballI allI impI)
    fix i assume "i \<in> key_slots (recounted h (?k + 1) t')"
    then have i: "i = hd c \<or> i \<in> key_slots t" by (simp add: rs(6) ks(1))
    have hash: "s_hash (slot_at (recounted h (?k + 1) t') i) = s_hash (slot_at t' i)"
      by (simp add: rs(2))
    show "0 < s_count (slot_at (recounted h (?k + 1) t') (s_hash (slot_at (recounted h (?k + 1) t') i)))"
    proof (cases "i = hd c")
      case True
      show ?thesis unfolding hash unfolding True h using k1 by (simp add: rs(2))
    next
      case False
      with i have it: "i \<in> key_slots t" by simp
      note l = buckets_okD(1) [OF bk it]
      then show ?thesis
        unfolding hash using ks(4) [OF it] ks(4) [OF positive_key [OF l]] k1 by (simp add: rs(2))
    qed
  next
    fix i assume p: "0 < s_count (slot_at (recounted h (?k + 1) t') i)"
    then have it: "i \<in> key_slots t" using positive_key [OF p] dup lk ks(3)
      by (auto simp: rs(2,6) ks(1) split: if_splits)
    have pi: "s_count (slot_at t i) > 0" using p lead ks(4) [OF it] by (simp add: rs(2) split: if_splits)
    note b = buckets_okD(2-4) [OF bk pi]
    have "s_hash (slot_at (recounted h (?k + 1) t') i) = i" using b(1) ks(4) [OF it] by (cases "i = h") (simp_all add: rs(2))
    moreover have "s_count (slot_at (recounted h (?k + 1) t') i) =
        int (card (in_bucket (recounted h (?k + 1) t') i))"
    proof -
      have "s_count (slot_at (recounted h (?k + 1) t') i) = (if i = h then ?k + 1 else s_count (slot_at t i))"
        using ks(4) [OF it] by (simp add: rs(2))
      moreover have "card (in_bucket (recounted h (?k + 1) t') i) =
          (if i = h then Suc (card (in_bucket t i)) else card (in_bucket t i))"
        using notin by (simp add: bucket)
      ultimately show ?thesis using b(2) by (cases "i = h") simp_all
    qed
    moreover have "s_count (slot_at (recounted h (?k + 1) t') i) \<le> 32767"
      using b(3) ks(4) [OF it] k by (cases "i = h") (simp_all add: rs(2))
    ultimately show "s_hash (slot_at (recounted h (?k + 1) t') i) = i"
      "s_count (slot_at (recounted h (?k + 1) t') i) = int (card (in_bucket (recounted h (?k + 1) t') i))"
      "s_count (slot_at (recounted h (?k + 1) t') i) \<le> 32767"
      by simp_all
  qed
qed

text \<open>Moving an element that does not lead its bucket.\<close>

lemma moved_table:
  assumes ok: "table_ok t" and mv: "moved i j (s_count (slot_at t j)) t t'"
    and i: "s_count (slot_at t i) = 0" and j: "s_count (slot_at t j) = -1 \<or> s_count (slot_at t j) = -2"
    and fields: "usedslots t' = usedslots t" "num t' = num t"
  shows "table_ok t'" "table_map t' = table_map t" "free_slots t' = free_slots t"
proof -
  note okt = table_okD [OF ok]
  obtain CH where ch: "chains_ok t CH" and pk: "packed t CH" using okt(5) by blast
  let ?k = "s_count (slot_at t j)"
  have ij: "i \<noteq> j" and j0: "?k \<noteq> 0" and k: "?k \<noteq> 0" "?k \<ge> -2" "?k = -2 \<longleftrightarrow> ?k = -2"
    using i j by auto
  note mc = moved_core [OF mv i j0 k okt(1) ch pk okt(4,3) fields]
  have count: "s_count (slot_at t' x) = s_count (slot_at t x)" if "x \<noteq> i" "x \<noteq> j" for x
    using movedD(2) [OF mv, of x] that by simp
  have hash: "s_hash (slot_at t' (rename i j x)) = s_hash (slot_at t x)" if "x \<in> key_slots t" for x
    using that by (intro moved_id(2) [OF ch mv i j0]) (simp add: key_slots_iff)
  have neg: "s_count (slot_at t' i) < 0" "s_count (slot_at t' j) = 0"
    using movedD(2) [OF mv] ij j by auto
  have inj: "inj_on (rename i j) (in_bucket t x)" for x
    by (rule inj_on_subset [OF mc(10)]) (auto simp: in_bucket_iff dest: subsetD [OF key_slots_occupied])
  have "buckets_ok t'"
    unfolding buckets_ok_def
  proof (intro conjI ballI allI impI)
    fix y assume "y \<in> key_slots t'"
    then obtain x where x: "x \<in> key_slots t" "y = rename i j x" by (auto simp: mc(8))
    have l: "s_count (slot_at t (s_hash (slot_at t x))) > 0" by (rule buckets_okD(1) [OF okt(2) x(1)])
    then have "s_hash (slot_at t x) \<noteq> i" "s_hash (slot_at t x) \<noteq> j" using i j by auto
    then show "0 < s_count (slot_at t' (s_hash (slot_at t' y)))"
      using l count hash [OF x(1)] by (simp add: x(2))
  next
    fix y assume p: "0 < s_count (slot_at t' y)"
    then have y: "y \<noteq> i" "y \<noteq> j" using neg by auto
    have py: "s_count (slot_at t y) > 0" using p count [OF y] by simp
    note b = buckets_okD(2-4) [OF okt(2) py]
    have "s_hash (slot_at t' y) = y"
      using hash [OF positive_key [OF py]] b(1) y by (simp add: rename_def)
    moreover have "card (in_bucket t' y) = card (in_bucket t y)"
      unfolding mc(9) by (rule card_image [OF inj])
    ultimately show "s_hash (slot_at t' y) = y" "s_count (slot_at t' y) = int (card (in_bucket t' y))"
      "s_count (slot_at t' y) \<le> 32767"
      using b count [OF y] by simp_all
  qed
  then show "table_ok t'" by (intro table_okI [OF mc(1-3)] mc(4,5))
  show "table_map t' = table_map t" "free_slots t' = free_slots t" by (rule mc)+
qed

subsection \<open>A key that is not stored\<close>

text \<open>What a call of the insertion leaves, by whether it succeeds; \<open>m\<close> is the map without the key.\<close>

definition stores :: "qenv \<Rightarrow> bytes \<Rightarrow> bytes \<Rightarrow> nat \<Rightarrow> qenv \<Rightarrow> bool" where
  "stores t key val free t' \<longleftrightarrow> table_ok t' \<and> same_table t t' \<and>
     table_map t' = (table_map t)(key_id t key \<mapsto> val) \<and> free_slots t' = free - slots_needed (length val)"

definition no_room :: "qenv \<Rightarrow> bytes \<Rightarrow> nat \<Rightarrow> qenv \<Rightarrow> bool" where
  "no_room t key free t' \<longleftrightarrow> table_ok t' \<and> same_table t t' \<and>
     table_map t' = (table_map t)(key_id t key := None) \<and> free_slots t' = free \<and> errno t' = ENOBUFS"

lemma same_table_key_id: "same_table t t' \<Longrightarrow> key_id t' key = key_id t key"
  by (simp add: same_table_def key_id_def bucket_def)

lemma stores_cong:
  "same_table t u \<Longrightarrow> (table_map u)(key_id t key := None) = (table_map t)(key_id t key := None) \<Longrightarrow>
   stores u key val free t' \<Longrightarrow> stores t key val free t'"
  unfolding stores_def using same_table_trans same_table_key_id
  by (metis fun_upd_upd)

lemma no_room_cong:
  "same_table t u \<Longrightarrow> (table_map u)(key_id t key := None) = (table_map t)(key_id t key := None) \<Longrightarrow>
   no_room u key free t' \<Longrightarrow> no_room t key free t'"
  unfolding no_room_def using same_table_trans same_table_key_id by metis

lemma restored_no_room:
  assumes "table_ok t" "restored t t'" "errno t' = ENOBUFS" "table_map t (key_id t key) = None"
  shows "no_room t key (free_slots t) t'"
proof -
  have "table_ok t'" "table_map t' = table_map t" using restored_table [OF assms(1,2)] by auto
  moreover have "free_slots t' = free_slots t" "same_table t t'"
    using assms(2) by (simp_all add: restored_def same_table_def free_slots_def)
  moreover have "(table_map t)(key_id t key := None) = table_map t" using assms(4) by (auto simp: fun_upd_idem)
  ultimately show ?thesis using assms(3) by (simp add: no_room_def)
qed

text \<open>The bucket's slot is empty.\<close>

lemma put_case_lead:
  assumes ok: "table_ok t" and key: "length key < 65536" and val: "val \<noteq> []"
    and new: "table_map t (key_id t key) = None" and empty: "s_count (slot_at t (bucket t key)) = 0"
  shows "if slots_needed (length val) \<le> free_slots t
    then \<exists>t'. put_data t (bucket t key) (bucket t key) key val 1 = (True, t') \<and> stores t key val (free_slots t) t'
    else \<exists>t'. put_data t (bucket t key) (bucket t key) key val 1 = (False, t') \<and> no_room t key (free_slots t) t'"
proof -
  let ?h = "bucket t key"
  note okt = table_okD [OF ok]
  obtain CH where ch: "chains_ok t CH" and pk: "packed t CH" using okt(5) by blast
  note pd = put_data_built [OF okt(1) empty bucket_less [OF okt(1)] val _ key refl, of 1, simplified]
  show ?thesis
  proof (cases "slots_needed (length val) \<le> free_slots t")
    case True
    with pd obtain c t' where put: "put_data t ?h ?h key val 1 = (True, t')" and b: "built t c val t'"
      and c: "hd c = ?h" "length c = slots_needed (length val)" "s_count (slot_at t' ?h) = 1"
      and id: "slot_id (slot_at t' ?h) = key_id t key"
      by auto
    note core = built_core [OF ok b c(2) _ new ch pk, unfolded c(1), OF id]
    have "s_hash (slot_at t' ?h) = ?h" using id by (simp add: slot_id_def key_id_def Let_def)
    then have "buckets_ok t'" using buckets_new_lead [OF okt(2) b] c by simp
    then have "table_ok t'" by (intro table_okI [OF core(1-3)] core(4,5))
    then have "stores t key val (free_slots t) t'"
      using core(6,7) c(2) builtD(2) [OF b] by (simp add: stores_def)
    with True put show ?thesis by auto
  next
    case False
    with pd restored_no_room [OF ok _ _ new] show ?thesis by auto
  qed
qed

text \<open>The bucket has other keys.\<close>

lemma put_case_dup:
  assumes ok: "table_ok t" and key: "length key < 65536" and val: "val \<noteq> []"
    and new: "table_map t (key_id t key) = None" and lead: "s_count (slot_at t (bucket t key)) > 0"
    and k: "bucket_load t (bucket t key) < 32767" and i: "find_empty t (bucket t key) = Some i"
  defines "inc \<equiv> upd_slot (bucket t key) (\<lambda>s. s\<lparr>s_count := to_short (s_count s + 1)\<rparr>)"
  shows "if slots_needed (length val) \<le> free_slots t
    then \<exists>t'. put_data t i (bucket t key) key val (-1) = (True, t') \<and> stores t key val (free_slots t) (inc t')
    else \<exists>t'. put_data t i (bucket t key) key val (-1) = (False, t') \<and> no_room t key (free_slots t) t'"
proof -
  let ?h = "bucket t key"
  note okt = table_okD [OF ok]
  obtain CH where ch: "chains_ok t CH" and pk: "packed t CH" using okt(5) by blast
  note empty = find_empty_Some [OF okt(1) i]
  note pd = put_data_built [OF okt(1) empty(2,1) val _ key refl, of "-1", simplified]
  show ?thesis
  proof (cases "slots_needed (length val) \<le> free_slots t")
    case True
    with pd obtain c t' where put: "put_data t i ?h key val (-1) = (True, t')" and b: "built t c val t'"
      and c: "hd c = i" "length c = slots_needed (length val)" "s_count (slot_at t' i) = -1"
      and id: "slot_id (slot_at t' i) = key_id t key"
      by auto
    note core = built_core [OF ok b c(2) _ new ch pk, unfolded c(1), OF id]
    let ?k = "s_count (slot_at t ?h)"
    have same: "slot_at t' ?h = slot_at t ?h" by (rule built_keys(4) [OF b positive_key [OF lead]])
    have hash: "s_hash (slot_at t' (hd c)) = ?h" using id by (simp add: c(1) slot_id_def key_id_def Let_def)
    have load: "?k < 32767" using k buckets_okD(3) [OF okt(2) lead] in_bucket_load [OF ok, of ?h] by linarith
    have lead': "s_count (slot_at t' ?h) > 0" "?k + 1 > 0" using same lead by auto
    have "to_short (?k + 1) = ?k + 1" using lead load by (intro to_short_id) auto
    then have inc: "inc t' = recounted ?h (?k + 1) t'"
      by (simp add: inc_def recounted_def upd_slot_def same)
    note rs = recounted_slots [OF lead'] and rc = recounted_chains [OF lead' core(2)]
      and rf = recounted_free [OF lead']
    have "buckets_ok (inc t')"
      using buckets_new_dup [OF okt(2) b hash _ lead load] c by (simp add: inc)
    then have "table_ok (inc t')"
      unfolding inc
      by (intro table_okI [OF recounted_shape [OF lead' core(1)] rc(1) rc(3) [OF core(3)]] rf(3) [OF core(5)]
          rf(4) [OF core(4)])
    then have "stores t key val (free_slots t) (inc t')"
      using core(6,7) c(2) same_table_trans [OF builtD(2) [OF b] rs(1)] rf(1,2) core(2,5)
      by (simp add: stores_def inc)
    with True put show ?thesis by auto
  next
    case False
    with pd restored_no_room [OF ok _ _ new] show ?thesis by auto
  qed
qed

lemma full_iff:
  assumes "table_ok t"
  shows "usedslots t \<ge> maxslots t \<longleftrightarrow> free_slots t = 0"
proof -
  note okt = table_okD [OF assms]
  have "usedslots t = int (card (occupied t))" using okt(3) by (simp add: counters_ok_def)
  then show ?thesis using shape_okD(3) [OF okt(1)] by (auto simp: free_slots_def)
qed

lemma put_new:
  assumes ok: "table_ok t" and key: "length key < 65536" and val: "val \<noteq> []"
    and new: "table_map t (key_id t key) = None" and load: "bucket_load t (bucket t key) < 32767"
    and free: "free_slots t \<noteq> 0"
  shows "if slots_needed (length val) \<le> free_slots t
    then \<exists>t'. put_body key val t = (True, t') \<and> stores t key val (free_slots t) t'
    else \<exists>t'. put_body key val t = (False, t') \<and> no_room t key (free_slots t) t'"
proof -
  let ?h = "bucket t key"
  note okt = table_okD [OF ok]
  have max: "maxslots t \<noteq> 0" using shape_okD(1) [OF okt(1)] by simp
  have used: "\<not> usedslots t \<ge> maxslots t" using free full_iff [OF ok] by simp
  have idx: "get_idx t key ?h = None" using get_idx_table_map [OF ok key] new by simp
  have find: "\<exists>i. find_empty t s = Some i" for s
    using free_slots_0 [OF okt(1), of s] free by auto
  consider (empty) "s_count (slot_at t ?h) = 0" | (lead) "s_count (slot_at t ?h) > 0"
    | (other) "s_count (slot_at t ?h) = -1 \<or> s_count (slot_at t ?h) = -2"
    using shape_okD(7) [OF okt(1), of ?h] by linarith
  then show ?thesis
  proof cases
    case empty
    then have "put_body key val t = put_data t ?h ?h key val 1"
      using max used by (subst put_body.simps) (simp add: Let_def)
    then show ?thesis using put_case_lead [OF ok key val new empty] by simp
  next
    case lead
    obtain i where i: "find_empty t ?h = Some i" using find by blast
    have "put_body key val t = (case put_data t i ?h key val (-1) of (ok, t') \<Rightarrow>
        if \<not> ok then (False, t') else (True, upd_slot ?h (\<lambda>s. s\<lparr>s_count := to_short (s_count s + 1)\<rparr>) t'))"
      using max used lead idx i by (subst put_body.simps) (simp add: Let_def)
    then show ?thesis using put_case_dup [OF ok key val new lead load i] by auto
  next
    case other
    obtain i where i: "find_empty t (?h + 1) = Some i" using find by blast
    note e = find_empty_Some [OF okt(1) i]
    define u where "u = relink_moved i (snd (remove_slot (snd (copy_slot t i ?h)) ?h))"
    obtain CH where ch: "chains_ok t CH" using okt(5) by blast
    note mv = move_to_empty [OF okt(1) ch e(2,1) other, folded u_def]
    note mt = moved_table [OF ok mv(1) e(2) other mv(2,3)]
    have st: "same_table t u" by (rule movedD(1) [OF mv(1)])
    then have h: "bucket u key = ?h" "key_id u key = key_id t key"
      by (simp_all add: same_table_def bucket_def same_table_key_id [OF st])
    have "i \<noteq> ?h" using e(2) other by auto
    then have empty: "s_count (slot_at u (bucket u key)) = 0"
      using movedD(2) [OF mv(1), of ?h] h by simp
    have new': "table_map u (key_id u key) = None" using new mt(2) h by simp
    have "put_body key val t = put_data u ?h ?h key val 1"
      using max used other i by (subst put_body.simps) (auto simp: Let_def u_def)
    then have put: "put_body key val t = put_data u (bucket u key) (bucket u key) key val 1"
      by (simp add: h)
    have "stores u key val (free_slots u) t' \<Longrightarrow> stores t key val (free_slots t) t'"
      "no_room u key (free_slots u) t' \<Longrightarrow> no_room t key (free_slots t) t'" for t'
      using stores_cong [OF st, of key] no_room_cong [OF st, of key] mt(2,3) by auto
    then show ?thesis
      using put_case_lead [OF mt(1) key val new' empty] by (auto simp: put mt(3) split: if_splits)
  qed
qed

subsection \<open>The operation\<close>

text \<open>
  A full table refuses every insertion. Otherwise the slots of an old value count as free,
  and the insertion succeeds if and only if the new value fits; if it does not, a stored
  key has lost its old value.
\<close>

definition old_slots :: "qenv \<Rightarrow> bytes \<Rightarrow> nat" where
  "old_slots t key =
     (case table_map t (key_id t key) of None \<Rightarrow> 0 | Some v \<Rightarrow> slots_needed (length v))"

lemma put_body_full: "table_ok t \<Longrightarrow> free_slots t = 0 \<Longrightarrow> put_body key val t = (False, t\<lparr>errno := ENOBUFS\<rparr>)"
  using full_iff [of t] shape_okD(1) [OF table_okD(1), of t] by (subst put_body.simps) simp

lemma put_body_spec:
  assumes ok: "table_ok t" and key: "length key < 65536" and val: "val \<noteq> []"
    and load: "key_id t key \<in> dom (table_map t) \<or> bucket_load t (bucket t key) < 32767"
    and free: "free_slots t \<noteq> 0"
  shows "if slots_needed (length val) \<le> free_slots t + old_slots t key
    then \<exists>t'. put_body key val t = (True, t') \<and> stores t key val (free_slots t + old_slots t key) t'
    else \<exists>t'. put_body key val t = (False, t') \<and> no_room t key (free_slots t + old_slots t key) t'"
proof (cases "table_map t (key_id t key)")
  case None
  then show ?thesis using put_new [OF ok key val None _ free] load by (auto simp: old_slots_def)
next
  case (Some v)
  let ?h = "bucket t key"
  obtain u where u: "qhasharr_remove Ptr (Some key) t = (True, u)" and rm: "removes t key v u"
    using qhasharr_remove_present [OF ok key Some] by blast
  have st: "same_table t u" and oku: "table_ok u" and map: "table_map u = (table_map t)(key_id t key := None)"
    and fu: "free_slots u = free_slots t + slots_needed (length v)"
    using rm by (auto simp: removes_def)
  have h: "bucket u key = ?h" "key_id u key = key_id t key"
    using st by (simp_all add: same_table_def bucket_def same_table_key_id [OF st])
  have fst: "fst (key_id t key) = ?h" by (simp add: key_id_def)
  have "key_id t key \<in> dom (table_map t)" using Some by blast
  then have load_u: "bucket_load u (bucket u key) < 32767"
    using bucket_load_delete [OF map, unfolded fst] bucket_load_max [OF ok, of ?h] by (simp add: h)
  have new: "table_map u (key_id u key) = None" by (simp add: h map)
  note okt = table_okD [OF ok]
  obtain i where i: "get_idx t key ?h = Some i"
    using get_idx_table_map [OF ok key] Some by fastforce
  have lead: "s_count (slot_at t ?h) > 0"
    by (rule get_idx_Some(3) [OF okt(1,2) bucket_less [OF okt(1)] i])
  have "maxslots t \<noteq> 0" "\<not> usedslots t \<ge> maxslots t"
    using shape_okD(1) [OF okt(1)] free full_iff [OF ok] by auto
  then have put: "put_body key val t = put_body key val u"
    using lead i u by (subst put_body.simps) (simp add: Let_def)
  have "stores u key val (free_slots u) t' \<Longrightarrow> stores t key val (free_slots u) t'"
    "no_room u key (free_slots u) t' \<Longrightarrow> no_room t key (free_slots u) t'" for t'
    using stores_cong [OF st, of key] no_room_cong [OF st, of key] map by auto
  then show ?thesis
    using put_new [OF oku key val new load_u] fu free Some
    by (auto simp: put old_slots_def split: if_splits)
qed

end
