(* ===== verification/Kv_Store.thy ===== *)
theory Kv_Store
  imports Shm_Prelude
begin

text \<open>
  What a fixed-size key-value store promises its clients: it behaves like a finite map
  whose values share a bounded number of units of space. The abstract operations, the
  interface as a locale (a store that keeps an invariant and whose operations return what
  the abstract ones return) and what follows for any sequence of commands.
\<close>

subsection \<open>The bounded map\<close>

definition used_by :: "('v \<Rightarrow> nat) \<Rightarrow> ('i \<rightharpoonup> 'v) \<Rightarrow> nat" where
  "used_by cost m = (\<Sum>k\<in>dom m. cost (the (m k)))"

text \<open>
  Insertion is refused when no unit is free; otherwise the old value is given up first, so
  that it is lost if the new one does not fit.
\<close>

definition bm_put :: "('v \<Rightarrow> nat) \<Rightarrow> nat \<Rightarrow> 'i \<Rightarrow> 'v \<Rightarrow> ('i \<rightharpoonup> 'v) \<Rightarrow> bool \<times> ('i \<rightharpoonup> 'v)" where
  "bm_put cost cap k v m =
     (if used_by cost m \<ge> cap then (False, m)
      else if used_by cost (m(k := None)) + cost v \<le> cap then (True, m(k \<mapsto> v))
      else (False, m(k := None)))"

definition bm_remove :: "'i \<Rightarrow> ('i \<rightharpoonup> 'v) \<Rightarrow> bool \<times> ('i \<rightharpoonup> 'v)" where
  "bm_remove k m = (m k \<noteq> None, m(k := None))"

lemma used_by_empty [simp]: "used_by cost Map.empty = 0"
  by (simp add: used_by_def)

lemma used_by_delete:
  assumes "finite (dom m)"
  shows "used_by cost (m(k := None)) + (case m k of None \<Rightarrow> 0 | Some v \<Rightarrow> cost v) = used_by cost m"
proof (cases "m k")
  case None
  then have "m(k := None) = m" by auto
  with None show ?thesis by simp
next
  case (Some v)
  then have "k \<in> dom m" by auto
  moreover have "(\<Sum>x\<in>dom m - {k}. cost (the ((m(k := None)) x))) = (\<Sum>x\<in>dom m - {k}. cost (the (m x)))"
    by (intro sum.cong) auto
  ultimately show ?thesis
    using Some sum.remove [OF assms, of k "\<lambda>x. cost (the (m x))"] by (simp add: used_by_def)
qed

lemma bm_put_other: "k' \<noteq> k \<Longrightarrow> snd (bm_put cost cap k v m) k' = m k'"
  by (simp add: bm_put_def)

lemma bm_remove_other: "k' \<noteq> k \<Longrightarrow> snd (bm_remove k m) k' = m k'"
  by (simp add: bm_remove_def)

subsection \<open>Commands\<close>

datatype ('k, 'v) cmd = Put_cmd 'k 'v | Remove_cmd 'k | Get_cmd 'k

datatype 'v reply = Done bool | Found "'v option"

fun cmd_key :: "('k, 'v) cmd \<Rightarrow> 'k" where
  "cmd_key (Put_cmd k v) = k"
| "cmd_key (Remove_cmd k) = k"
| "cmd_key (Get_cmd k) = k"

fun cmd_ok :: "('k \<Rightarrow> bool) \<Rightarrow> ('v \<Rightarrow> bool) \<Rightarrow> ('k, 'v) cmd \<Rightarrow> bool" where
  "cmd_ok okk okv (Put_cmd k v) \<longleftrightarrow> okk k \<and> okv v"
| "cmd_ok okk okv (Remove_cmd k) \<longleftrightarrow> okk k"
| "cmd_ok okk okv (Get_cmd k) \<longleftrightarrow> okk k"

fun bm_step :: "('v \<Rightarrow> nat) \<Rightarrow> nat \<Rightarrow> ('k \<Rightarrow> 'i) \<Rightarrow> ('k, 'v) cmd \<Rightarrow> ('i \<rightharpoonup> 'v) \<Rightarrow> 'v reply \<times> ('i \<rightharpoonup> 'v)" where
  "bm_step cost cap ident (Put_cmd k v) m = map_prod Done id (bm_put cost cap (ident k) v m)"
| "bm_step cost cap ident (Remove_cmd k) m = map_prod Done id (bm_remove (ident k) m)"
| "bm_step cost cap ident (Get_cmd k) m = (Found (m (ident k)), m)"

lemma bm_step_other: "ident (cmd_key c) \<noteq> k \<Longrightarrow> snd (bm_step cost cap ident c m) k = m k"
  by (cases c) (simp_all add: bm_put_other bm_remove_other)

lemma bm_run_other:
  "\<forall>c\<in>set cs. ident (cmd_key c) \<noteq> k \<Longrightarrow> snd (run_cmds (bm_step cost cap ident) cs m) k = m k"
proof (induction cs arbitrary: m)
  case (Cons c cs)
  then show ?case
    using bm_step_other [of ident c k cost cap m] by (cases "bm_step cost cap ident c m") simp
qed simp

subsection \<open>The interface\<close>

locale kv_store =
  fixes inv :: "'s \<Rightarrow> bool" and content :: "'s \<Rightarrow> ('i \<rightharpoonup> 'v)" and ident :: "'k \<Rightarrow> 'i"
    and okk :: "'k \<Rightarrow> bool" and okv :: "'v \<Rightarrow> bool" and cost :: "'v \<Rightarrow> nat" and cap :: nat
    and put :: "'k \<Rightarrow> 'v \<Rightarrow> 's \<Rightarrow> bool \<times> 's" and get :: "'k \<Rightarrow> 's \<Rightarrow> 'v option \<times> 's"
    and remove :: "'k \<Rightarrow> 's \<Rightarrow> bool \<times> 's"
  assumes put_law: "inv s \<Longrightarrow> okk k \<Longrightarrow> okv v \<Longrightarrow>
      inv (snd (put k v s)) \<and> map_prod id content (put k v s) = bm_put cost cap (ident k) v (content s)"
    and remove_law: "inv s \<Longrightarrow> okk k \<Longrightarrow>
      inv (snd (remove k s)) \<and> map_prod id content (remove k s) = bm_remove (ident k) (content s)"
    and get_law: "inv s \<Longrightarrow> okk k \<Longrightarrow>
      inv (snd (get k s)) \<and> map_prod id content (get k s) = (content s (ident k), content s)"
begin

definition exec :: "('k, 'v) cmd \<Rightarrow> 's \<Rightarrow> 'v reply \<times> 's" where
  "exec c s =
     (case c of
        Put_cmd k v \<Rightarrow> map_prod Done id (put k v s)
      | Remove_cmd k \<Rightarrow> map_prod Done id (remove k s)
      | Get_cmd k \<Rightarrow> map_prod Found id (get k s))"

lemma exec_law:
  assumes "inv s" "cmd_ok okk okv c"
  shows "inv (snd (exec c s))" "map_prod id content (exec c s) = bm_step cost cap ident c (content s)"
  using assms put_law [of s] remove_law [of s] get_law [of s]
  by (cases c; force simp: exec_def prod_eq_iff)+

lemma run_law:
  "inv s \<Longrightarrow> \<forall>c\<in>set cs. cmd_ok okk okv c \<Longrightarrow>
   inv (snd (run_cmds exec cs s)) \<and>
   map_prod id content (run_cmds exec cs s) = run_cmds (bm_step cost cap ident) cs (content s)"
proof (induction cs arbitrary: s)
  case (Cons c cs)
  obtain r s' where e: "exec c s = (r, s')" by (cases "exec c s")
  have inv: "inv s'" and step: "bm_step cost cap ident c (content s) = (r, content s')"
    using exec_law [OF Cons.prems(1), of c] Cons.prems(2) e by auto
  have "\<forall>c\<in>set cs. cmd_ok okk okv c" using Cons.prems(2) by simp
  note ih = Cons.IH [OF inv this]
  show ?case
    by (simp add: e step conjunct1 [OF ih] conjunct2 [OF ih, symmetric] prod.map_comp o_def)
qed simp

text \<open>A value that was stored is read back after any commands on other keys.\<close>

lemma last_write:
  assumes "inv s" "okk k" "okv v" "put k v s = (True, s')"
    and cs: "\<forall>c\<in>set cs. cmd_ok okk okv c \<and> ident (cmd_key c) \<noteq> ident k"
  shows "fst (get k (snd (run_cmds exec cs s'))) = Some v"
proof -
  have inv: "inv s'" and "content s' (ident k) = Some v"
    using put_law [OF assms(1-3)] assms(4) by (auto simp: bm_put_def split: if_splits)
  moreover have run: "inv (snd (run_cmds exec cs s'))"
    "content (snd (run_cmds exec cs s')) = snd (run_cmds (bm_step cost cap ident) cs (content s'))"
    using run_law [OF inv, of cs] cs by (auto simp: prod_eq_iff)
  moreover have "snd (run_cmds (bm_step cost cap ident) cs (content s')) (ident k) = content s' (ident k)"
    using cs by (intro bm_run_other) auto
  ultimately show ?thesis using get_law [OF run(1) assms(2)] by (simp add: prod_eq_iff)
qed

text \<open>A removed key is not found after any commands on other keys.\<close>

lemma stays_removed:
  assumes "inv s" "okk k"
    and cs: "\<forall>c\<in>set cs. cmd_ok okk okv c \<and> ident (cmd_key c) \<noteq> ident k"
  shows "fst (get k (snd (run_cmds exec cs (snd (remove k s))))) = None"
proof -
  let ?s = "snd (remove k s)"
  have inv: "inv ?s" and "content ?s (ident k) = None"
    using remove_law [OF assms(1,2)] by (auto simp: bm_remove_def prod_eq_iff)
  moreover have run: "inv (snd (run_cmds exec cs ?s))"
    "content (snd (run_cmds exec cs ?s)) = snd (run_cmds (bm_step cost cap ident) cs (content ?s))"
    using run_law [OF inv, of cs] cs by (auto simp: prod_eq_iff)
  moreover have "snd (run_cmds (bm_step cost cap ident) cs (content ?s)) (ident k) = content ?s (ident k)"
    using cs by (intro bm_run_other) auto
  ultimately show ?thesis using get_law [OF run(1) assms(2)] by (simp add: prod_eq_iff)
qed

end

end
