(* ===== verification/Hasharr_Spec.thy ===== *)
theory Hasharr_Spec
  imports Hasharr_Put Kv_Store
begin

text \<open>
  What the public operations of the hash table promise: creation gives an empty table with
  the number of slots the memory was computed for, every operation keeps the invariant and
  acts on the stored map as specified, iteration visits every entry once, and the table
  implements the bounded map of theory Kv_Store.
\<close>

subsection \<open>Creation\<close>

lemma slot_at_replicate [simp]:
  "slot_at (t\<lparr>maxslots := m, usedslots := u, num := n, slots := replicate k zero_slot\<rparr>) i = zero_slot"
  "slot_at (t\<lparr>usedslots := u, num := n, slots := replicate k zero_slot\<rparr>) i = zero_slot"
  by (simp_all add: slot_at_def)

lemma all_empty:
  assumes "\<And>i. slot_at t i = zero_slot" "maxslots t = int (length (slots t))"
    "0 < maxslots t" "maxslots t < 2147483648" "usedslots t = 0" "num t = 0"
  shows "table_ok t" "table_map t = Map.empty" "occupied t = {}" "free_slots t = length (slots t)"
proof -
  have occ: "occupied t = {}" by (simp add: occupied_def assms(1))
  have keys: "key_slots t = {}" using key_slots_occupied [of t] occ by simp
  have ch: "chains_ok t {}" by (simp add: chains_ok_def occ)
  have "slot_shape zero_slot" by (simp add: slot_shape_def zero_slot_def)
  then have "shape_ok t" using assms by (simp add: shape_ok_def)
  moreover have "buckets_ok t" by (simp add: buckets_ok_def keys assms(1))
  moreover have "counters_ok t" "ids_ok t" by (simp_all add: counters_ok_def ids_ok_def occ keys assms(5,6))
  ultimately show "table_ok t" by (intro table_okI [OF _ ch]) (simp_all add: packed_def)
  have "ids_ok t" by (simp add: ids_ok_def keys)
  then show "table_map t = Map.empty"
    by (intro table_map_eqI [OF ch]) (simp_all add: entry_set_def)
  show "occupied t = {}" by (rule occ)
  show "free_slots t = length (slots t)" by (simp add: free_slots_def occ)
qed

lemma qhasharr_creates:
  assumes "1 \<le> n" "n < 2147483648"
  shows "\<exists>t'. qhasharr Ptr (qhasharr_calculate_memsize n) t = (Ptr, t') \<and> table_ok t' \<and>
    table_map t' = Map.empty \<and> length (slots t') = nat n \<and> maxslots t' = n \<and> free_slots t' = nat n"
proof -
  have n: "uint (word_of_int n :: u64) = n"
    using assms by (simp add: unsigned_of_int take_bit_int_eq_self)
  have "uint (SIZEOF_SLOT * word_of_int n :: u64) = 260 * n"
    using assms by (simp add: uint_mult_lem [THEN iffD1] n uint_word_ariths)
  then have size: "uint (qhasharr_calculate_memsize n - SIZEOF_TABLE) = 260 * n"
    by (simp add: qhasharr_calculate_memsize_def)
  have big: "uint (qhasharr_calculate_memsize n) = 12 + 260 * n"
    using assms by (simp add: qhasharr_calculate_memsize_def uint_word_ariths n)
  have slots: "to_int32 (uint ((qhasharr_calculate_memsize n - SIZEOF_TABLE) div SIZEOF_SLOT)) = n"
    using assms by (simp add: uint_div size)
  have gt: "\<not> qhasharr_calculate_memsize n \<le> SIZEOF_TABLE"
    using assms by (simp add: word_le_def big)
  let ?t = "t\<lparr>maxslots := n, usedslots := 0, num := 0, slots := replicate (nat n) zero_slot\<rparr>"
  have "qhasharr Ptr (qhasharr_calculate_memsize n) t = (Ptr, ?t)"
    using assms gt by (simp add: qhasharr_def Let_def slots)
  then show ?thesis
    using assms all_empty [of ?t] by simp
qed

lemma qhasharr_rejects:
  "qhasharr NULL memsize t = (NULL, t)"
  "memsize < SIZEOF_TABLE + SIZEOF_SLOT \<Longrightarrow> fst (qhasharr Ptr memsize t) = NULL"
proof -
  assume small: "memsize < SIZEOF_TABLE + SIZEOF_SLOT"
  show "fst (qhasharr Ptr memsize t) = NULL"
  proof (cases "memsize \<le> SIZEOF_TABLE")
    case False
    then have "uint (memsize - SIZEOF_TABLE) = uint memsize - 12"
      by (simp add: uint_sub_lem [THEN iffD1] word_le_def)
    moreover have "uint memsize < 272" using small by (simp add: word_less_def)
    ultimately have "uint ((memsize - SIZEOF_TABLE) div SIZEOF_SLOT) = 0"
      using False by (simp add: uint_div word_le_def)
    then show ?thesis by (simp add: qhasharr_def Let_def)
  qed (simp add: qhasharr_def Let_def)
qed (simp add: qhasharr_def)

subsection \<open>Lookup\<close>

lemma qhasharr_exist_spec:
  assumes "table_ok t" "length key < 65536"
  shows "qhasharr_exist Ptr (Some key) t = (table_map t (key_id t key) \<noteq> None, t)"
  using get_idx_table_map [OF assms] shape_okD(1) [OF table_okD(1) [OF assms(1)]]
  by (auto simp: qhasharr_exist_def)

lemma qhasharr_get_spec:
  assumes ok: "table_ok t" and key: "length key < 65536"
  shows "qhasharr_get alloc Ptr (Some key) t =
    (case table_map t (key_id t key) of
       None \<Rightarrow> (None, t\<lparr>errno := ENOENT\<rparr>)
     | Some v \<Rightarrow> if alloc (length v) then (Some v, t) else (None, t\<lparr>errno := ENOMEM\<rparr>))"
proof -
  note okt = table_okD [OF ok]
  have max: "maxslots t \<noteq> 0" using shape_okD(1) [OF okt(1)] by simp
  show ?thesis
  proof (cases "table_map t (key_id t key)")
    case None
    then show ?thesis using get_idx_table_map [OF assms] max by (simp add: qhasharr_get_def)
  next
    case (Some v)
    obtain CH where ch: "chains_ok t CH" using okt(5) by blast
    obtain c where c: "c \<in> CH" "get_idx t key (bucket t key) = Some (hd c)" "chain_val t c = v"
      using stored_chain [OF ok key Some ch] by blast
    show ?thesis
      using get_data_chain [OF okt(1) chains_okD(1) [OF ch c(1)], of alloc] c max Some
      by (simp add: qhasharr_get_def)
  qed
qed

subsection \<open>Clearing and counting\<close>

lemma qhasharr_clear_spec:
  assumes ok: "table_ok t"
  shows "table_ok (qhasharr_clear Ptr t)" "table_map (qhasharr_clear Ptr t) = Map.empty"
    "same_table t (qhasharr_clear Ptr t)" "free_slots (qhasharr_clear Ptr t) = length (slots t)"
proof -
  note okt = table_okD [OF ok]
  note sh = shape_okD(1-4) [OF okt(1)]
  have "table_ok (qhasharr_clear Ptr t) \<and> table_map (qhasharr_clear Ptr t) = Map.empty \<and>
    same_table t (qhasharr_clear Ptr t) \<and> free_slots (qhasharr_clear Ptr t) = length (slots t)"
  proof (cases "usedslots t = 0")
    case True
    then have occ: "occupied t = {}" using okt(3) by (simp add: counters_ok_def)
    then have "key_slots t = {}" using key_slots_occupied [of t] by simp
    moreover obtain CH where ch: "chains_ok t CH" using okt(5) by blast
    ultimately have "table_map t k = None" for k
      using table_map_None [OF ch okt(4), of k] by simp
    then have "table_map t = Map.empty" by blast
    then show ?thesis using True ok occ by (auto simp: qhasharr_clear_def free_slots_def)
  next
    case False
    let ?t = "t\<lparr>usedslots := 0, num := 0, slots := replicate (nat (maxslots t)) zero_slot\<rparr>"
    have "qhasharr_clear Ptr t = ?t" using False sh(4) by (simp add: qhasharr_clear_def)
    then show ?thesis using sh all_empty [of ?t] by (simp add: same_table_def)
  qed
  then show "table_ok (qhasharr_clear Ptr t)" "table_map (qhasharr_clear Ptr t) = Map.empty"
    "same_table t (qhasharr_clear Ptr t)" "free_slots (qhasharr_clear Ptr t) = length (slots t)"
    by blast+
qed

lemma qhasharr_size_spec:
  assumes ok: "table_ok t"
  shows "qhasharr_size Ptr t =
    (int (card (dom (table_map t))), Some (int (length (slots t)), int (length (slots t) - free_slots t)))"
proof -
  note okt = table_okD [OF ok]
  obtain CH where ch: "chains_ok t CH" using okt(5) by blast
  have "dom (table_map t) = (\<lambda>i. slot_id (slot_at t i)) ` key_slots t"
  proof -
    have "k \<in> dom (table_map t) \<longleftrightarrow> k \<in> (\<lambda>i. slot_id (slot_at t i)) ` key_slots t" for k
      using table_map_None [OF ch okt(4), of k] by (auto simp: domIff)
    then show ?thesis by blast
  qed
  then have "card (dom (table_map t)) = card (key_slots t)"
    using okt(4) by (simp add: ids_ok_def card_image)
  moreover have "card (occupied t) \<le> length (slots t)" using card_mono [OF _ occupied_sub, of t] by simp
  ultimately show ?thesis
    using okt(3) shape_okD(3) [OF okt(1)] by (simp add: qhasharr_size_def counters_ok_def free_slots_def)
qed

text \<open>The occupied slots are those the stored values need.\<close>

lemma table_used:
  assumes ok: "table_ok t"
  shows "card (occupied t) = used_by (\<lambda>v. slots_needed (length v)) (table_map t)"
proof -
  note okt = table_okD [OF ok]
  obtain CH where ch: "chains_ok t CH" and pk: "packed t CH" using okt(5) by blast
  let ?id = "\<lambda>c. slot_id (slot_at t (hd c))"
  have key: "hd c \<in> key_slots t" if "c \<in> CH" for c using that key_slots_heads [OF ch] by blast
  have inj_hd: "inj_on hd CH" using chain_unique_head [OF ch] by (auto simp: inj_on_def)
  have "finite (hd ` CH)" using finite_key_slots [of t] unfolding key_slots_heads [OF ch] .
  then have fin: "finite CH" using inj_hd by (simp add: finite_image_iff)
  have inj: "inj_on ?id CH"
    using okt(4) inj_hd key by (fastforce simp: inj_on_def ids_ok_def)
  have map: "table_map t (?id c) = Some (chain_val t c)" if "c \<in> CH" for c
    using table_map_Some [OF ch okt(4)] that by blast
  have "k \<in> dom (table_map t) \<longleftrightarrow> k \<in> ?id ` CH" for k
    using table_map_Some [OF ch okt(4), of k] by blast
  then have dom: "dom (table_map t) = ?id ` CH" by blast
  have "card (occupied t) = card (\<Union> (set ` CH))" using ch by (simp add: chains_ok_def)
  also have "\<dots> = (\<Sum>c\<in>CH. card (set c))"
    using ch fin by (intro card_UN_disjoint) (auto simp: chains_ok_def)
  also have "\<dots> = (\<Sum>c\<in>CH. slots_needed (length (chain_val t c)))"
    using pk is_chainD(3) [OF chains_okD(1) [OF ch]] by (intro sum.cong) (simp_all add: distinct_card packed_def)
  also have "\<dots> = used_by (\<lambda>v. slots_needed (length v)) (table_map t)"
    by (simp add: used_by_def dom sum.reindex [OF inj] map)
  finally show ?thesis .
qed

subsection \<open>The table implements a bounded map\<close>

text \<open>The identity of a key in a table of \<open>n\<close> slots.\<close>

definition key_ident :: "nat \<Rightarrow> bytes \<Rightarrow> key_id" where
  "key_ident n key =
     (unat (murmur3_hash key) mod n, take KEYSIZE key, length key,
      if length key > KEYSIZE then md5_digest key else [])"

lemma key_id_ident: "shape_ok t \<Longrightarrow> key_id t key = key_ident (length (slots t)) key"
  using shape_okD(1-4) [of t] by (simp add: key_id_def key_ident_def bucket_def)

text \<open>Keys of at most 96 bytes are told apart by their bytes alone.\<close>

lemma key_ident_inj:
  assumes "length a \<le> KEYSIZE" "key_ident n a = key_ident n b"
  shows "a = b"
  using assms by (auto simp: key_ident_def)

definition value_slots :: "bytes \<Rightarrow> nat" where
  "value_slots v = slots_needed (length v)"

definition hash_inv :: "nat \<Rightarrow> qenv \<Rightarrow> bool" where
  "hash_inv n t \<longleftrightarrow> table_ok t \<and> length (slots t) = n \<and> n \<le> 32767"

lemma free_used:
  assumes "table_ok t"
  shows "free_slots t = length (slots t) - used_by value_slots (table_map t)"
    "used_by value_slots (table_map t) \<le> length (slots t)"
  using table_used [OF assms] card_mono [OF _ occupied_sub, of t]
  by (simp_all add: free_slots_def value_slots_def [abs_def])

lemma old_slots_used:
  "table_ok t \<Longrightarrow> used_by value_slots ((table_map t)(key_id t key := None)) + old_slots t key =
   used_by value_slots (table_map t)"
  using used_by_delete [OF finite_table_map, of value_slots t "key_id t key"]
  by (simp add: old_slots_def value_slots_def split: option.splits)

lemma load_small:
  assumes ok: "table_ok t" and n: "length (slots t) \<le> 32767" and free: "free_slots t \<noteq> 0"
  shows "bucket_load t h < 32767"
proof -
  have "card (in_bucket t h) \<le> card (key_slots t)"
    by (intro card_mono) (auto simp: in_bucket_iff)
  also have "\<dots> \<le> card (occupied t)" by (intro card_mono key_slots_occupied) simp
  also have "\<dots> < length (slots t)" using free by (simp add: free_slots_def)
  finally show ?thesis using n in_bucket_load [OF ok, of h] by simp
qed

text \<open>The bucket of the key can take one more key.\<close>

definition load_ok :: "qenv \<Rightarrow> bytes \<Rightarrow> bool" where
  "load_ok t key \<longleftrightarrow> key_id t key \<in> dom (table_map t) \<or> bucket_load t (bucket t key) < 32767"

lemma put_bounded:
  assumes ok: "table_ok t" and key: "length key < 65536" and val: "val \<noteq> []" and load: "load_ok t key"
  shows "table_ok (snd (qhasharr_put Ptr (Some key) (Some val) t))"
    "same_table t (snd (qhasharr_put Ptr (Some key) (Some val) t))"
    "map_prod id table_map (qhasharr_put Ptr (Some key) (Some val) t) =
     bm_put value_slots (length (slots t)) (key_id t key) val (table_map t)"
    "\<not> fst (qhasharr_put Ptr (Some key) (Some val) t) \<Longrightarrow>
     errno (snd (qhasharr_put Ptr (Some key) (Some val) t)) = ENOBUFS"
proof -
  let ?n = "length (slots t)"
  let ?r = "qhasharr_put Ptr (Some key) (Some val) t"
  note free = free_used [OF ok]
  have put: "?r = put_body key val t" by (simp add: qhasharr_put_def)
  have "table_ok (snd ?r) \<and> same_table t (snd ?r) \<and>
    map_prod id table_map ?r = bm_put value_slots ?n (key_id t key) val (table_map t) \<and>
    (\<not> fst ?r \<longrightarrow> errno (snd ?r) = ENOBUFS)"
  proof (cases "free_slots t = 0")
    case True
    then have "used_by value_slots (table_map t) \<ge> ?n" using free by simp
    then show ?thesis using put_body_full [OF ok True, of key val] ok by (simp add: put bm_put_def)
  next
    case False
    let ?used = "used_by value_slots ((table_map t)(key_id t key := None))"
    have lt: "used_by value_slots (table_map t) < ?n" using False free by simp
    note spec = put_body_spec [OF ok key val load [unfolded load_ok_def] False]
    have fits: "slots_needed (length val) \<le> free_slots t + old_slots t key \<longleftrightarrow> ?used + value_slots val \<le> ?n"
      using old_slots_used [OF ok, of key] free lt by (auto simp: value_slots_def)
    show ?thesis
    proof (cases "?used + value_slots val \<le> ?n")
      case True
      then obtain t' where "put_body key val t = (True, t')" "stores t key val (free_slots t + old_slots t key) t'"
        using spec fits by auto
      then show ?thesis using True lt by (simp add: put bm_put_def stores_def)
    next
      case nofit: False
      then obtain t' where "put_body key val t = (False, t')" "no_room t key (free_slots t + old_slots t key) t'"
        using spec fits by auto
      then show ?thesis using nofit lt by (simp add: put bm_put_def no_room_def)
    qed
  qed
  then show "table_ok (snd ?r)" "same_table t (snd ?r)"
    "map_prod id table_map ?r = bm_put value_slots ?n (key_id t key) val (table_map t)"
    "\<not> fst ?r \<Longrightarrow> errno (snd ?r) = ENOBUFS"
    by blast+
qed

lemma put_refines:
  assumes inv: "hash_inv n t" and key: "length key < 65536" and val: "val \<noteq> []"
  shows "hash_inv n (snd (qhasharr_put Ptr (Some key) (Some val) t))"
    "map_prod id table_map (qhasharr_put Ptr (Some key) (Some val) t) =
     bm_put value_slots n (key_ident n key) val (table_map t)"
proof -
  have ok: "table_ok t" and n: "length (slots t) = n" "n \<le> 32767" using inv by (auto simp: hash_inv_def)
  have id: "key_ident n key = key_id t key" using key_id_ident [OF table_okD(1) [OF ok]] n by simp
  let ?r = "qhasharr_put Ptr (Some key) (Some val) t"
  have "hash_inv n (snd ?r) \<and> map_prod id table_map ?r = bm_put value_slots n (key_ident n key) val (table_map t)"
  proof (cases "free_slots t = 0")
    case True
    then have "used_by value_slots (table_map t) \<ge> n" using free_used [OF ok] n by simp
    then show ?thesis
      using put_body_full [OF ok True, of key val] inv
      by (simp add: qhasharr_put_def bm_put_def hash_inv_def)
  next
    case False
    then have "load_ok t key" using load_small [OF ok _ False] n by (simp add: load_ok_def)
    note b = put_bounded [OF ok key val this]
    show ?thesis using b(1-3) n id by (simp add: hash_inv_def same_table_def)
  qed
  then show "hash_inv n (snd ?r)" "map_prod id table_map ?r = bm_put value_slots n (key_ident n key) val (table_map t)"
    by blast+
qed

lemma remove_refines:
  assumes inv: "hash_inv n t" and key: "length key < 65536"
  shows "hash_inv n (snd (qhasharr_remove Ptr (Some key) t))"
    "map_prod id table_map (qhasharr_remove Ptr (Some key) t) = bm_remove (key_ident n key) (table_map t)"
proof -
  have ok: "table_ok t" and n: "length (slots t) = n" "n \<le> 32767" using inv by (auto simp: hash_inv_def)
  have id: "key_ident n key = key_id t key" using key_id_ident [OF table_okD(1) [OF ok]] n by simp
  have "hash_inv n (snd (qhasharr_remove Ptr (Some key) t)) \<and>
    map_prod id table_map (qhasharr_remove Ptr (Some key) t) = bm_remove (key_id t key) (table_map t)"
  proof (cases "table_map t (key_id t key)")
    case None
    then have "(table_map t)(key_id t key := None) = table_map t" by (simp add: fun_upd_idem)
    then show ?thesis
      using qhasharr_remove_absent [OF ok key None] None inv by (simp add: bm_remove_def hash_inv_def)
  next
    case (Some v)
    then show ?thesis
      using qhasharr_remove_present [OF ok key Some] n
      by (auto simp: bm_remove_def removes_def hash_inv_def same_table_def)
  qed
  then show "hash_inv n (snd (qhasharr_remove Ptr (Some key) t))"
    "map_prod id table_map (qhasharr_remove Ptr (Some key) t) = bm_remove (key_ident n key) (table_map t)"
    by (simp_all add: id)
qed

lemma get_refines:
  assumes inv: "hash_inv n t" and key: "length key < 65536"
  shows "hash_inv n (snd (qhasharr_get (\<lambda>_. True) Ptr (Some key) t))"
    "map_prod id table_map (qhasharr_get (\<lambda>_. True) Ptr (Some key) t) =
     (table_map t (key_ident n key), table_map t)"
proof -
  have ok: "table_ok t" and n: "length (slots t) = n" using inv by (auto simp: hash_inv_def)
  have id: "key_ident n key = key_id t key" using key_id_ident [OF table_okD(1) [OF ok]] n by simp
  show "hash_inv n (snd (qhasharr_get (\<lambda>_. True) Ptr (Some key) t))"
    "map_prod id table_map (qhasharr_get (\<lambda>_. True) Ptr (Some key) t) =
     (table_map t (key_ident n key), table_map t)"
    using inv by (simp_all add: qhasharr_get_spec [OF ok key] id hash_inv_def split: option.split)
qed

interpretation hm: kv_store "hash_inv n" table_map "key_ident n" "\<lambda>k. length k < 65536" "\<lambda>v. v \<noteq> []"
    value_slots n
    "\<lambda>k v. qhasharr_put Ptr (Some k) (Some v)" "\<lambda>k. qhasharr_get (\<lambda>_. True) Ptr (Some k)"
    "\<lambda>k. qhasharr_remove Ptr (Some k)"
  for n
  by unfold_locales (intro conjI put_refines remove_refines get_refines; assumption)+

text \<open>The commands of theory Kv_Store on the table.\<close>

fun hash_step :: "(bytes, bytes) cmd \<Rightarrow> qenv \<Rightarrow> bytes reply \<times> qenv" where
  "hash_step (Put_cmd k v) t = map_prod Done id (qhasharr_put Ptr (Some k) (Some v) t)"
| "hash_step (Remove_cmd k) t = map_prod Done id (qhasharr_remove Ptr (Some k) t)"
| "hash_step (Get_cmd k) t = map_prod Found id (qhasharr_get (\<lambda>_. True) Ptr (Some k) t)"

lemma hash_step_exec: "hash_step = hm.exec"
proof (intro ext)
  fix c t
  show "hash_step c t = hm.exec c t" by (cases c) (simp_all add: hm.exec_def)
qed

subsection \<open>Iteration\<close>

text \<open>
  The loop the comment of \<^verbatim>\<open>qhasharr_getnext\<close> describes: start at index 0 and call until
  it fails; at most one call more than there are slots.
\<close>

fun hash_walk :: "nat \<Rightarrow> nat \<Rightarrow> qenv \<Rightarrow> (bytes \<times> bytes) list \<times> qenv" where
  "hash_walk 0 i t = ([], t)"
| "hash_walk (Suc n) i t =
     (case qhasharr_getnext (\<lambda>_. True) Ptr i t of
        (None, _, t') \<Rightarrow> ([], t')
      | (Some obj, i', t') \<Rightarrow> map_prod (Cons obj) id (hash_walk n i' t'))"

definition slot_entry :: "qenv \<Rightarrow> nat \<Rightarrow> bytes \<times> bytes" where
  "slot_entry t i =
     (fst (snd (slot_id (slot_at t i))), chain_val t (chain_of t (length (slots t)) i))"

lemma getnext_step:
  assumes ok: "table_ok t"
  shows "getnext_loop (\<lambda>_. True) t i =
    (if i < length (slots t)
     then if is_key_slot (slot_at t i) then (Some (slot_entry t i), Suc i, t)
          else getnext_loop (\<lambda>_. True) t (Suc i)
     else (None, i, t\<lparr>errno := ENOENT\<rparr>))"
proof (cases "i < length (slots t)")
  case True
  note okt = table_okD [OF ok]
  note sh = shape_okD [OF okt(1)]
  have lt: "int i < maxslots t" using True sh(3) by simp
  show ?thesis
  proof (cases "is_key_slot (slot_at t i)")
    case True
    obtain CH where ch: "chains_ok t CH" using okt(5) by blast
    obtain c where c: "c \<in> CH" "hd c = i" using chain_head [OF ch True] by blast
    have cc: "is_chain t c" by (rule chains_okD(1) [OF ch c(1)])
    have get: "get_data (\<lambda>_. True) t (Some i) = (Some (chain_val t (chain_of t (length (slots t)) i)), t)"
      using get_data_chain [OF okt(1) cc, of "\<lambda>_. True"] chain_of_chain [OF cc] c(2) by simp
    have "length (pair_key (s_data (slot_at t i))) = KEYSIZE" using sh(6) [of i] by (simp add: pair_key_def)
    then have name: "take (if pair_keylen (s_data (slot_at t i)) > KEYSIZE then KEYSIZE
        else pair_keylen (s_data (slot_at t i))) (pair_key (s_data (slot_at t i))) =
        fst (snd (slot_id (slot_at t i)))"
      by (simp add: slot_id_def Let_def)
    have nz: "\<not> (s_count (slot_at t i) = 0 \<or> s_count (slot_at t i) = -2)"
      using True by (auto dest: is_key_slot_count)
    show ?thesis
      unfolding getnext_loop.simps [of _ t i] Let_def
      using lt \<open>i < length (slots t)\<close> True nz get name by (simp add: slot_entry_def)
  next
    case False
    then have "s_count (slot_at t i) = 0 \<or> s_count (slot_at t i) = -2"
      using is_key_slot_cases [OF sh(7)] by blast
    then show ?thesis
      unfolding getnext_loop.simps [of _ t i]
      using lt True False by simp
  qed
next
  case False
  then show ?thesis
    using shape_okD(3) [OF table_okD(1) [OF ok]] by (subst getnext_loop.simps) simp
qed

lemma getnext_loop_find:
  "table_ok t \<Longrightarrow> getnext_loop (\<lambda>_. True) t i =
   (case filter (\<lambda>j. is_key_slot (slot_at t j)) [i..<length (slots t)] of
      [] \<Rightarrow> (None, max i (length (slots t)), t\<lparr>errno := ENOENT\<rparr>)
    | j # _ \<Rightarrow> (Some (slot_entry t j), Suc j, t))"
proof (induction "length (slots t) - i" arbitrary: i)
  case 0
  then show ?case by (subst getnext_step) auto
next
  case (Suc d)
  then have "i < length (slots t)" "d = length (slots t) - Suc i"
    "max (Suc i) (length (slots t)) = max i (length (slots t))" by auto
  then show ?case
    using Suc.hyps(1) [of "Suc i"] Suc.prems by (subst getnext_step) (auto simp: upt_conv_Cons split: list.splits)
qed

lemma filter_upt_next:
  "filter P [i..<n] = j # js \<Longrightarrow> i \<le> j \<and> j < n \<and> js = filter P [Suc j..<n]"
proof (induction "n - i" arbitrary: i)
  case (Suc d)
  then have "[i..<n] = i # [Suc i..<n]" "d = n - Suc i" by (simp_all add: upt_conv_Cons)
  with Suc.prems Suc.hyps(1) [of "Suc i"] Suc.hyps(2) show ?case by (fastforce split: if_splits)
qed simp

lemma hash_walk_from:
  "table_ok t \<Longrightarrow> length (slots t) - i < n \<Longrightarrow>
   hash_walk n i t =
   (map (slot_entry t) (filter (\<lambda>j. is_key_slot (slot_at t j)) [i..<length (slots t)]), t\<lparr>errno := ENOENT\<rparr>)"
proof (induction n arbitrary: i)
  case (Suc n)
  show ?case
  proof (cases "filter (\<lambda>j. is_key_slot (slot_at t j)) [i..<length (slots t)]")
    case Nil
    then show ?thesis by (simp add: qhasharr_getnext_def getnext_loop_find [OF Suc.prems(1)])
  next
    case (Cons j js)
    from filter_upt_next [OF Cons] Suc.prems(2)
    have "js = filter (\<lambda>j. is_key_slot (slot_at t j)) [Suc j..<length (slots t)]"
      "length (slots t) - Suc j < n" by auto
    with Suc.IH [of "Suc j"] Suc.prems(1) Cons show ?thesis
      by (simp add: qhasharr_getnext_def getnext_loop_find)
  qed
qed simp

lemma hash_walk_entries:
  assumes "table_ok t" "length (slots t) < n"
  shows "hash_walk n 0 t = (map (\<lambda>(k, v). (fst (snd k), v)) (entries t), t\<lparr>errno := ENOENT\<rparr>)"
  using hash_walk_from [OF assms(1), of 0 n] assms(2)
  by (simp add: entries_def slot_entry_def [abs_def] o_def)

lemma entries_map: "table_ok t \<Longrightarrow> distinct (map fst (entries t)) \<and> table_map t = map_of (entries t)"
  using table_okD(4) [of t]
  by (auto simp: table_map_def entries_def distinct_map ids_ok_def key_slots_def inj_on_def o_def)

subsection \<open>Integers as strings\<close>

lemma print_nat_digits: "\<forall>b\<in>set (print_nat n). is_digit b"
proof (induction n rule: print_nat.induct)
  case (1 n)
  have digit: "is_digit (of_nat (48 + k))" if "k < 10" for k
  proof -
    have "k \<in> {0,1,2,3,4,5,6,7,8,9}" using that by auto
    then show ?thesis by (auto simp: is_digit_def)
  qed
  show ?case
    using 1 digit [of n] digit [of "n mod 10"] by (subst print_nat.simps) auto
qed

lemma print_nat_nonempty [simp]: "print_nat n \<noteq> []"
  by (subst print_nat.simps) simp

lemma digit_value: "k < 10 \<Longrightarrow> unat (of_nat (48 + k) :: byte) - 48 = k"
  by (simp add: unsigned_of_nat take_bit_nat_eq_self del: of_nat_add)

lemma read_print_nat:
  "foldl (\<lambda>n b. 10 * n + (unat b - 48)) 0 (print_nat n) = n"
proof (induction n rule: print_nat.induct)
  case (1 n)
  show ?case
    using 1 digit_value [of n] digit_value [of "n mod 10"] by (subst print_nat.simps) auto
qed

lemma is_digit_0: "\<not> is_digit 0" "\<not> is_digit 45" "\<not> is_digit 43"
  by (simp_all add: is_digit_def)

lemma read_nat_print: "read_nat (print_nat n @ 0 # rest) = n"
proof -
  have "takeWhile is_digit (print_nat n @ 0 # rest) = print_nat n"
    using print_nat_digits [of n] by (simp add: takeWhile_append2 is_digit_0)
  then show ?thesis by (simp add: read_nat_def read_print_nat)
qed

lemma digit_not_space: "is_digit b \<Longrightarrow> \<not> is_space b \<and> b \<noteq> 45 \<and> b \<noteq> 43"
  by (auto simp: is_digit_def is_space_def word_le_nat_alt unat_arith_simps)

lemma atoll_print: "atoll (print_int i @ [0]) = i"
proof (cases "i < 0")
  case True
  have "\<not> is_space 45" by (simp add: is_space_def)
  then show ?thesis using True by (simp add: atoll_def print_int_def read_nat_print)
next
  case False
  obtain b bs where b: "print_nat (nat i) = b # bs" by (cases "print_nat (nat i)") auto
  then have "is_digit b" using print_nat_digits [of "nat i"] by simp
  note nb = digit_not_space [OF this]
  have "read_nat ((b # bs) @ [0]) = nat i" using read_nat_print [of "nat i" "[]"] b by simp
  then show ?thesis using False nb b by (simp add: atoll_def print_int_def)
qed

end
