(* ===== verification/Hasharr_Props.thy ===== *)
theory Hasharr_Props
  imports Hasharr_Spec
begin

text \<open>
  The properties of the hash table of \<^verbatim>\<open>shmutil/qhasharr.c\<close>, each with a witness on a
  table of three slots made by its creator.
\<close>

subsection \<open>A sample table\<close>

definition sample_env :: qenv where
  "sample_env = \<lparr>maxslots = 0, usedslots = 0, num = 0, slots = [], errno = E_CLEAR\<rparr>"

definition sample_table :: qenv where
  "sample_table = snd (qhasharr Ptr (qhasharr_calculate_memsize 3) sample_env)"

lemma sample_table:
  "table_ok sample_table" "table_map sample_table = Map.empty" "length (slots sample_table) = 3"
  "maxslots sample_table = 3" "free_slots sample_table = 3" "hash_inv 3 sample_table"
  using qhasharr_creates [of 3 sample_env] by (auto simp: sample_table_def hash_inv_def)

lemma sample_slots [simp]: "slots_needed 1 = 1" "slots_needed (Suc 0) = 1"
  by (simp_all add: slots_needed_def)

lemma sample_load: "bucket_load sample_table h = 0"
  by (simp add: bucket_load_def sample_table(2))

subsection \<open>Properties\<close>

text \<open>
  C1: Every sequence of insertions, removals and lookups on a well-formed table returns what
  the bounded map returns and leaves the table well-formed with the map's content: keys
  below 65536 bytes, values not empty, at most 32767 slots.
\<close>

theorem hash_refines_bounded_map:
  assumes "hash_inv n t" "\<forall>c\<in>set cs. cmd_ok (\<lambda>k. length k < 65536) (\<lambda>v. v \<noteq> []) c"
  shows "hash_inv n (snd (run_cmds hash_step cs t)) \<and>
    map_prod id table_map (run_cmds hash_step cs t) =
    run_cmds (bm_step value_slots n (key_ident n)) cs (table_map t)"
  using hm.run_law [OF assms] by (simp add: hash_step_exec)

lemma sample_run:
  "run_cmds (bm_step value_slots 3 (key_ident 3)) [Put_cmd [1] [7], Get_cmd [1]] Map.empty =
   ([Done True, Found (Some [7])], [key_ident 3 [1] \<mapsto> [7]])"
  by (simp add: bm_put_def value_slots_def)

theorem hash_refines_bounded_map_witness:
  "fst (run_cmds hash_step [Put_cmd [1] [7], Get_cmd [1]] sample_table) =
   [Done True, Found (Some [7])]"
proof -
  have "map_prod id table_map (run_cmds hash_step [Put_cmd [1] [7], Get_cmd [1]] sample_table) =
      run_cmds (bm_step value_slots 3 (key_ident 3)) [Put_cmd [1] [7], Get_cmd [1]] (table_map sample_table)"
    by (rule conjunct2 [OF hash_refines_bounded_map [OF sample_table(6)]]) simp
  then show ?thesis unfolding sample_table(2) sample_run by (simp add: prod_eq_iff)
qed

text \<open>
  C2: An insertion (of a value that is not empty, under a key shorter than 65536 bytes that is
  stored already or whose bucket has fewer than 32767 keys) succeeds if and only if the table has a
  free slot at all and the value fits in the free slots and those of the old value of the key;
  then it adds exactly that entry. In a full
  table it fails with ENOBUFS and changes nothing else, so that even an overwrite by a value that
  would fit is refused and the old value stays. In a table that is not full, a value that does
  not fit fails with ENOBUFS, the slots it had taken are free again, and an old value of the key
  is gone. In every case the table is well-formed.
\<close>

theorem hash_put_exact:
  assumes "table_ok t" "length key < 65536" "val \<noteq> []"
    and "key_id t key \<in> dom (table_map t) \<or> bucket_load t (bucket t key) < 32767"
  shows "if free_slots t = 0
    then qhasharr_put Ptr (Some key) (Some val) t = (False, t\<lparr>errno := ENOBUFS\<rparr>) \<and> table_ok (t\<lparr>errno := ENOBUFS\<rparr>) \<and>
      table_map (t\<lparr>errno := ENOBUFS\<rparr>) = table_map t
    else if slots_needed (length val) \<le> free_slots t + old_slots t key
    then \<exists>t'. qhasharr_put Ptr (Some key) (Some val) t = (True, t') \<and> table_ok t' \<and>
      table_map t' = (table_map t)(key_id t key \<mapsto> val) \<and>
      free_slots t' = free_slots t + old_slots t key - slots_needed (length val)
    else \<exists>t'. qhasharr_put Ptr (Some key) (Some val) t = (False, t') \<and> table_ok t' \<and>
      table_map t' = (table_map t)(key_id t key := None) \<and>
      free_slots t' = free_slots t + old_slots t key \<and> errno t' = ENOBUFS"
proof (cases "free_slots t = 0")
  case True
  then show ?thesis using assms(1) put_body_full [of t key val] by (simp add: qhasharr_put_def)
next
  case False
  then show ?thesis using put_body_spec [OF assms False] by (auto simp: qhasharr_put_def stores_def no_room_def)
qed

theorem hash_put_exact_witness:
  "\<exists>t'. qhasharr_put Ptr (Some [1]) (Some [7]) sample_table = (True, t') \<and> table_ok t' \<and>
    table_map t' = [key_id sample_table [1] \<mapsto> [7]] \<and> free_slots t' = 2"
  using hash_put_exact [of sample_table "[1]" "[7]"]
  by (simp add: sample_table sample_load old_slots_def)

text \<open>
  C3: A removal of a stored key succeeds, deletes exactly its entry and frees exactly the
  slots its value took; a removal of any other key fails with ENOENT and changes nothing
  else.
\<close>

theorem hash_remove_exact:
  assumes "table_ok t" "length key < 65536"
  shows "case table_map t (key_id t key) of
      None \<Rightarrow> qhasharr_remove Ptr (Some key) t = (False, t\<lparr>errno := ENOENT\<rparr>)
    | Some v \<Rightarrow> \<exists>t'. qhasharr_remove Ptr (Some key) t = (True, t') \<and> table_ok t' \<and>
        table_map t' = (table_map t)(key_id t key := None) \<and>
        free_slots t' = free_slots t + slots_needed (length v)"
  using qhasharr_remove_absent [OF assms] qhasharr_remove_present [OF assms]
  by (auto simp: removes_def split: option.split)

theorem hash_remove_exact_witness:
  "qhasharr_remove Ptr (Some [1]) sample_table = (False, sample_table\<lparr>errno := ENOENT\<rparr>)"
  using hash_remove_exact [of sample_table "[1]"] by (simp add: sample_table)

text \<open>
  C4: A lookup returns the stored value in full, however many slots it spans, if the memory
  for it can be allocated; a key that is not stored gives ENOENT; the existence test agrees.
\<close>

theorem hash_get_exact:
  assumes "table_ok t" "length key < 65536"
  shows "qhasharr_get alloc Ptr (Some key) t =
      (case table_map t (key_id t key) of
         None \<Rightarrow> (None, t\<lparr>errno := ENOENT\<rparr>)
       | Some v \<Rightarrow> if alloc (length v) then (Some v, t) else (None, t\<lparr>errno := ENOMEM\<rparr>)) \<and>
    qhasharr_exist Ptr (Some key) t = (table_map t (key_id t key) \<noteq> None, t)"
  using qhasharr_get_spec [OF assms] qhasharr_exist_spec [OF assms] by simp

theorem hash_get_exact_witness:
  "qhasharr_get (\<lambda>_. True) Ptr (Some [1]) sample_table = (None, sample_table\<lparr>errno := ENOENT\<rparr>)"
  using hash_get_exact [of sample_table "[1]"] by (simp add: sample_table)

text \<open>
  After a successful insertion, any operations on other keys of at most 96 bytes leave
  the value as it was: a lookup returns it.
\<close>

theorem hash_last_write:
  assumes "hash_inv n t" "length key \<le> 96" "val \<noteq> []"
    and "qhasharr_put Ptr (Some key) (Some val) t = (True, t')"
    and "\<forall>c\<in>set cs. cmd_ok (\<lambda>k. length k \<le> 96) (\<lambda>v. v \<noteq> []) c \<and> cmd_key c \<noteq> key"
  shows "fst (qhasharr_get (\<lambda>_. True) Ptr (Some key) (snd (run_cmds hash_step cs t'))) = Some val"
proof -
  have "cmd_ok (\<lambda>k. length k < 65536) (\<lambda>v. v \<noteq> []) c \<and> key_ident n (cmd_key c) \<noteq> key_ident n key"
    if "c \<in> set cs" for c
    using assms(5) that key_ident_inj [OF assms(2), of n "cmd_key c"] by (cases c) auto
  then show ?thesis
    using hm.last_write [OF assms(1) _ assms(3,4), of cs] assms(2) by (simp add: hash_step_exec)
qed

theorem hash_last_write_witness:
  "\<exists>t'. qhasharr_put Ptr (Some [1]) (Some [7]) sample_table = (True, t') \<and>
    fst (qhasharr_get (\<lambda>_. True) Ptr (Some [1])
      (snd (run_cmds hash_step [Put_cmd [2] [8], Remove_cmd [3]] t'))) = Some [7]"
proof -
  obtain t' where put: "qhasharr_put Ptr (Some [1]) (Some [7]) sample_table = (True, t')"
    using put_body_spec [of sample_table "[1]" "[7]"]
    by (auto simp: sample_table sample_load old_slots_def qhasharr_put_def)
  show ?thesis
    using put hash_last_write [OF sample_table(6) _ _ put, of "[Put_cmd [2] [8], Remove_cmd [3]]"]
    by simp
qed

text \<open>
  The creator, given the memory that was computed for \<open>n\<close> slots, makes a well-formed
  empty table of exactly \<open>n\<close> free slots.
\<close>

theorem hash_create_empty:
  assumes "1 \<le> n" "n < 2147483648"
  shows "\<exists>t'. qhasharr Ptr (qhasharr_calculate_memsize n) t = (Ptr, t') \<and> table_ok t' \<and>
    table_map t' = Map.empty \<and> maxslots t' = n \<and> free_slots t' = nat n"
  using qhasharr_creates [OF assms, of t] by auto

theorem hash_create_empty_witness:
  "\<exists>t'. qhasharr Ptr (qhasharr_calculate_memsize 1000000) sample_env = (Ptr, t') \<and> table_ok t' \<and>
    table_map t' = Map.empty \<and> maxslots t' = 1000000 \<and> free_slots t' = 1000000"
  using hash_create_empty [of 1000000 sample_env] by simp

text \<open>
  C5: Iterating with \<^verbatim>\<open>qhasharr_getnext\<close> from index 0 visits every stored entry exactly
  once: the objects returned are those of a list that represents the stored map without
  repeating an identity; the table is unchanged but for \<^verbatim>\<open>errno\<close>.
\<close>

theorem hash_iteration_complete:
  assumes "table_ok t" "length (slots t) < n"
  shows "\<exists>es. distinct (map fst es) \<and> map_of es = table_map t \<and>
    hash_walk n 0 t = (map (\<lambda>(k, v). (fst (snd k), v)) es, t\<lparr>errno := ENOENT\<rparr>)"
  using hash_walk_entries [OF assms] entries_map [OF assms(1)] by (intro exI [of _ "entries t"]) simp

theorem hash_iteration_complete_witness:
  "hash_walk 4 0 sample_table = ([], sample_table\<lparr>errno := ENOENT\<rparr>)"
proof -
  obtain es :: "(key_id \<times> bytes) list" where "map_of es = Map.empty"
    "hash_walk 4 0 sample_table = (map (\<lambda>(k, v). (fst (snd k), v)) es, sample_table\<lparr>errno := ENOENT\<rparr>)"
    using hash_iteration_complete [of sample_table 4] by (auto simp: sample_table)
  then show ?thesis by simp
qed

text \<open>Clearing a table removes every entry and frees every slot.\<close>

theorem hash_clear_empties:
  assumes "table_ok t"
  shows "table_ok (qhasharr_clear Ptr t) \<and> table_map (qhasharr_clear Ptr t) = Map.empty \<and>
    free_slots (qhasharr_clear Ptr t) = length (slots t)"
  using qhasharr_clear_spec [OF assms] by simp

theorem hash_clear_empties_witness:
  "\<exists>t. table_map t (key_id t [1]) = Some [7] \<and> table_map (qhasharr_clear Ptr t) = Map.empty"
proof -
  obtain t where t: "stores sample_table [1] [7] 3 t"
    using put_body_spec [of sample_table "[1]" "[7]"] by (auto simp: sample_table sample_load old_slots_def)
  then have "key_id t [1] = key_id sample_table [1]" by (simp add: stores_def same_table_key_id)
  with t have "table_ok t" "table_map t (key_id t [1]) = Some [7]" by (simp_all add: stores_def)
  then show ?thesis using hash_clear_empties [of t] by blast
qed

text \<open>
  The counters report the truth: the number of stored keys, the size of the table and
  the number of slots in use, which is the sum of what the stored values need.
\<close>

theorem hash_size_counts:
  assumes "table_ok t"
  shows "qhasharr_size Ptr t =
    (int (card (dom (table_map t))), Some (maxslots t, int (used_by value_slots (table_map t))))"
proof -
  have "length (slots t) - free_slots t = used_by value_slots (table_map t)"
    using free_used [OF assms] by simp
  then show ?thesis
    using qhasharr_size_spec [OF assms] shape_okD(3) [OF table_okD(1) [OF assms]] by simp
qed

theorem hash_size_counts_witness: "qhasharr_size Ptr sample_table = (0, Some (3, 0))"
  using hash_size_counts [of sample_table] by (simp add: sample_table)

text \<open>
  C6: An integer stored under a string key is read back exactly, for every 64-bit value,
  when the reader gives the key with its terminating NUL.
\<close>

theorem hash_putint_getint:
  assumes "table_ok t" "length key < 65535"
    and "qhasharr_putint Ptr (Some key) i t = (True, t')"
    and "key_id t (key @ [0]) \<in> dom (table_map t) \<or> bucket_load t (bucket t (key @ [0])) < 32767"
  shows "fst (qhasharr_getint (\<lambda>_. True) Ptr (Some (key @ [0])) t') = i"
proof -
  let ?k = "key @ [0 :: byte]" and ?v = "print_int (sint i) @ [0 :: byte]"
  have len: "length ?k < 65536" using assms(2) by simp
  have put: "put_body ?k ?v t = (True, t')"
    using assms(3) by (simp add: qhasharr_putint_def qhasharr_putstr_def qhasharr_put_def)
  then have "free_slots t \<noteq> 0" using put_body_full [OF assms(1), of ?k ?v] by auto
  then have "stores t ?k ?v (free_slots t + old_slots t ?k) t'"
    using put_body_spec [OF assms(1) len _ assms(4), of ?v] put by (auto split: if_splits)
  then have "table_ok t'" "table_map t' (key_id t' ?k) = Some ?v"
    by (auto simp: stores_def same_table_key_id)
  then show ?thesis
    using qhasharr_get_spec [OF _ len, of t' "\<lambda>_. True"]
    by (simp add: qhasharr_getint_def qhasharr_getstr_def atoll_print)
qed

theorem hash_putint_getint_witness:
  "\<exists>t'. qhasharr_putint Ptr (Some [110]) (- 42) sample_table = (True, t') \<and>
    fst (qhasharr_getint (\<lambda>_. True) Ptr (Some [110, 0]) t') = - 42"
proof -
  have i: "print_int (- 42) = [45, 52, 50]"
    by (simp add: print_int_def print_nat.simps)
  obtain t' where put: "qhasharr_putint Ptr (Some [110]) (- 42) sample_table = (True, t')"
    using put_body_spec [of sample_table "[110, 0]" "[45, 52, 50, 0]"]
    by (auto simp: sample_table sample_load old_slots_def qhasharr_putint_def qhasharr_putstr_def
        qhasharr_put_def i slots_needed_def)
  show ?thesis
    using put hash_putint_getint [of sample_table "[110]" "- 42" t'] by (simp add: sample_table sample_load)
qed

text \<open>
  Storing an empty value under a key whose bucket is empty occupies a slot and counts
  neither the key nor the slot: the counters no longer tell the truth.
\<close>

theorem hash_empty_value_uncounted:
  assumes "table_ok t" "s_count (slot_at t (bucket t key)) = 0" "free_slots t \<noteq> 0"
  shows "\<exists>t'. qhasharr_put Ptr (Some key) (Some []) t = (True, t') \<and>
    bucket t key \<in> occupied t' \<and> usedslots t' = usedslots t \<and> num t' = num t \<and> \<not> table_ok t'"
proof -
  let ?h = "bucket t key" and ?t = "put_key (bucket t key) (bucket t key) key 1 t"
  note okt = table_okD [OF assms(1)]
  have put: "qhasharr_put Ptr (Some key) (Some []) t = (True, ?t)"
    using shape_okD(1) [OF okt(1)] assms(2,3) full_iff [OF assms(1)]
    by (simp add: qhasharr_put_def put_body.simps [of _ _ t] put_data_def put_data_loop.simps [of _ "[]"]
        Let_def)
  have count: "s_count (slot_at ?t x) = (if x = ?h then 1 else s_count (slot_at t x))" for x
    using bucket_less [OF okt(1), of key] by (simp add: put_key_def slot_simps)
  then have occ: "occupied ?t = insert ?h (occupied t)" by (auto simp: occupied_def)
  have fields: "usedslots ?t = usedslots t" "num ?t = num t" by (simp_all add: put_key_def)
  have "?h \<notin> occupied t" using assms(2) by (simp add: occupied_iff)
  then have "\<not> table_ok ?t"
    using okt(3) fields table_okD(3) [of ?t] by (auto simp: counters_ok_def occ)
  then show ?thesis using put occ fields by auto
qed

theorem hash_empty_value_uncounted_witness:
  "\<exists>t'. qhasharr_put Ptr (Some [1]) (Some []) sample_table = (True, t') \<and> \<not> table_ok t'"
proof -
  have "occupied sample_table = {}"
    using table_used [OF sample_table(1)] by (simp add: sample_table)
  then have "s_count (slot_at sample_table (bucket sample_table [1])) = 0"
    by (auto simp: occupied_def)
  then show ?thesis
    using hash_empty_value_uncounted [of sample_table "[1]"] by (auto simp: sample_table)
qed

text \<open>
  The length of a key is stored in 16 bits and compared in full: a key of 65536 bytes or more
  is found in no table, whatever was stored under it.
\<close>

theorem hash_long_key_never_found:
  assumes "65536 \<le> length key" "maxslots t \<noteq> 0"
  shows "qhasharr_get alloc Ptr (Some key) t = (None, t\<lparr>errno := ENOENT\<rparr>)"
proof -
  have "unat w < 2 ^ LENGTH(16)" for w :: u16 by (rule unsigned_less)
  then have "pair_keylen d < 65536" for d unfolding pair_keylen_def by fastforce
  then have no: "\<not> key_matches key s" for s using assms(1) by (auto simp: key_matches_def dest: leD)
  have "get_idx t key (bucket t key) = None"
    by (auto simp: get_idx_def no split: sum.split if_splits dest!: cyc_loop_Inl)
  then show ?thesis using assms(2) by (simp add: qhasharr_get_def)
qed

end
