(* ===== verification/Codec.thy ===== *)
theory Codec
  imports Shm_Prelude
begin

text \<open>
  \<^verbatim>\<open>shmutil/common.h\<close>: the encoding of lengths, on a host of either byte order, and the
  test whether a process exists. The byte order is the parameter \<open>little\<close>; the store of a
  word by \<^verbatim>\<open>memcpy\<close> is only taken on a little-endian host. The system call \<^verbatim>\<open>kill\<close> is
  a parameter that returns \<open>None\<close> for 0 and the error otherwise.
\<close>

definition NEED_MD5_VALUE_LEN :: u32 where "NEED_MD5_VALUE_LEN = 1024"

definition MD5_STR_LEN :: nat where "MD5_STR_LEN = 16"

definition encodeValueLen :: "bool \<Rightarrow> bytes \<Rightarrow> u32 \<Rightarrow> bytes" where
  "encodeValueLen little buf len =
     (if little then blit 0 (to_le 4 len) buf
      else fold (\<lambda>i buf. buf[i := ucast (drop_bit (i * 8) len AND 0xff)]) [0..<4] buf)"

definition decodeValueLen :: "bool \<Rightarrow> bytes \<Rightarrow> u32" where
  "decodeValueLen little buf =
     (if little then of_le (mem_read 0 4 buf)
      else fold (\<lambda>i len. len + push_bit (i * 8) (ucast (buf ! i))) [0..<4] 0)"

definition checkProcExist :: "(u32 \<Rightarrow> errno option) \<Rightarrow> u32 \<Rightarrow> bool" where
  "checkProcExist kill pid =
     (case kill pid of None \<Rightarrow> True | Some e \<Rightarrow> e \<noteq> ESRCH)"

subsection \<open>The two branches agree\<close>

lemma byte_mask: "(ucast (w AND 0xff :: u32) :: byte) = ucast w"
proof (rule bit_word_eqI)
  fix k assume "k < LENGTH(8)"
  then have "k < 8" by simp
  moreover have "bit (0xff :: u32) k" if "k < 8"
  proof -
    have "(0xff :: u32) = mask 8" by (simp add: mask_eq_exp_minus_1)
    then show ?thesis using that by (simp only: bit_mask_iff) simp
  qed
  ultimately show "bit (ucast (w AND 0xff) :: byte) k = bit (ucast w :: byte) k"
    by (simp add: bit_ucast_iff bit_and_iff)
qed

lemma upt_4: "[0..<4] = [0, 1, 2, 3 :: nat]"
  by (simp add: upt_rec)

lemma buffer_4: "4 \<le> length buf \<Longrightarrow> \<exists>a b c d rest. buf = a # b # c # d # rest"
  by (auto simp: Suc_le_length_iff numeral_eq_Suc)

lemma encode_branches:
  assumes "4 \<le> length buf"
  shows "encodeValueLen False buf len = encodeValueLen True buf len"
proof -
  obtain a b c d rest where "buf = a # b # c # d # rest" using buffer_4 [OF assms] by blast
  then show ?thesis
    by (simp add: encodeValueLen_def upt_4 byte_mask to_le_def blit_def mult.commute)
qed

lemma add_eq_or: "(x :: 'a::len word) AND y = 0 \<Longrightarrow> x + y = x OR y"
  using disjunctive_add_eq_or [of x y] by simp

lemma ucast_shift_disjoint:
  fixes b c :: byte
  assumes "i \<noteq> j"
  shows "push_bit (i * 8) (ucast b :: u32) AND push_bit (j * 8) (ucast c) = 0"
proof (rule bit_word_eqI)
  fix k assume "k < LENGTH(32)"
  show "bit (push_bit (i * 8) (ucast b :: u32) AND push_bit (j * 8) (ucast c)) k = bit (0 :: u32) k"
    using assms by (auto simp: bit_and_iff bit_push_bit_iff bit_ucast_iff dest!: bit_imp_le_length)
qed

lemma of_le_4: "(of_le [a, b, c, d] :: u32) =
  ucast a OR push_bit 8 (ucast b) OR push_bit 16 (ucast c) OR push_bit 24 (ucast d)"
proof -
  have "push_bit n (x OR y :: u32) = push_bit n x OR push_bit n y" for n x y
    by (rule bit_word_eqI) (auto simp: bit_push_bit_iff bit_or_iff)
  then show ?thesis by (simp add: or.assoc)
qed

lemma decode_branches:
  assumes "4 \<le> length buf"
  shows "decodeValueLen False buf = decodeValueLen True buf"
proof -
  obtain a b c d rest where buf: "buf = a # b # c # d # rest" using buffer_4 [OF assms] by blast
  let ?s = "\<lambda>i (x :: byte). push_bit (i * 8) (ucast x :: u32)"
  have dis: "?s i x AND ?s j y = 0" if "i \<noteq> j" for i j x y
    by (rule ucast_shift_disjoint [OF that])
  have "?s 0 a + ?s 1 b = ?s 0 a OR ?s 1 b" by (rule add_eq_or) (simp only: dis)
  moreover have "(?s 0 a OR ?s 1 b) + ?s 2 c = ?s 0 a OR ?s 1 b OR ?s 2 c"
    by (subst add_eq_or) (simp_all only: bit.conj_disj_distrib2 dis or.assoc or.right_neutral)
  moreover have "(?s 0 a OR ?s 1 b OR ?s 2 c) + ?s 3 d = ?s 0 a OR ?s 1 b OR ?s 2 c OR ?s 3 d"
    by (subst add_eq_or) (simp_all only: bit.conj_disj_distrib2 dis or.assoc or.right_neutral)
  ultimately have "?s 0 a + ?s 1 b + ?s 2 c + ?s 3 d = ?s 0 a OR ?s 1 b OR ?s 2 c OR ?s 3 d" by simp
  then show ?thesis
    by (simp add: decodeValueLen_def buf upt_4 mem_read_def of_le_4)
qed

lemma length_encodeValueLen [simp]: "4 \<le> length buf \<Longrightarrow> length (encodeValueLen e buf len) = length buf"
  by (cases e) (simp_all add: encode_branches, simp_all add: encodeValueLen_def)

lemma encodeValueLen_bytes:
  "4 \<le> length buf \<Longrightarrow> encodeValueLen e buf len = to_le 4 len @ drop 4 buf"
  by (cases e) (simp_all add: encode_branches, simp_all add: encodeValueLen_def blit_def)

lemma decodeValueLen_bytes:
  "4 \<le> length buf \<Longrightarrow> decodeValueLen e buf = of_le (take 4 buf)"
  by (cases e) (simp_all add: decode_branches, simp_all add: decodeValueLen_def mem_read_def)

lemma decode_encode:
  "4 \<le> length buf \<Longrightarrow> decodeValueLen e (encodeValueLen e' buf len) = len"
  by (simp add: decodeValueLen_bytes encodeValueLen_bytes)

end
