(* ===== verification/Lru.thy ===== *)
theory Lru
  imports Shm_Prelude
begin

text \<open>
  \<^verbatim>\<open>shmutil/simple_lru.h\<close>: the list of keys, most recent first, and the map from a key to
  its place in the list. A list iterator is the identity of a node, which stays the same
  while other nodes come and go; a new node gets an identity not used before. The abstract
  view is the list of distinct keys, in which a visited key moves to the front.
\<close>

record lru =
  lruMem :: "(nat \<times> bytes) list"
  keyToIter :: "bytes \<rightharpoonup> nat"
  fresh_iter :: nat

definition SimpleLru :: lru where
  "SimpleLru = \<lparr>lruMem = [], keyToIter = Map.empty, fresh_iter = 0\<rparr>"

text \<open>\<^verbatim>\<open>push_front\<close>, \<^verbatim>\<open>begin\<close> and \<^verbatim>\<open>erase\<close> of the list.\<close>

definition push_front :: "bytes \<Rightarrow> lru \<Rightarrow> lru" where
  "push_front key s = s\<lparr>lruMem := (fresh_iter s, key) # lruMem s, fresh_iter := Suc (fresh_iter s)\<rparr>"

definition begin_iter :: "lru \<Rightarrow> nat" where
  "begin_iter s = fst (hd (lruMem s))"

definition erase_iter :: "nat \<Rightarrow> lru \<Rightarrow> lru" where
  "erase_iter it s = s\<lparr>lruMem := filter (\<lambda>n. fst n \<noteq> it) (lruMem s)\<rparr>"

definition getRemoveKey :: "lru \<Rightarrow> bytes" where
  "getRemoveKey s = (if lruMem s = [] then [] else snd (last (lruMem s)))"

text \<open>\<^verbatim>\<open>back()\<close> of an empty list is undefined: \<open>None\<close>.\<close>

definition removeKey :: "lru \<Rightarrow> (bytes \<times> lru) option" where
  "removeKey s =
     (if lruMem s = [] then None
      else let key = snd (last (lruMem s));
               s = s\<lparr>lruMem := butlast (lruMem s)\<rparr>
           in Some (key, if keyToIter s key \<noteq> None then s\<lparr>keyToIter := (keyToIter s)(key := None)\<rparr> else s))"

definition visitKey :: "bytes \<Rightarrow> lru \<Rightarrow> lru" where
  "visitKey key s =
     (case keyToIter s key of
        None \<Rightarrow>
          let s = push_front key s in s\<lparr>keyToIter := (keyToIter s)(key \<mapsto> begin_iter s)\<rparr>
      | Some it \<Rightarrow>
          let s = push_front key (erase_iter it s)
          in s\<lparr>keyToIter := (keyToIter s)(key \<mapsto> begin_iter s)\<rparr>)"

subsection \<open>The recency list\<close>

definition lru_keys :: "lru \<Rightarrow> bytes list" where
  "lru_keys s = map snd (lruMem s)"

definition lru_ok :: "lru \<Rightarrow> bool" where
  "lru_ok s \<longleftrightarrow> distinct (map fst (lruMem s)) \<and> distinct (lru_keys s) \<and>
     (\<forall>n\<in>set (lruMem s). fst n < fresh_iter s) \<and>
     (\<forall>k i. keyToIter s k = Some i \<longleftrightarrow> (i, k) \<in> set (lruMem s))"

lemma lru_okD:
  assumes "lru_ok s"
  shows "distinct (map fst (lruMem s))" "distinct (lru_keys s)"
    "n \<in> set (lruMem s) \<Longrightarrow> fst n < fresh_iter s"
    "keyToIter s k = Some i \<longleftrightarrow> (i, k) \<in> set (lruMem s)"
  using assms by (auto simp: lru_ok_def)

lemma lru_init: "lru_ok SimpleLru" "lru_keys SimpleLru = []"
  by (simp_all add: lru_ok_def SimpleLru_def lru_keys_def)

lemma lru_tracked: "lru_ok s \<Longrightarrow> keyToIter s k = None \<longleftrightarrow> k \<notin> set (lru_keys s)"
  using lru_okD(4) [of s k] by (cases "keyToIter s k") (force simp: lru_keys_def)+

lemma filter_node:
  assumes "lru_ok s" "keyToIter s k = Some i"
  shows "map snd (filter (\<lambda>n. fst n \<noteq> i) (lruMem s)) = remove1 k (lru_keys s)"
proof -
  have ik: "(i, k) \<in> set (lruMem s)" using lru_okD(4) [OF assms(1)] assms(2) by blast
  have same: "fst n \<noteq> i \<longleftrightarrow> snd n \<noteq> k" if n: "n \<in> set (lruMem s)" for n
  proof -
    have "inj_on fst (set (lruMem s))" "inj_on snd (set (lruMem s))"
      using lru_okD(1,2) [OF assms(1)] by (simp_all add: distinct_map lru_keys_def)
    then show ?thesis using ik n by (metis fst_conv inj_onD snd_conv)
  qed
  have "map snd (filter (\<lambda>n. fst n \<noteq> i) (lruMem s)) = map snd (filter (\<lambda>n. snd n \<noteq> k) (lruMem s))"
    using same by (intro arg_cong [where f = "map snd"] filter_cong) auto
  also have "\<dots> = filter (\<lambda>x. x \<noteq> k) (lru_keys s)"
    by (simp add: lru_keys_def filter_map o_def)
  also have "\<dots> = remove1 k (lru_keys s)"
    using lru_okD(2) [OF assms(1)]
    by (auto simp: distinct_remove1_removeAll removeAll_filter_not_eq intro!: filter_cong)
  finally show ?thesis .
qed

lemma visitKey_keys:
  assumes "lru_ok s"
  shows "lru_keys (visitKey k s) = k # remove1 k (lru_keys s)"
proof (cases "keyToIter s k")
  case None
  then show ?thesis
    using lru_tracked [OF assms, of k]
    by (simp add: visitKey_def push_front_def lru_keys_def Let_def remove1_idem)
next
  case (Some i)
  then show ?thesis
    using filter_node [OF assms Some]
    by (simp add: visitKey_def push_front_def erase_iter_def lru_keys_def Let_def)
qed

lemma visitKey_ok:
  assumes "lru_ok s"
  shows "lru_ok (visitKey k s)"
proof -
  note ok = lru_okD [OF assms]
  define mem where "mem = (case keyToIter s k of None \<Rightarrow> lruMem s
      | Some i \<Rightarrow> filter (\<lambda>n. fst n \<noteq> i) (lruMem s))"
  have v: "visitKey k s = \<lparr>lruMem = (fresh_iter s, k) # mem,
      keyToIter = (keyToIter s)(k \<mapsto> fresh_iter s), fresh_iter = Suc (fresh_iter s)\<rparr>"
    by (simp add: visitKey_def push_front_def erase_iter_def begin_iter_def Let_def mem_def
        split: option.split)
  have sub: "set mem \<subseteq> set (lruMem s)" by (auto simp: mem_def split: option.splits)
  have "distinct (map fst mem)"
    using ok(1) by (auto simp: mem_def distinct_map_filter split: option.splits)
  moreover have "fresh_iter s \<notin> fst ` set mem" using ok(3) sub by fastforce
  moreover have keys: "k # map snd mem = k # remove1 k (lru_keys s)"
    using visitKey_keys [OF assms, of k] by (simp add: v lru_keys_def)
  then have "distinct (k # map snd mem)"
    using ok(2) by (simp del: list.map_comp)
  moreover have "((keyToIter s)(k \<mapsto> fresh_iter s)) x = Some i \<longleftrightarrow> (i, x) \<in> set ((fresh_iter s, k) # mem)" for x i
  proof (cases "x = k")
    case True
    then show ?thesis using \<open>distinct (k # map snd mem)\<close> by force
  next
    case False
    have "(i, x) \<in> set mem \<longleftrightarrow> (i, x) \<in> set (lruMem s)"
    proof (cases "keyToIter s k")
      case (Some j)
      then have "(j, k) \<in> set (lruMem s)" using ok(4) by blast
      then have "i \<noteq> j" if "(i, x) \<in> set (lruMem s)"
        using that ok(1) False by (metis eq_key_imp_eq_value)
      with Some show ?thesis by (auto simp: mem_def)
    qed (simp add: mem_def)
    then show ?thesis using False ok(4) by auto
  qed
  ultimately show ?thesis
    using ok(3) sub by (fastforce simp: lru_ok_def v lru_keys_def)
qed

lemma removeKey_keys:
  assumes "lru_ok s" "lru_keys s \<noteq> []"
  shows "\<exists>s'. removeKey s = Some (last (lru_keys s), s') \<and> lru_ok s' \<and> lru_keys s' = butlast (lru_keys s)"
proof -
  note ok = lru_okD [OF assms(1)]
  have ne: "lruMem s \<noteq> []" using assms(2) by (simp add: lru_keys_def)
  define ns n where "ns = butlast (lruMem s)" and "n = last (lruMem s)"
  have mem: "lruMem s = ns @ [n]" using ne by (simp add: ns_def n_def)
  have "keyToIter s (snd n) = Some (fst n)" using ok(4) by (simp add: mem)
  then have rk: "removeKey s = Some (snd n, s\<lparr>lruMem := ns, keyToIter := (keyToIter s)(snd n := None)\<rparr>)"
    using ne by (simp add: removeKey_def Let_def mem)
  have "((keyToIter s)(snd n := None)) k = Some i \<longleftrightarrow> (i, k) \<in> set ns" for k i
  proof (cases "k = snd n")
    case True
    have "snd n \<notin> snd ` set ns" using ok(2) by (simp add: mem lru_keys_def)
    then have "(i, snd n) \<notin> set ns" using imageI [of "(i, snd n)" "set ns" snd] by auto
    with True show ?thesis by simp
  next
    case False
    then show ?thesis using ok(4) [of k i] by (cases n) (auto simp: mem)
  qed
  then have "lru_ok (s\<lparr>lruMem := ns, keyToIter := (keyToIter s)(snd n := None)\<rparr>)"
    using ok(1-3) by (simp add: lru_ok_def lru_keys_def mem)
  then show ?thesis using rk by (simp add: lru_keys_def mem)
qed

lemma getRemoveKey_last:
  "getRemoveKey s = (if lru_keys s = [] then [] else last (lru_keys s))"
  by (simp add: getRemoveKey_def lru_keys_def last_map)

end
