(* ===== verification/Mrsw_Table.thy ===== *)
theory Mrsw_Table
  imports Hasharr_Spec Codec Lru
begin

text \<open>
  \<^verbatim>\<open>shmutil/shm_mrsw_hashtable.cc\<close>: the table of one writer and many readers over the
  static hash table, with the verification code around every value and the eviction of the
  least recently written keys. The object's fields and the shared table are one record.
  Every section under the object's mutex (theory Mutex) is one operation here. \<^verbatim>\<open>shmget\<close>
  and \<^verbatim>\<open>shmat\<close> are parameters, as is the byte order of the host.
\<close>

record mrsw =
  m_table :: ptr
  m_lru :: lru
  m_isLruEliminate :: bool
  m_isInit :: bool
  shm :: qenv

definition MrswHashtable :: "qenv \<Rightarrow> mrsw" where
  "MrswHashtable t =
     \<lparr>m_table = NULL, m_lru = SimpleLru, m_isLruEliminate = True, m_isInit = False, shm = t\<rparr>"

text \<open>\<^verbatim>\<open>errno\<close> is the caller's; the rest of \<open>shm\<close> is the attached segment.\<close>

abbreviation merrno :: "mrsw \<Rightarrow> errno" where
  "merrno m \<equiv> errno (shm m)"

definition attach :: "qenv \<Rightarrow> mrsw \<Rightarrow> mrsw" where
  "attach seg m = m\<lparr>m_table := Ptr, shm := seg\<lparr>errno := merrno m\<rparr>\<rparr>"

definition MrswHashtable_fini :: "mrsw \<Rightarrow> mrsw" where
  "MrswHashtable_fini m = (if m_table m = NULL then m else m\<lparr>m_table := NULL, m_isInit := False\<rparr>)"

subsection \<open>The verification code\<close>

text \<open>
  Reading the length of a string shorter than four bytes reads behind its end; the bytes
  there are taken as zero.
\<close>

definition verifyShmValue :: "bool \<Rightarrow> bytes \<Rightarrow> ErrorCode \<times> bytes" where
  "verifyShmValue little tblval =
     (let valLen = decodeValueLen little (tblval @ replicate 4 0);
          valStr = drop 4 tblval;
          verifyStr = drop (unat valLen) valStr
      in if valLen > NEED_MD5_VALUE_LEN
         then if length tblval < 4 + unat valLen + MD5_STR_LEN then (kErrDataMess, tblval)
              else if md5_digest (take (unat valLen) valStr) = take MD5_STR_LEN verifyStr
              then (kOk, take (unat valLen) valStr)
              else (kErrDataMess, tblval)
         else if length tblval < 4 + unat (valLen * 2) then (kErrDataMess, tblval)
              else if take (unat valLen) valStr = take (unat valLen) verifyStr
              then (kOk, take (unat valLen) valStr)
              else (kErrDataMess, tblval))"

definition encodeValueStr :: "bool \<Rightarrow> bytes \<Rightarrow> bytes" where
  "encodeValueStr little val =
     (let val_size = of_nat (length val) :: u32;
          tmpVal = encodeValueLen little (replicate 4 0) val_size;
          tmpVal = tmpVal @ val
      in if val_size > NEED_MD5_VALUE_LEN then tmpVal @ md5_digest val else tmpVal @ val)"

subsection \<open>Reading\<close>

text \<open>
  An output parameter that is not written keeps the caller's value. \<open>env\<close> holds what the
  code is run with: the byte order of the host and the success of \<^verbatim>\<open>malloc\<close>.
\<close>

record mrsw_env =
  e_little :: bool
  e_alloc :: "nat \<Rightarrow> bool"

definition getNextKVPair ::
    "mrsw_env \<Rightarrow> bytes \<Rightarrow> bytes \<Rightarrow> nat \<Rightarrow> mrsw \<Rightarrow> ErrorCode \<times> bytes \<times> bytes \<times> nat \<times> mrsw" where
  "getNextKVPair env tblkey tblval idx m =
     (if m_table m = NULL then (kErrInvalidParams, tblkey, tblval, idx, m)
      else case qhasharr_getnext (e_alloc env) (m_table m) idx (shm m) of
             (None, idx, t) \<Rightarrow>
               let idx = idx + 1; m = m\<lparr>shm := t\<rparr>
               in if merrno m = ENOENT \<and> int idx \<ge> maxslots t + 1
                  then (kErrTraverseTableEnd, tblkey, tblval, idx, m)
                  else (kErrNotFound, tblkey, tblval, idx, m)
           | (Some (name, data), idx, t) \<Rightarrow>
               (case verifyShmValue (e_little env) data of
                  (ret, tblval) \<Rightarrow>
                    if ret \<noteq> kOk then (ret, tblkey, tblval, idx, m\<lparr>shm := t\<rparr>)
                    else (kOk, name, tblval, idx, m\<lparr>shm := t\<rparr>)))"

definition getValue :: "mrsw_env \<Rightarrow> bytes \<Rightarrow> bytes \<Rightarrow> mrsw \<Rightarrow> ErrorCode \<times> bytes \<times> mrsw" where
  "getValue env key val m =
     (if \<not> m_isInit m \<or> key = [] then (kErrInvalidParams, val, m)
      else case qhasharr_get (e_alloc env) (m_table m) (Some key) (shm m) of
             (None, t) \<Rightarrow> (kErrNotFound, val, m\<lparr>shm := t\<rparr>)
           | (Some tmpVal, t) \<Rightarrow>
               (case verifyShmValue (e_little env) tmpVal of
                  (ret, val) \<Rightarrow> (ret, val, m\<lparr>shm := t\<rparr>)))"

definition isExist :: "bytes \<Rightarrow> bool \<Rightarrow> mrsw \<Rightarrow> ErrorCode \<times> bool \<times> mrsw" where
  "isExist key ex m =
     (if \<not> m_isInit m \<or> key = [] then (kErrInvalidParams, ex, m)
      else case qhasharr_exist (m_table m) (Some key) (shm m) of
             (ex, t) \<Rightarrow> (kOk, ex, m\<lparr>shm := t\<rparr>))"

definition deleteKey :: "bytes \<Rightarrow> mrsw \<Rightarrow> ErrorCode \<times> mrsw" where
  "deleteKey key m =
     (if \<not> m_isInit m \<or> key = [] then (kErrInvalidParams, m)
      else case qhasharr_remove (m_table m) (Some key) (shm m) of
             (ret, t) \<Rightarrow>
               let m = m\<lparr>shm := t\<rparr>
               in if \<not> ret then (if merrno m = ENOENT then kOk else kErrOther, m) else (kOk, m))"

definition getNext ::
    "mrsw_env \<Rightarrow> bytes \<Rightarrow> bytes \<Rightarrow> nat \<Rightarrow> mrsw \<Rightarrow> ErrorCode \<times> bytes \<times> bytes \<times> nat \<times> mrsw" where
  "getNext env key val index m = getNextKVPair env key val index m"

definition getStats :: "mrsw \<Rightarrow> (int \<times> int \<times> int) option \<times> ErrorCode" where
  "getStats m =
     (if \<not> m_isInit m then (None, kErrShmNotInit)
      else case qhasharr_size (m_table m) (shm m) of
             (_, Some (maxs, used)) \<Rightarrow> (Some (maxs, used, num (shm m)), kOk)
           | (_, None) \<Rightarrow> (None, kOk))"

definition clearTable :: "mrsw \<Rightarrow> ErrorCode \<times> mrsw" where
  "clearTable m =
     (if \<not> m_isInit m then (kErrShmNotInit, m)
      else (kOk, m\<lparr>shm := qhasharr_clear (m_table m) (shm m)\<rparr>))"

subsection \<open>Writing\<close>

definition put_shm :: "bytes \<Rightarrow> bytes \<Rightarrow> mrsw \<Rightarrow> bool \<times> mrsw" where
  "put_shm key val m =
     (case qhasharr_put (m_table m) (Some key) (Some val) (shm m) of (ret, t) \<Rightarrow> (ret, m\<lparr>shm := t\<rparr>))"

lemma deleteKey_lru [simp]: "m_lru (snd (deleteKey key m)) = m_lru m"
  by (simp add: deleteKey_def Let_def split: prod.split)

lemma put_shm_lru [simp]: "m_lru (snd (put_shm key val m)) = m_lru m"
  by (simp add: put_shm_def split: prod.split)

lemma evict_less:
  assumes "(ec, m') = deleteKey k m" "removeKey (m_lru m') = Some (x, l)"
    "(r, m'') = put_shm key val (m'\<lparr>m_lru := l\<rparr>)"
  shows "length (lruMem (m_lru m'')) < length (lruMem (m_lru m))"
proof -
  have "m_lru m' = m_lru m" using deleteKey_lru [of k m] by (simp only: assms(1) [symmetric] snd_conv)
  moreover have "m'' = snd (put_shm key val (m'\<lparr>m_lru := l\<rparr>))" using assms(3) by (metis snd_conv)
  then have "m_lru m'' = l" by simp
  moreover have "length (lruMem l) < length (lruMem (m_lru m'))"
    using assms(2) by (auto simp: removeKey_def Let_def split: if_splits)
  ultimately show ?thesis by simp
qed

text \<open>
  The eviction loop: \<open>Inl\<close> is a return from within it, \<open>Inr\<close> the value of \<open>ret\<close> after it.
  The key to remove is empty when no key is recorded, and deleting the empty key fails, so
  that \<^verbatim>\<open>removeKey\<close> is never called on an empty list.
\<close>

function evict_loop :: "bytes \<Rightarrow> bytes \<Rightarrow> bool \<Rightarrow> mrsw \<Rightarrow> (ErrorCode + bool) \<times> mrsw" where
  "evict_loop key val ret m =
     (if \<not> ret \<and> merrno m = ENOBUFS
      then case deleteKey (getRemoveKey (m_lru m)) m of
             (ecRet, m') \<Rightarrow>
               if ecRet = kOk
               then case removeKey (m_lru m') of
                      None \<Rightarrow> (Inl ecRet, m')
                    | Some (_, l) \<Rightarrow>
                        (case put_shm key val (m'\<lparr>m_lru := l\<rparr>) of
                           (ret, m'') \<Rightarrow> evict_loop key val ret m'')
               else (Inl ecRet, m')
      else (Inr ret, m))"
  by pat_completeness auto
termination
  by (relation "measure (\<lambda>(key, val, ret, m). length (lruMem (m_lru m)))") (auto split: prod.split dest: evict_less)

declare evict_loop.simps [simp del]

definition setValue_shm :: "bytes \<Rightarrow> bytes \<Rightarrow> mrsw \<Rightarrow> ErrorCode \<times> mrsw" where
  "setValue_shm key val m =
     (if key = [] then (kErrInvalidParams, m)
      else case put_shm key val m of
             (ret, m) \<Rightarrow>
               (case (if \<not> ret \<and> merrno m = ENOBUFS
                      then if m_isLruEliminate m then evict_loop key val ret m
                           else (Inl kErrNotEnoughSpace, m)
                      else (Inr ret, m)) of
                  (Inl ec, m) \<Rightarrow> (ec, m)
                | (Inr ret, m) \<Rightarrow>
                    let m = (if ret then m\<lparr>m_lru := visitKey key (m_lru m)\<rparr> else m)
                    in (if ret then kOk else kErrStoreKVFailed, m)))"

definition setValue :: "mrsw_env \<Rightarrow> bytes \<Rightarrow> bytes \<Rightarrow> mrsw \<Rightarrow> ErrorCode \<times> mrsw" where
  "setValue env key val m =
     (if \<not> m_isInit m \<or> key = [] then (kErrInvalidParams, m)
      else case getValue env key [] m of
             (ret, valInTbl, m) \<Rightarrow>
               if ret = kOk \<and> val = valInTbl then (kErrSetSameValue, m)
               else setValue_shm key (encodeValueStr (e_little env) val) m)"

subsection \<open>Opening\<close>

text \<open>
  \<open>shm_create n\<close>: exclusive creation of \<open>n\<close> bytes, \<open>None\<close> on success; \<open>shm_open\<close>: the
  segment of the key exists and may be opened; \<open>shm_attach\<close>: its content, \<open>None\<close> if it
  cannot be attached.
\<close>

record shm_services =
  shm_create :: "u64 \<Rightarrow> errno option"
  shm_open :: bool
  shm_attach :: "qenv option"

lemma getnext_loop_index:
  "getnext_loop alloc t idx = (Some obj, idx', t') \<Longrightarrow> idx < idx'"
proof (induction alloc t idx rule: getnext_loop.induct)
  case (1 alloc t idx)
  note step = "1.prems" [unfolded getnext_loop.simps [of alloc t idx]]
  show ?case
  proof (cases "int idx < maxslots t \<and> (s_count (slot_at t idx) = 0 \<or> s_count (slot_at t idx) = -2)")
    case True
    then have "getnext_loop alloc t (idx + 1) = (Some obj, idx', t')" using step by simp
    then have "idx + 1 < idx'" using "1.IH" True by blast
    then show ?thesis by simp
  next
    case False
    then show ?thesis using step by (auto simp: Let_def split: if_splits option.splits prod.splits)
  qed
qed

lemma getNextKVPair_index:
  "getNextKVPair env tblkey tblval idx m = (kOk, key, val, idx', m') \<Longrightarrow> idx < idx'"
  by (auto simp: getNextKVPair_def qhasharr_getnext_def Let_def
      split: if_splits prod.splits option.splits dest: getnext_loop_index)

function initLru_loop :: "mrsw_env \<Rightarrow> int \<Rightarrow> bytes \<Rightarrow> bytes \<Rightarrow> nat \<Rightarrow> mrsw \<Rightarrow> ErrorCode \<times> mrsw" where
  "initLru_loop env maxSlots tblkey tblval idx m =
     (if int idx < maxSlots
      then case getNextKVPair env tblkey tblval idx m of
             (ret, tblkey, tblval, idx', m) \<Rightarrow>
               if ret = kOk
               then initLru_loop env maxSlots tblkey tblval idx'
                      (if tblkey \<noteq> [] then m\<lparr>m_lru := visitKey tblkey (m_lru m)\<rparr> else m)
               else if ret = kErrTraverseTableEnd then (kOk, m)
               else (kErrLruInit, m)
      else (kOk, m))"
  by pat_completeness auto
termination
  by (relation "measure (\<lambda>(env, maxSlots, k, v, idx, m). nat maxSlots - idx)")
    (auto dest!: getNextKVPair_index [OF sym])

declare initLru_loop.simps [simp del]

definition initLruMem :: "mrsw_env \<Rightarrow> mrsw \<Rightarrow> ErrorCode \<times> mrsw" where
  "initLruMem env m =
     (case qhasharr_size (m_table m) (shm m) of
        (_, Some (maxSlots, usedSlots)) \<Rightarrow> initLru_loop env maxSlots [] [] 0 m
      | (_, None) \<Rightarrow> initLru_loop env 0 [] [] 0 m)"

definition getShm :: "shm_services \<Rightarrow> mrsw_env \<Rightarrow> bool \<Rightarrow> mrsw \<Rightarrow> ErrorCode \<times> mrsw" where
  "getShm svc env isLru m =
     (if \<not> shm_open svc then (kErrShmGet, m)
      else case shm_attach svc of
             None \<Rightarrow> (kErrShmAt, m\<lparr>m_table := NULL\<rparr>)
           | Some seg \<Rightarrow>
               let m = (attach seg m)\<lparr>m_isLruEliminate := isLru\<rparr>
               in if m_isLruEliminate m
                  then case initLruMem env m of
                         (ret, m) \<Rightarrow> (ret, if ret = kOk then m\<lparr>m_isInit := True\<rparr> else m)
                  else (kOk, m\<lparr>m_isInit := True\<rparr>))"

definition MrswHashtable_init ::
    "shm_services \<Rightarrow> mrsw_env \<Rightarrow> int \<Rightarrow> bool \<Rightarrow> mrsw \<Rightarrow> ErrorCode \<times> mrsw" where
  "MrswHashtable_init svc env maxSlotNum isLru m =
     (let memSize = qhasharr_calculate_memsize maxSlotNum
      in case shm_create svc memSize of
           Some e \<Rightarrow>
             let m = m\<lparr>shm := (shm m)\<lparr>errno := e\<rparr>\<rparr>
             in if e = EEXIST then getShm svc env isLru m else (kErrShmGet, m)
         | None \<Rightarrow>
             (case shm_attach svc of
                None \<Rightarrow> (kErrShmAt, m)
              | Some seg \<Rightarrow>
                  (case qhasharr Ptr memSize (seg\<lparr>errno := merrno m\<rparr>) of
                     (p, t) \<Rightarrow>
                       let m = m\<lparr>m_table := p, shm := t\<rparr>
                       in if p = NULL then (kErrShmInit, m)
                          else (kOk, m\<lparr>m_isLruEliminate := isLru, m_isInit := True\<rparr>))))"

end
