(* ===== verification/Mrsw_Spec.thy ===== *)
theory Mrsw_Spec
  imports Mrsw_Table
begin

text \<open>
  The verification code round-trips and is checked, every operation of the table keeps the
  object well-formed, and writing with eviction succeeds whenever the encoded value fits
  into the empty table.
\<close>

subsection \<open>The verification code\<close>

lemma word_len: "n < 2 ^ 32 \<Longrightarrow> unat (of_nat n :: u32) = n"
  by (simp add: unsigned_of_nat take_bit_nat_eq_self)

lemma need_md5_iff: "n < 2 ^ 32 \<Longrightarrow> (of_nat n :: u32) > NEED_MD5_VALUE_LEN \<longleftrightarrow> n > 1024"
  using word_len [of n] by (simp add: NEED_MD5_VALUE_LEN_def word_less_nat_alt)

lemma double_len: "\<not> vl > NEED_MD5_VALUE_LEN \<Longrightarrow> unat (vl * 2) = 2 * unat vl"
  by (simp add: NEED_MD5_VALUE_LEN_def word_less_nat_alt unat_word_ariths)

definition value_code :: "bytes \<Rightarrow> bytes" where
  "value_code v = (if length v > 1024 then md5_digest v else v)"

lemma encode_value:
  "length v < 2 ^ 32 \<Longrightarrow>
   encodeValueStr little v = to_le 4 (of_nat (length v) :: u32) @ v @ value_code v"
  by (simp add: encodeValueStr_def Let_def need_md5_iff encodeValueLen_bytes value_code_def)

lemma verify_layout:
  fixes x :: bytes and little :: bool
  defines "vl \<equiv> decodeValueLen little (x @ replicate 4 0)"
  shows "fst (verifyShmValue little x) = kOk \<longleftrightarrow>
    (if vl > NEED_MD5_VALUE_LEN
     then 4 + unat vl + 16 \<le> length x \<and>
       md5_digest (take (unat vl) (drop 4 x)) = take 16 (drop (unat vl) (drop 4 x))
     else 4 + 2 * unat vl \<le> length x \<and>
       take (unat vl) (drop 4 x) = take (unat vl) (drop (unat vl) (drop 4 x)))"
    "fst (verifyShmValue little x) = kOk \<Longrightarrow> snd (verifyShmValue little x) = take (unat vl) (drop 4 x)"
    "fst (verifyShmValue little x) \<noteq> kOk \<Longrightarrow> verifyShmValue little x = (kErrDataMess, x)"
  unfolding verifyShmValue_def vl_def [symmetric]
  by (auto simp: Let_def MD5_STR_LEN_def double_len not_le split: if_splits)

lemma verify_encode_rest:
  assumes "length v < 2 ^ 32"
  shows "verifyShmValue little (encodeValueStr little v @ rest) = (kOk, v)"
proof -
  let ?x = "encodeValueStr little v @ rest"
  have x: "?x = to_le 4 (of_nat (length v) :: u32) @ v @ value_code v @ rest"
    by (simp add: encode_value [OF assms])
  have vl: "decodeValueLen little (?x @ replicate 4 0) = of_nat (length v)"
    unfolding x by (subst decodeValueLen_bytes) simp_all
  have len: "unat (of_nat (length v) :: u32) = length v" by (rule word_len [OF assms])
  have "fst (verifyShmValue little ?x) = kOk"
    unfolding verify_layout(1) vl len need_md5_iff [OF assms] unfolding x
    by (simp add: value_code_def)
  then have "snd (verifyShmValue little ?x) = v" "fst (verifyShmValue little ?x) = kOk"
    using verify_layout(2) [of little ?x] unfolding vl len unfolding x by simp_all
  then show ?thesis by (simp add: prod_eq_iff)
qed

lemma verify_encode:
  "length v < 2 ^ 32 \<Longrightarrow> verifyShmValue little (encodeValueStr little v) = (kOk, v)"
  using verify_encode_rest [of v little "[]"] by simp

lemma length_encodeValueStr:
  "length v < 2 ^ 32 \<Longrightarrow>
   length (encodeValueStr little v) = 4 + length v + (if length v > 1024 then 16 else length v)"
  by (simp add: encode_value value_code_def)

lemma verify_sound:
  assumes "verifyShmValue little x = (kOk, v)"
  shows "length v < 2 ^ 32 \<and> (\<exists>rest. x = encodeValueStr little v @ rest)"
proof -
  define vl where "vl = decodeValueLen little (x @ replicate 4 0)"
  have ok: "fst (verifyShmValue little x) = kOk" using assms by simp
  note lay = verify_layout [of little x, folded vl_def]
  have v: "v = take (unat vl) (drop 4 x)" using lay(2) [OF ok] assms by simp
  have long: "4 + unat vl \<le> length x" using ok unfolding lay(1) by (auto split: if_splits)
  then have len: "length v = unat vl" using v by simp
  have small: "length v < 2 ^ 32" unfolding len using unsigned_less [of vl] by simp
  have n: "of_nat (length v) = vl" unfolding len by simp
  have "take 4 (x @ replicate 4 0) = take 4 x" using long by simp
  then have "vl = of_le (take 4 x)" unfolding vl_def by (subst decodeValueLen_bytes) simp_all
  then have head: "take 4 x = to_le 4 vl" using long by simp
  have code: "take (length (value_code v)) (drop (unat vl) (drop 4 x)) = value_code v"
    using ok need_md5_iff [OF small] unfolding lay(1) n
    by (auto simp: value_code_def len v [symmetric] split: if_splits)
  have "x = take 4 x @ take (unat vl) (drop 4 x) @
      take (length (value_code v)) (drop (unat vl) (drop 4 x)) @
      drop (length (value_code v)) (drop (unat vl) (drop 4 x))"
    by (metis append_take_drop_id)
  then have "x = encodeValueStr little v @ drop (length (value_code v)) (drop (unat vl) (drop 4 x))"
    unfolding encode_value [OF small] n by (simp only: head code v [symmetric] append_assoc)
  with small show ?thesis by blast
qed

lemma encode_nonempty [simp]: "encodeValueStr little v \<noteq> []"
proof -
  have "4 \<le> length (encodeValueStr little v)"
    by (simp add: encodeValueStr_def Let_def)
  then show ?thesis by auto
qed

subsection \<open>Well-formed objects\<close>

definition good_key :: "bytes \<Rightarrow> bool" where
  "good_key k \<longleftrightarrow> k \<noteq> [] \<and> length k < 65536"

definition mrsw_ok :: "mrsw \<Rightarrow> bool" where
  "mrsw_ok m \<longleftrightarrow> m_isInit m \<and> m_table m = Ptr \<and> table_ok (shm m) \<and> lru_ok (m_lru m) \<and>
     (\<forall>k\<in>set (lru_keys (m_lru m)). good_key k)"

text \<open>Every stored entry belongs to a recorded key; \<open>tracked_but i\<close> exempts the identity \<open>i\<close>.\<close>

definition tracked_but :: "key_id set \<Rightarrow> mrsw \<Rightarrow> bool" where
  "tracked_but X m \<longleftrightarrow>
     (\<forall>i\<in>dom (table_map (shm m)) - X. \<exists>k\<in>set (lru_keys (m_lru m)). key_id (shm m) k = i)"

abbreviation tracked :: "mrsw \<Rightarrow> bool" where
  "tracked \<equiv> tracked_but {}"

text \<open>The map shrinks, except perhaps at one identity.\<close>

definition shrinks :: "key_id set \<Rightarrow> mrsw \<Rightarrow> mrsw \<Rightarrow> bool" where
  "shrinks X m m' \<longleftrightarrow> same_table (shm m) (shm m') \<and> m_isLruEliminate m' = m_isLruEliminate m \<and>
     (\<forall>i. i \<notin> X \<longrightarrow> table_map (shm m') i = table_map (shm m) i \<or> table_map (shm m') i = None)"

lemma shrinksD:
  assumes "shrinks X m m'"
  shows "same_table (shm m) (shm m')" "m_isLruEliminate m' = m_isLruEliminate m"
    "i \<notin> X \<Longrightarrow> table_map (shm m') i = table_map (shm m) i \<or> table_map (shm m') i = None"
    "key_id (shm m') k = key_id (shm m) k" "bucket (shm m') k = bucket (shm m) k"
proof -
  show st: "same_table (shm m) (shm m')" using assms by (simp add: shrinks_def)
  show "m_isLruEliminate m' = m_isLruEliminate m" using assms by (simp add: shrinks_def)
  show "i \<notin> X \<Longrightarrow> table_map (shm m') i = table_map (shm m) i \<or> table_map (shm m') i = None"
    by (rule assms [unfolded shrinks_def, THEN conjunct2, THEN conjunct2, rule_format])
  show "key_id (shm m') k = key_id (shm m) k" by (rule same_table_key_id [OF st])
  show "bucket (shm m') k = bucket (shm m) k" using st by (simp add: same_table_def bucket_def)
qed

lemma shrinks_trans:
  assumes "shrinks X m m'" "shrinks X m' m''"
  shows "shrinks X m m''"
  unfolding shrinks_def
proof (intro conjI allI impI)
  fix i assume "i \<notin> X"
  then show "table_map (shm m'') i = table_map (shm m) i \<or> table_map (shm m'') i = None"
    using shrinksD(3) [OF assms(1), of i] shrinksD(3) [OF assms(2), of i] by auto
qed (use assms in \<open>auto simp: shrinks_def intro: same_table_trans\<close>)

lemma tracked_shrinks:
  assumes "tracked_but X m" "shrinks Y m m'" "set (lru_keys (m_lru m)) \<subseteq> set (lru_keys (m_lru m'))"
  shows "tracked_but (X \<union> Y) m'"
  unfolding tracked_but_def
proof
  fix i assume i: "i \<in> dom (table_map (shm m')) - (X \<union> Y)"
  then have "i \<in> dom (table_map (shm m)) - X" using shrinksD(3) [OF assms(2), of i] by auto
  then obtain k where "k \<in> set (lru_keys (m_lru m))" "key_id (shm m) k = i"
    using assms(1) unfolding tracked_but_def by blast
  then show "\<exists>k\<in>set (lru_keys (m_lru m')). key_id (shm m') k = i"
    using assms(3) shrinksD(4) [OF assms(2), of k] by auto
qed

lemma mrsw_okD:
  assumes "mrsw_ok m"
  shows "m_isInit m" "m_table m = Ptr" "table_ok (shm m)" "lru_ok (m_lru m)"
    "k \<in> set (lru_keys (m_lru m)) \<Longrightarrow> good_key k"
  using assms by (auto simp: mrsw_ok_def)

lemma mrsw_ok_shm: "mrsw_ok m \<Longrightarrow> table_ok t \<Longrightarrow> mrsw_ok (m\<lparr>shm := t\<rparr>)"
  by (simp add: mrsw_ok_def)

text \<open>A shrinking map only relieves the buckets.\<close>

lemma load_ok_shrinks:
  assumes load: "load_ok (shm m) key" and ok: "table_ok (shm m)" and s: "shrinks {} m m'"
  shows "load_ok (shm m') key"
proof -
  let ?i = "key_id (shm m) key" and ?h = "bucket (shm m) key"
  let ?B = "\<lambda>m. {k \<in> dom (table_map (shm m)). fst k = ?h}"
  have sub: "?B m' \<subseteq> ?B m"
  proof
    fix k assume "k \<in> ?B m'"
    then show "k \<in> ?B m" using shrinksD(3) [OF s, of k] by auto
  qed
  have fin: "finite (?B m)" using finite_table_map by simp
  show ?thesis
  proof (cases "?i \<in> dom (table_map (shm m'))")
    case True
    then show ?thesis by (simp add: load_ok_def shrinksD(4) [OF s])
  next
    case out: False
    have "card (?B m') < 32767"
    proof (cases "?i \<in> dom (table_map (shm m))")
      case True
      then have "?i \<in> ?B m" by (simp add: key_id_def)
      moreover have "?i \<notin> ?B m'" using out by simp
      ultimately have "?B m' \<subset> ?B m" using sub by blast
      then have "card (?B m') < card (?B m)" by (rule psubset_card_mono [OF fin])
      then show ?thesis using bucket_load_max [OF ok, of ?h] by (simp add: bucket_load_def)
    next
      case False
      then have "card (?B m) < 32767" using load by (simp add: load_ok_def bucket_load_def)
      then show ?thesis using card_mono [OF fin sub] by simp
    qed
    then show ?thesis by (simp add: load_ok_def bucket_load_def shrinksD(5) [OF s])
  qed
qed

lemma put_shm_spec:
  assumes ok: "mrsw_ok m" and key: "good_key key" and val: "val \<noteq> []" and load: "load_ok (shm m) key"
    and put: "put_shm key val m = (ret, m')"
  defines "i \<equiv> key_id (shm m) key"
  shows "mrsw_ok m'" "m_lru m' = m_lru m" "shrinks {i} m m'"
    "ret \<Longrightarrow> table_map (shm m') i = Some val"
    "\<not> ret \<Longrightarrow> shrinks {} m m' \<and> merrno m' = ENOBUFS"
    "\<not> ret \<Longrightarrow> slots_needed (length val) \<le> length (slots (shm m)) \<Longrightarrow> dom (table_map (shm m')) \<noteq> {}"
proof -
  let ?t = "shm m" and ?n = "length (slots (shm m))"
  obtain t' where r: "qhasharr_put Ptr (Some key) (Some val) ?t = (ret, t')" and m': "m' = m\<lparr>shm := t'\<rparr>"
    using put mrsw_okD(2) [OF ok] by (auto simp: put_shm_def split: prod.splits)
  have len: "length key < 65536" using key by (simp add: good_key_def)
  note b = put_bounded [OF mrsw_okD(3) [OF ok] len val load, unfolded r]
  have bm: "bm_put value_slots ?n i val (table_map ?t) = (ret, table_map t')" using b(3) by (simp add: i_def)
  then have fst: "fst (bm_put value_slots ?n i val (table_map ?t)) = ret" by simp
  from bm have map: "table_map t' = snd (bm_put value_slots ?n i val (table_map ?t))" by simp
  show "mrsw_ok m'" using b(1) mrsw_ok_shm [OF ok] by (simp add: m')
  show "m_lru m' = m_lru m" by (simp add: m')
  show "shrinks {i} m m'"
    using b(2) by (simp add: shrinks_def m' map bm_put_def)
  show "ret \<Longrightarrow> table_map (shm m') i = Some val"
    using fst by (simp add: m' map bm_put_def split: if_splits)
  show "\<not> ret \<Longrightarrow> shrinks {} m m' \<and> merrno m' = ENOBUFS"
    using b(2,4) fst by (simp add: shrinks_def m' map bm_put_def split: if_splits)
  assume "\<not> ret" and fits: "slots_needed (length val) \<le> ?n"
  show "dom (table_map (shm m')) \<noteq> {}"
  proof
    assume "dom (table_map (shm m')) = {}"
    then have "used_by value_slots (table_map t') = 0" by (simp add: m' used_by_def)
    moreover have "0 < ?n" using shape_okD(5) [OF table_okD(1) [OF mrsw_okD(3) [OF ok]]] .
    ultimately show False
      using \<open>\<not> ret\<close> fits bm by (auto simp: bm_put_def value_slots_def split: if_splits)
  qed
qed

lemma deleteKey_spec:
  assumes ok: "mrsw_ok m" and key: "good_key key"
  shows "\<exists>m'. deleteKey key m = (kOk, m') \<and> mrsw_ok m' \<and> m_lru m' = m_lru m \<and> shrinks {} m m' \<and>
    table_map (shm m') = (table_map (shm m))(key_id (shm m) key := None)"
proof -
  have len: "length key < 65536" "key \<noteq> []" using key by (auto simp: good_key_def)
  note okm = mrsw_okD [OF ok]
  show ?thesis
  proof (cases "table_map (shm m) (key_id (shm m) key)")
    case None
    let ?m = "m\<lparr>shm := (shm m)\<lparr>errno := ENOENT\<rparr>\<rparr>"
    have "deleteKey key m = (kOk, ?m)"
      using len okm qhasharr_remove_absent [OF okm(3) len(1) None] by (simp add: deleteKey_def Let_def)
    moreover have "table_map (shm m) = (table_map (shm m))(key_id (shm m) key := None)"
      using None by (simp add: fun_upd_idem)
    ultimately show ?thesis using ok by (simp add: shrinks_def mrsw_ok_def)
  next
    case (Some v)
    obtain t' where t': "qhasharr_remove Ptr (Some key) (shm m) = (True, t')" "removes (shm m) key v t'"
      using qhasharr_remove_present [OF okm(3) len(1) Some] by blast
    then have "deleteKey key m = (kOk, m\<lparr>shm := t'\<rparr>)"
      using len okm by (simp add: deleteKey_def Let_def)
    with t'(2) show ?thesis using ok by (simp add: removes_def shrinks_def mrsw_ok_def)
  qed
qed

subsection \<open>Eviction\<close>

text \<open>The state of the writing after a call of \<^verbatim>\<open>qhasharr_put\<close> that returned \<open>ret\<close>.\<close>

definition put_done :: "bytes \<Rightarrow> bytes \<Rightarrow> bool \<Rightarrow> mrsw \<Rightarrow> bool" where
  "put_done key val ret m \<longleftrightarrow> mrsw_ok m \<and>
     (if ret then table_map (shm m) (key_id (shm m) key) = Some val
      else merrno m = ENOBUFS \<and> load_ok (shm m) key)"

lemma put_shm_done:
  assumes ok: "mrsw_ok m" and key: "good_key key" and val: "val \<noteq> []" and load: "load_ok (shm m) key"
    and put: "put_shm key val m = (ret, m')"
  shows "put_done key val ret m'" "shrinks {key_id (shm m) key} m m'" "m_lru m' = m_lru m"
proof -
  note ps = put_shm_spec [OF ok key val load put]
  show "put_done key val ret m'"
  proof (cases ret)
    case True
    then show ?thesis
      using ps(1,4) shrinksD(4) [OF ps(3)] by (simp add: put_done_def)
  next
    case False
    then show ?thesis
      using ps(1,5) load_ok_shrinks [OF load mrsw_okD(3) [OF ok]] by (simp add: put_done_def)
  qed
  show "shrinks {key_id (shm m) key} m m'" "m_lru m' = m_lru m" by (rule ps)+
qed

lemma shrinks_mono:
  assumes "shrinks X m m'" "X \<subseteq> Y"
  shows "shrinks Y m m'"
  unfolding shrinks_def
proof (intro conjI allI impI)
  fix i assume "i \<notin> Y"
  with assms(2) have "i \<notin> X" by blast
  then show "table_map (shm m') i = table_map (shm m) i \<or> table_map (shm m') i = None"
    by (rule shrinksD(3) [OF assms(1)])
qed (rule shrinksD [OF assms(1)])+

text \<open>One round: the last recorded key is deleted and forgotten.\<close>

lemma evict_round:
  assumes ok: "mrsw_ok m" and ne: "lru_keys (m_lru m) \<noteq> []"
  shows "\<exists>m' l. deleteKey (getRemoveKey (m_lru m)) m = (kOk, m') \<and>
    removeKey (m_lru m') = Some (last (lru_keys (m_lru m)), l) \<and>
    mrsw_ok (m'\<lparr>m_lru := l\<rparr>) \<and> lru_keys l = butlast (lru_keys (m_lru m)) \<and>
    shrinks {} m (m'\<lparr>m_lru := l\<rparr>) \<and> (tracked m \<longrightarrow> tracked (m'\<lparr>m_lru := l\<rparr>))"
proof -
  let ?ks = "lru_keys (m_lru m)"
  let ?k = "last ?ks"
  have k: "getRemoveKey (m_lru m) = ?k" using ne by (simp add: getRemoveKey_last)
  have kin: "?k \<in> set ?ks" using ne by simp
  obtain m' where del: "deleteKey ?k m = (kOk, m')" and ok': "mrsw_ok m'" and lru: "m_lru m' = m_lru m"
    and sh: "shrinks {} m m'" and map: "table_map (shm m') = (table_map (shm m))(key_id (shm m) ?k := None)"
    using deleteKey_spec [OF ok mrsw_okD(5) [OF ok kin]] by blast
  obtain l where l: "removeKey (m_lru m') = Some (?k, l)" "lru_ok l" "lru_keys l = butlast ?ks"
    using removeKey_keys [OF mrsw_okD(4) [OF ok] ne] by (auto simp: lru)
  have ok'': "mrsw_ok (m'\<lparr>m_lru := l\<rparr>)"
    using ok' l mrsw_okD(5) [OF ok] by (auto simp: mrsw_ok_def dest: in_set_butlastD)
  have "tracked (m'\<lparr>m_lru := l\<rparr>)" if tr: "tracked m"
    unfolding tracked_but_def
  proof
    fix i assume "i \<in> dom (table_map (shm (m'\<lparr>m_lru := l\<rparr>))) - {}"
    then have i: "i \<in> dom (table_map (shm m))" "i \<noteq> key_id (shm m) ?k" by (auto simp: map split: if_splits)
    then obtain x where x: "x \<in> set ?ks" "key_id (shm m) x = i" using tr by (auto simp: tracked_but_def)
    then have "x \<noteq> ?k" using i(2) by auto
    moreover have "?ks = butlast ?ks @ [?k]" using ne by simp
    ultimately have "x \<in> set (butlast ?ks)" using x(1) by (metis Un_iff empty_iff list.set set_append singletonD)
    then show "\<exists>k\<in>set (lru_keys (m_lru (m'\<lparr>m_lru := l\<rparr>))). key_id (shm (m'\<lparr>m_lru := l\<rparr>)) k = i"
      using x(2) shrinksD(4) [OF sh, of x] by (auto simp: l(3))
  qed
  moreover have "shrinks {} m (m'\<lparr>m_lru := l\<rparr>)" using sh by (simp add: shrinks_def)
  ultimately show ?thesis using del l ok'' k by auto
qed

text \<open>
  The loop ends either with the value stored or, when no recorded key is left, with
  \<^verbatim>\<open>kErrInvalidParams\<close>; nothing but evictions has happened to other keys.
\<close>

lemma evict_loop_spec:
  assumes "put_done key val ret m" "good_key key" "val \<noteq> []"
  shows "\<exists>r m'. evict_loop key val ret m = (r, m') \<and> mrsw_ok m' \<and> shrinks {key_id (shm m) key} m m' \<and>
    set (lru_keys (m_lru m')) \<subseteq> set (lru_keys (m_lru m)) \<and>
    (case r of Inl ec \<Rightarrow> ec = kErrInvalidParams \<and> lru_keys (m_lru m') = []
     | Inr b \<Rightarrow> b \<and> table_map (shm m') (key_id (shm m) key) = Some val)"
  using assms
proof (induction "length (lru_keys (m_lru m))" arbitrary: ret m rule: less_induct)
  case less
  have ok: "mrsw_ok m" using less.prems(1) by (simp add: put_done_def)
  show ?case
  proof (cases ret)
    case True
    then show ?thesis
      using less.prems(1) by (subst evict_loop.simps) (simp add: put_done_def shrinks_def)
  next
    case False
    then have err: "merrno m = ENOBUFS" and load: "load_ok (shm m) key"
      using less.prems(1) by (simp_all add: put_done_def)
    show ?thesis
    proof (cases "lru_keys (m_lru m) = []")
      case True
      then have "evict_loop key val ret m = (Inl kErrInvalidParams, m)"
        using False err by (subst evict_loop.simps) (simp add: getRemoveKey_last deleteKey_def)
      then show ?thesis using True ok by (simp add: shrinks_def)
    next
      case ne: False
      obtain m1 l where del: "deleteKey (getRemoveKey (m_lru m)) m = (kOk, m1)"
        and rk: "removeKey (m_lru m1) = Some (last (lru_keys (m_lru m)), l)"
        and ok1: "mrsw_ok (m1\<lparr>m_lru := l\<rparr>)" and keys: "lru_keys l = butlast (lru_keys (m_lru m))"
        and sh1: "shrinks {} m (m1\<lparr>m_lru := l\<rparr>)"
        using evict_round [OF ok ne] by blast
      let ?m1 = "m1\<lparr>m_lru := l\<rparr>"
      obtain ret2 m2 where put: "put_shm key val ?m1 = (ret2, m2)" by (cases "put_shm key val ?m1")
      have load1: "load_ok (shm ?m1) key" by (rule load_ok_shrinks [OF load mrsw_okD(3) [OF ok] sh1])
      note pd = put_shm_done [OF ok1 less.prems(2,3) load1 put]
      have i: "key_id (shm ?m1) key = key_id (shm m) key" by (rule shrinksD(4) [OF sh1])
      have loop: "evict_loop key val ret m = evict_loop key val ret2 m2"
        using False err del rk put by (subst evict_loop.simps) simp
      have lru2: "lru_keys (m_lru m2) = butlast (lru_keys (m_lru m))" using pd(3) keys by simp
      have sh2: "shrinks {key_id (shm m) key} m m2"
        by (rule shrinks_trans [OF shrinks_mono [OF sh1] pd(2) [unfolded i]]) simp
      have smaller: "length (lru_keys (m_lru m2)) < length (lru_keys (m_lru m))" using ne lru2 by simp
      obtain r m' where r: "evict_loop key val ret2 m2 = (r, m')" "mrsw_ok m'"
        "shrinks {key_id (shm m2) key} m2 m'"
        "set (lru_keys (m_lru m')) \<subseteq> set (lru_keys (m_lru m2))"
        "case r of Inl ec \<Rightarrow> ec = kErrInvalidParams \<and> lru_keys (m_lru m') = []
         | Inr b \<Rightarrow> b \<and> table_map (shm m') (key_id (shm m2) key) = Some val"
        using less.hyps [OF smaller pd(1) less.prems(2,3)] by blast
      have i2: "key_id (shm m2) key = key_id (shm m) key" by (rule shrinksD(4) [OF sh2])
      have "shrinks {key_id (shm m) key} m m'" by (rule shrinks_trans [OF sh2 r(3) [unfolded i2]])
      moreover have "set (lru_keys (m_lru m')) \<subseteq> set (lru_keys (m_lru m))"
        using r(4) lru2 by (auto dest: in_set_butlastD)
      ultimately show ?thesis
        using loop r(1,2) r(5) [unfolded i2] by (intro exI [of _ r] exI [of _ m']) simp
    qed
  qed
qed

text \<open>
  Every stored key stays recorded, the one being written excepted; and if the value fits
  into an empty table, enough is evicted.
\<close>

lemma evict_loop_tracked:
  assumes "put_done key val ret m" "good_key key" "val \<noteq> []"
    "if ret then tracked_but {key_id (shm m) key} m else tracked m"
  shows "\<exists>r m'. evict_loop key val ret m = (r, m') \<and>
    (case r of Inl _ \<Rightarrow> tracked m' | Inr _ \<Rightarrow> tracked_but {key_id (shm m) key} m') \<and>
    (slots_needed (length val) \<le> length (slots (shm m)) \<and> (ret \<or> dom (table_map (shm m)) \<noteq> {}) \<longrightarrow>
     r = Inr True)"
  using assms
proof (induction "length (lru_keys (m_lru m))" arbitrary: ret m rule: less_induct)
  case less
  have ok: "mrsw_ok m" using less.prems(1) by (simp add: put_done_def)
  show ?case
  proof (cases ret)
    case True
    then show ?thesis using less.prems(4) by (subst evict_loop.simps) simp
  next
    case False
    then have err: "merrno m = ENOBUFS" and load: "load_ok (shm m) key" and tr: "tracked m"
      using less.prems(1,4) by (simp_all add: put_done_def)
    show ?thesis
    proof (cases "lru_keys (m_lru m) = []")
      case True
      then have "evict_loop key val ret m = (Inl kErrInvalidParams, m)"
        using False err by (subst evict_loop.simps) (simp add: getRemoveKey_last deleteKey_def)
      moreover have "dom (table_map (shm m)) = {}"
        using tr True unfolding tracked_but_def by (metis Diff_empty empty_iff list.set(1) subsetI subset_empty)
      ultimately show ?thesis using tr False by simp
    next
      case ne: False
      obtain m1 l where del: "deleteKey (getRemoveKey (m_lru m)) m = (kOk, m1)"
        and rk: "removeKey (m_lru m1) = Some (last (lru_keys (m_lru m)), l)"
        and ok1: "mrsw_ok (m1\<lparr>m_lru := l\<rparr>)" and keys: "lru_keys l = butlast (lru_keys (m_lru m))"
        and sh1: "shrinks {} m (m1\<lparr>m_lru := l\<rparr>)" and tr1: "tracked (m1\<lparr>m_lru := l\<rparr>)"
        using evict_round [OF ok ne] tr by blast
      let ?m1 = "m1\<lparr>m_lru := l\<rparr>"
      obtain ret2 m2 where put: "put_shm key val ?m1 = (ret2, m2)" by (cases "put_shm key val ?m1")
      have load1: "load_ok (shm ?m1) key" by (rule load_ok_shrinks [OF load mrsw_okD(3) [OF ok] sh1])
      note ps = put_shm_spec [OF ok1 less.prems(2,3) load1 put]
      note pd = put_shm_done [OF ok1 less.prems(2,3) load1 put]
      have loop: "evict_loop key val ret m = evict_loop key val ret2 m2"
        using False err del rk put by (subst evict_loop.simps) simp
      have smaller: "length (lru_keys (m_lru m2)) < length (lru_keys (m_lru m))" using ne pd(3) keys by simp
      have i: "key_id (shm m2) k = key_id (shm ?m1) k" "key_id (shm ?m1) k = key_id (shm m) k" for k
        by (rule shrinksD(4) [OF pd(2)], rule shrinksD(4) [OF sh1])
      have len: "length (slots (shm ?m1)) = length (slots (shm m))" "length (slots (shm m2)) = length (slots (shm m))"
        using shrinksD(1) [OF sh1] shrinksD(1) [OF pd(2)] by (simp_all add: same_table_def)
      have next_tr: "if ret2 then tracked_but {key_id (shm m2) key} m2 else tracked m2"
      proof (cases ret2)
        case True
        then show ?thesis using tracked_shrinks [OF tr1 pd(2)] pd(3) i by simp
      next
        case False
        then show ?thesis using tracked_shrinks [OF tr1 conjunct1 [OF ps(5) [OF False]]] pd(3) by simp
      qed
      have dom: "ret2 \<or> dom (table_map (shm m2)) \<noteq> {}"
        if "slots_needed (length val) \<le> length (slots (shm m))"
        using ps(6) that len(1) by (cases ret2) simp_all
      obtain r m' where "evict_loop key val ret2 m2 = (r, m')"
        "case r of Inl _ \<Rightarrow> tracked m' | Inr _ \<Rightarrow> tracked_but {key_id (shm m2) key} m'"
        "slots_needed (length val) \<le> length (slots (shm m2)) \<and> (ret2 \<or> dom (table_map (shm m2)) \<noteq> {}) \<longrightarrow>
         r = Inr True"
        using less.hyps [OF smaller pd(1) less.prems(2,3) next_tr] by blast
      moreover have "key_id (shm m2) key = key_id (shm m) key" by (simp only: i)
      ultimately show ?thesis using dom loop len by (cases r) auto
    qed
  qed
qed

subsection \<open>Writing and reading\<close>

lemma visit_ok:
  assumes "mrsw_ok m" "good_key key"
  shows "mrsw_ok (m\<lparr>m_lru := visitKey key (m_lru m)\<rparr>)"
    "tracked_but {key_id (shm m) key} m \<Longrightarrow> tracked (m\<lparr>m_lru := visitKey key (m_lru m)\<rparr>)"
proof -
  note lru = mrsw_okD(4) [OF assms(1)]
  have keys: "set (lru_keys (visitKey key (m_lru m))) = insert key (set (lru_keys (m_lru m)))"
    using lru_okD(2) [OF lru] by (auto simp: visitKey_keys [OF lru])
  show "mrsw_ok (m\<lparr>m_lru := visitKey key (m_lru m)\<rparr>)"
    using assms visitKey_ok [OF lru] by (simp add: mrsw_ok_def keys)
  show "tracked (m\<lparr>m_lru := visitKey key (m_lru m)\<rparr>)" if tr: "tracked_but {key_id (shm m) key} m"
    unfolding tracked_but_def
  proof
    fix i assume i: "i \<in> dom (table_map (shm (m\<lparr>m_lru := visitKey key (m_lru m)\<rparr>))) - {}"
    show "\<exists>k\<in>set (lru_keys (m_lru (m\<lparr>m_lru := visitKey key (m_lru m)\<rparr>))).
      key_id (shm (m\<lparr>m_lru := visitKey key (m_lru m)\<rparr>)) k = i"
    proof (cases "i = key_id (shm m) key")
      case False
      then have "i \<in> dom (table_map (shm m)) - {key_id (shm m) key}" using i by simp
      then obtain k where "k \<in> set (lru_keys (m_lru m))" "key_id (shm m) k = i"
        using tr unfolding tracked_but_def by blast
      then show ?thesis by (auto simp: keys)
    qed (simp add: keys)
  qed
qed

lemma setValue_shm_spec:
  assumes ok: "mrsw_ok m" and key: "good_key key" and val: "val \<noteq> []" and load: "load_ok (shm m) key"
    and set: "setValue_shm key val m = (ec, m')"
  defines "i \<equiv> key_id (shm m) key"
  shows "mrsw_ok m'" "shrinks {i} m m'"
    "ec = kOk \<or> ec = kErrNotEnoughSpace \<and> \<not> m_isLruEliminate m \<or> ec = kErrInvalidParams \<and> m_isLruEliminate m"
    "ec = kOk \<Longrightarrow> table_map (shm m') i = Some val \<and> lru_keys (m_lru m') \<noteq> [] \<and> hd (lru_keys (m_lru m')) = key"
    "ec \<noteq> kOk \<Longrightarrow> \<not> m_isLruEliminate m \<Longrightarrow> m_lru m' = m_lru m"
    "m_isLruEliminate m \<Longrightarrow> tracked m \<Longrightarrow> slots_needed (length val) \<le> length (slots (shm m)) \<Longrightarrow>
     ec = kOk"
    "tracked m \<Longrightarrow> tracked m'"
proof -
  obtain ret m1 where put: "put_shm key val m = (ret, m1)" by (cases "put_shm key val m")
  note ps = put_shm_spec [OF ok key val load put]
  note pd = put_shm_done [OF ok key val load put]
  have ne: "key \<noteq> []" using key by (simp add: good_key_def)
  have lru1: "m_isLruEliminate m1 = m_isLruEliminate m" by (rule shrinksD(2) [OF pd(2)])
  have i1: "key_id (shm m1) key = i" unfolding i_def by (rule shrinksD(4) [OF pd(2)])
  define visit where "visit m = m\<lparr>m_lru := visitKey key (m_lru m)\<rparr>" for m :: mrsw
  have visit: "mrsw_ok (visit u)" "shm (visit u) = shm u" "lru_keys (m_lru (visit u)) \<noteq> []"
    "hd (lru_keys (m_lru (visit u))) = key" "shrinks X m u \<Longrightarrow> shrinks X m (visit u)" if "mrsw_ok u" for u X
    using that visit_ok(1) [OF that key] visitKey_keys [OF mrsw_okD(4) [OF that], of key]
    by (simp_all add: visit_def shrinks_def)
  have "mrsw_ok m' \<and> shrinks {i} m m' \<and>
    (ec = kOk \<or> ec = kErrNotEnoughSpace \<and> \<not> m_isLruEliminate m \<or> ec = kErrInvalidParams \<and> m_isLruEliminate m) \<and>
    (ec = kOk \<longrightarrow> table_map (shm m') i = Some val \<and> lru_keys (m_lru m') \<noteq> [] \<and> hd (lru_keys (m_lru m')) = key) \<and>
    (ec \<noteq> kOk \<longrightarrow> \<not> m_isLruEliminate m \<longrightarrow> m_lru m' = m_lru m) \<and>
    (tracked m \<longrightarrow> m_isLruEliminate m \<longrightarrow> slots_needed (length val) \<le> length (slots (shm m)) \<longrightarrow> ec = kOk) \<and>
    (tracked m \<longrightarrow> tracked m')"
  proof (cases ret)
    case True
    then have res: "ec = kOk" "m' = visit m1"
      using set ne put by (simp_all add: setValue_shm_def visit_def)
    have "tracked m'" if "tracked m"
    proof -
      have "tracked_but {i} m1" using tracked_shrinks [OF that pd(2)] pd(3) by (simp add: i_def)
      then show ?thesis using visit_ok(2) [OF ps(1) key] by (simp add: i1 res(2) visit_def)
    qed
    then show ?thesis
      using visit [OF ps(1)] pd(2) ps(4) [OF True] by (simp add: res i_def)
  next
    case False
    have err: "merrno m1 = ENOBUFS" using ps(5) [OF False] by simp
    show ?thesis
    proof (cases "m_isLruEliminate m")
      case nolru: False
      then have "ec = kErrNotEnoughSpace" "m' = m1"
        using set ne put False err lru1 by (simp_all add: setValue_shm_def)
      moreover have "tracked m1" if "tracked m"
        using tracked_shrinks [OF that conjunct1 [OF ps(5) [OF False]]] pd(3) by simp
      ultimately show ?thesis using nolru ps(1,2) pd(2) by (simp add: i_def)
    next
      case lru: True
      obtain r m2 where loop: "evict_loop key val ret m1 = (r, m2)" and ok2: "mrsw_ok m2"
        and sh2: "shrinks {i} m1 m2"
        and r: "case r of Inl ec \<Rightarrow> ec = kErrInvalidParams \<and> lru_keys (m_lru m2) = []
          | Inr b \<Rightarrow> b \<and> table_map (shm m2) i = Some val"
        using evict_loop_spec [OF pd(1) key val] unfolding i1 by blast
      have sh: "shrinks {i} m m2" using shrinks_trans [OF pd(2) sh2 [unfolded i_def]] by (simp add: i_def)
      have res: "(ec, m') = (case r of Inl ec \<Rightarrow> (ec, m2)
          | Inr ret \<Rightarrow> (if ret then kOk else kErrStoreKVFailed, if ret then visit m2 else m2))"
        using set ne put False err lru lru1 loop
        by (auto simp: setValue_shm_def visit_def Let_def split: sum.splits if_splits)
      have s: "shrinks {} m m1" using ps(5) [OF False] by simp
      have tr2: "case r of Inl _ \<Rightarrow> tracked m2 | Inr _ \<Rightarrow> tracked_but {i} m2"
        and live: "slots_needed (length val) \<le> length (slots (shm m)) \<Longrightarrow> r = Inr True" if "tracked m"
      proof -
        have "tracked m1" using tracked_shrinks [OF that s] pd(3) by simp
        moreover have "length (slots (shm m1)) = length (slots (shm m))"
          using shrinksD(1) [OF s] by (simp add: same_table_def)
        ultimately show "case r of Inl _ \<Rightarrow> tracked m2 | Inr _ \<Rightarrow> tracked_but {i} m2"
          "slots_needed (length val) \<le> length (slots (shm m)) \<Longrightarrow> r = Inr True"
          using evict_loop_tracked [OF pd(1) key val] ps(6) [OF False] False loop i1 by auto
      qed
      show ?thesis
      proof (cases r)
        case (Inl e)
        then have "ec = kErrInvalidParams" "m' = m2" using res r by auto
        then show ?thesis using ok2 sh lru live tr2 Inl by auto
      next
        case (Inr b)
        then have b: "ec = kOk" "m' = visit m2" and v: "table_map (shm m2) i = Some val" using res r by auto
        have "tracked m'" if "tracked_but {i} m2"
          using visit_ok(2) [OF ok2 key] that shrinksD(4) [OF sh, of key] by (simp add: b(2) visit_def i_def)
        then show ?thesis using visit [OF ok2] sh v b tr2 lru Inr by auto
      qed
    qed
  qed
  then show "mrsw_ok m'" "shrinks {i} m m'"
    "ec = kOk \<or> ec = kErrNotEnoughSpace \<and> \<not> m_isLruEliminate m \<or> ec = kErrInvalidParams \<and> m_isLruEliminate m"
    "ec = kOk \<Longrightarrow> table_map (shm m') i = Some val \<and> lru_keys (m_lru m') \<noteq> [] \<and> hd (lru_keys (m_lru m')) = key"
    "ec \<noteq> kOk \<Longrightarrow> \<not> m_isLruEliminate m \<Longrightarrow> m_lru m' = m_lru m"
    "m_isLruEliminate m \<Longrightarrow> tracked m \<Longrightarrow> slots_needed (length val) \<le> length (slots (shm m)) \<Longrightarrow>
     ec = kOk"
    "tracked m \<Longrightarrow> tracked m'"
    by blast+
qed

lemma getValue_spec:
  assumes "mrsw_ok m" "good_key key"
  shows "getValue env key v m =
    (case table_map (shm m) (key_id (shm m) key) of
       None \<Rightarrow> (kErrNotFound, v, m\<lparr>shm := (shm m)\<lparr>errno := ENOENT\<rparr>\<rparr>)
     | Some raw \<Rightarrow>
         if e_alloc env (length raw)
         then (fst (verifyShmValue (e_little env) raw), snd (verifyShmValue (e_little env) raw), m)
         else (kErrNotFound, v, m\<lparr>shm := (shm m)\<lparr>errno := ENOMEM\<rparr>\<rparr>))"
proof -
  have "length key < 65536" "key \<noteq> []" using assms(2) by (auto simp: good_key_def)
  moreover have "m\<lparr>shm := shm m\<rparr> = m" by simp
  ultimately show ?thesis
    using mrsw_okD(1-3) [OF assms(1)]
    by (simp add: getValue_def qhasharr_get_spec split: option.split prod.split)
qed

lemma mrsw_ok_errno [simp]: "mrsw_ok (m\<lparr>shm := (shm m)\<lparr>errno := e\<rparr>\<rparr>) = mrsw_ok m"
  by (simp add: mrsw_ok_def)

lemma getValue_same:
  assumes "mrsw_ok m" "good_key key" "getValue env key v m = (ec, v', m')"
  shows "mrsw_ok m'" "shrinks {} m m'" "table_map (shm m') = table_map (shm m)" "m_lru m' = m_lru m"
    "tracked m \<Longrightarrow> tracked m'" "load_ok (shm m) key \<Longrightarrow> load_ok (shm m') key"
proof -
  have "m' = m \<or> (\<exists>e. m' = m\<lparr>shm := (shm m)\<lparr>errno := e\<rparr>\<rparr>)"
    using assms(3) unfolding getValue_spec [OF assms(1,2)] by (auto split: option.splits if_splits)
  moreover have key: "key_id (t\<lparr>errno := e\<rparr>) k = key_id t k" "bucket (t\<lparr>errno := e\<rparr>) k = bucket t k" for t e k
    by (simp_all add: key_id_def bucket_def)
  ultimately show "mrsw_ok m'" and sh: "shrinks {} m m'" and "table_map (shm m') = table_map (shm m)"
    and lru: "m_lru m' = m_lru m" and "load_ok (shm m) key \<Longrightarrow> load_ok (shm m') key"
    using assms(1) by (auto simp: shrinks_def load_ok_def bucket_load_def key)
  show "tracked m \<Longrightarrow> tracked m'" using tracked_shrinks [OF _ sh, of "{}"] lru by simp
qed

lemma setValue_spec:
  assumes ok: "mrsw_ok m" and key: "good_key key" and len: "length val < 2 ^ 32" and load: "load_ok (shm m) key"
    and set: "setValue env key val m = (ec, m')"
  defines "i \<equiv> key_id (shm m) key"
  shows "mrsw_ok m'" "shrinks {i} m m'" "tracked m \<Longrightarrow> tracked m'"
    "ec \<in> {kOk, kErrSetSameValue} \<Longrightarrow>
     \<exists>raw. table_map (shm m') i = Some raw \<and> verifyShmValue (e_little env) raw = (kOk, val)"
    "ec \<in> {kOk, kErrSetSameValue, kErrNotEnoughSpace, kErrInvalidParams}"
    "m_isLruEliminate m \<Longrightarrow> tracked m \<Longrightarrow>
     slots_needed (length (encodeValueStr (e_little env) val)) \<le> length (slots (shm m)) \<Longrightarrow>
     ec \<in> {kOk, kErrSetSameValue}"
proof -
  have ne: "m_isInit m" "key \<noteq> []" using ok key by (auto simp: mrsw_ok_def good_key_def)
  obtain r old m1 where get: "getValue env key [] m = (r, old, m1)" by (cases "getValue env key [] m")
  note g = getValue_same [OF ok key get]
  have i1: "key_id (shm m1) key = i" unfolding i_def by (rule shrinksD(4) [OF g(2)])
  have len1: "length (slots (shm m1)) = length (slots (shm m))"
    using shrinksD(1) [OF g(2)] by (simp add: same_table_def)
  have "mrsw_ok m' \<and> shrinks {i} m m' \<and> (tracked m \<longrightarrow> tracked m') \<and>
    (ec \<in> {kOk, kErrSetSameValue} \<longrightarrow>
     (\<exists>raw. table_map (shm m') i = Some raw \<and> verifyShmValue (e_little env) raw = (kOk, val))) \<and>
    ec \<in> {kOk, kErrSetSameValue, kErrNotEnoughSpace, kErrInvalidParams} \<and>
    (m_isLruEliminate m \<longrightarrow> tracked m \<longrightarrow>
     slots_needed (length (encodeValueStr (e_little env) val)) \<le> length (slots (shm m)) \<longrightarrow>
     ec \<in> {kOk, kErrSetSameValue})"
  proof (cases "r = kOk \<and> val = old")
    case True
    then have res: "ec = kErrSetSameValue" "m' = m1" using set ne get by (simp_all add: setValue_def)
    obtain raw where "table_map (shm m) i = Some raw" "verifyShmValue (e_little env) raw = (kOk, val)"
      using get True unfolding getValue_spec [OF ok key] i_def
      by (auto simp: prod_eq_iff split: option.splits if_splits)
    then show ?thesis using res g shrinks_mono [OF g(2)] by simp
  next
    case False
    then have s: "setValue_shm key (encodeValueStr (e_little env) val) m1 = (ec, m')"
      using set ne get by (auto simp: setValue_def)
    note ss = setValue_shm_spec [OF g(1) key encode_nonempty g(6) [OF load] s, unfolded i1]
    have sh: "shrinks {i} m m'" using shrinks_trans [OF shrinks_mono [OF g(2)] ss(2)] by simp
    have "ec = kOk \<Longrightarrow> \<exists>raw. table_map (shm m') i = Some raw \<and> verifyShmValue (e_little env) raw = (kOk, val)"
      using ss(4) verify_encode [OF len] by blast
    then show ?thesis
      using ss(1,3,6,7) sh g(5) shrinksD(2) [OF g(2)] len1 by auto
  qed
  then show "mrsw_ok m'" "shrinks {i} m m'" "tracked m \<Longrightarrow> tracked m'"
    "ec \<in> {kOk, kErrSetSameValue} \<Longrightarrow>
     \<exists>raw. table_map (shm m') i = Some raw \<and> verifyShmValue (e_little env) raw = (kOk, val)"
    "ec \<in> {kOk, kErrSetSameValue, kErrNotEnoughSpace, kErrInvalidParams}"
    "m_isLruEliminate m \<Longrightarrow> tracked m \<Longrightarrow>
     slots_needed (length (encodeValueStr (e_little env) val)) \<le> length (slots (shm m)) \<Longrightarrow>
     ec \<in> {kOk, kErrSetSameValue}"
    by blast+
qed

subsection \<open>Creation and reachable states\<close>

lemma clearTable_spec:
  assumes "mrsw_ok m"
  shows "fst (clearTable m) = kOk" "mrsw_ok (snd (clearTable m))"
    "table_map (shm (snd (clearTable m))) = Map.empty" "tracked (snd (clearTable m))"
    "same_table (shm m) (shm (snd (clearTable m)))" "m_lru (snd (clearTable m)) = m_lru m"
  using mrsw_okD [OF assms] qhasharr_clear_spec [of "shm m"]
  by (simp_all add: clearTable_def mrsw_ok_def tracked_but_def)

definition fresh_services :: "shm_services" where
  "fresh_services = \<lparr>shm_create = (\<lambda>_. None), shm_open = True,
     shm_attach = Some \<lparr>maxslots = 0, usedslots = 0, num = 0, slots = [], errno = E_CLEAR\<rparr>\<rparr>"

lemma init_creates:
  assumes "1 \<le> n" "n < 2147483648" "shm_create svc (qhasharr_calculate_memsize n) = None"
    "shm_attach svc = Some seg"
  shows "\<exists>m. MrswHashtable_init svc env n isLru (MrswHashtable t) = (kOk, m) \<and> mrsw_ok m \<and> tracked m \<and>
    table_map (shm m) = Map.empty \<and> length (slots (shm m)) = nat n \<and> m_isLruEliminate m = isLru"
proof -
  obtain t' where "qhasharr Ptr (qhasharr_calculate_memsize n) (seg\<lparr>errno := errno t\<rparr>) = (Ptr, t')"
    "table_ok t'" "table_map t' = Map.empty" "length (slots t') = nat n"
    using qhasharr_creates [OF assms(1,2), of "seg\<lparr>errno := errno t\<rparr>"] by blast
  then show ?thesis
    using assms(3,4) lru_init
    by (simp add: MrswHashtable_init_def MrswHashtable_def Let_def mrsw_ok_def tracked_but_def)
qed

lemma isExist_spec:
  assumes "mrsw_ok m" "good_key key"
  shows "isExist key b m = (kOk, table_map (shm m) (key_id (shm m) key) \<noteq> None, m)"
  using mrsw_okD(1-3) [OF assms(1)] assms(2) qhasharr_exist_spec [OF mrsw_okD(3) [OF assms(1)], of key]
  by (simp add: isExist_def good_key_def)

text \<open>A step of an iteration changes at most \<^verbatim>\<open>errno\<close>, whatever index and strings it starts from.\<close>

lemma get_data_errno: "\<exists>e. snd (get_data alloc t i) = t\<lparr>errno := e\<rparr>"
  by (auto simp: get_data_def Let_def intro: exI [of _ "errno t"] split: option.split)

lemma getnext_errno: "\<exists>e. snd (snd (getnext_loop alloc t i)) = t\<lparr>errno := e\<rparr>"
proof (induction alloc t i rule: getnext_loop.induct)
  case (1 alloc t i)
  obtain e where e: "snd (get_data alloc t (Some i)) = t\<lparr>errno := e\<rparr>" using get_data_errno by blast
  then show ?case
    using 1 by (cases "get_data alloc t (Some i)") (auto simp: getnext_loop.simps [of alloc t i] Let_def split: option.split)
qed

lemma getNext_errno: "\<exists>e. snd (snd (snd (snd (getNext env key val i m)))) = m\<lparr>shm := (shm m)\<lparr>errno := e\<rparr>\<rparr>"
proof -
  obtain r i' t where r: "qhasharr_getnext (e_alloc env) (m_table m) i (shm m) = (r, i', t)" by (metis prod.collapse)
  have "\<exists>e. snd (snd (qhasharr_getnext (e_alloc env) (m_table m) i (shm m))) = (shm m)\<lparr>errno := e\<rparr>"
    using getnext_errno [of "e_alloc env" "shm m" i] by (auto simp: qhasharr_getnext_def)
  then obtain e where "t = (shm m)\<lparr>errno := e\<rparr>" using r by auto
  moreover have "\<exists>e. m = m\<lparr>shm := (shm m)\<lparr>errno := e\<rparr>\<rparr>" by (rule exI [of _ "errno (shm m)"]) simp
  ultimately show ?thesis
    using r by (cases r) (auto simp: getNext_def getNextKVPair_def Let_def split: prod.split)
qed

lemma getNext_same:
  assumes "mrsw_ok m" "m' = snd (snd (snd (snd (getNext env key val i m))))"
  shows "mrsw_ok m'" "shrinks {} m m'" "tracked m \<Longrightarrow> tracked m'"
proof -
  obtain e where e: "m' = m\<lparr>shm := (shm m)\<lparr>errno := e\<rparr>\<rparr>"
    using getNext_errno [of env key val i m] assms(2) by auto
  show "mrsw_ok m'" and sh: "shrinks {} m m'" using assms(1) by (auto simp: e shrinks_def)
  show "tracked m \<Longrightarrow> tracked m'" using tracked_shrinks [OF _ sh, of "{}"] by (simp add: e)
qed

text \<open>
  What the clients may do with a table, in any order, with keys of at most \<open>kmax\<close> bytes; an
  iteration is any sequence of calls of \<^verbatim>\<open>getNext\<close>. (\<^verbatim>\<open>getStats\<close> only reads.)
\<close>

inductive mrsw_step :: "mrsw_env \<Rightarrow> nat \<Rightarrow> mrsw \<Rightarrow> mrsw \<Rightarrow> bool" for env kmax where
  set: "good_key key \<Longrightarrow> length key \<le> kmax \<Longrightarrow> length val < 2 ^ 32 \<Longrightarrow>
    mrsw_step env kmax m (snd (setValue env key val m))"
| get: "good_key key \<Longrightarrow> mrsw_step env kmax m (snd (snd (getValue env key val m)))"
| exist: "good_key key \<Longrightarrow> mrsw_step env kmax m (snd (snd (isExist key b m)))"
| delete: "good_key key \<Longrightarrow> mrsw_step env kmax m (snd (deleteKey key m))"
| next_pair: "mrsw_step env kmax m (snd (snd (snd (snd (getNext env key val index m)))))"
| clear: "mrsw_step env kmax m (snd (clearTable m))"

inductive_cases mrsw_stepE: "mrsw_step env kmax m m'"

lemma load_ok_small:
  assumes "table_ok t" "length (slots t) < 32767"
  shows "load_ok t key"
proof -
  have "card (in_bucket t (bucket t key)) \<le> card {..<length (slots t)}"
    by (intro card_mono) (auto simp: in_bucket_iff dest: key_slots_range)
  then show ?thesis
    using assms in_bucket_load [OF assms(1), of "bucket t key"] by (simp add: load_ok_def)
qed

definition mrsw_inv :: "mrsw \<Rightarrow> bool" where
  "mrsw_inv m \<longleftrightarrow> mrsw_ok m \<and> tracked m \<and> length (slots (shm m)) < 32767"

lemma mrsw_inv_keep:
  "mrsw_inv m \<Longrightarrow> mrsw_ok m' \<Longrightarrow> tracked m' \<Longrightarrow> shrinks X m m' \<Longrightarrow> mrsw_inv m'"
  using shrinksD(1) [of X m m'] by (simp add: mrsw_inv_def same_table_def)

lemma mrsw_inv_step:
  assumes inv: "mrsw_inv m" and step: "mrsw_step env kmax m m'"
  shows "mrsw_inv m'"
proof -
  have ok: "mrsw_ok m" and tr: "tracked m" and n: "length (slots (shm m)) < 32767"
    using inv by (auto simp: mrsw_inv_def)
  have load: "load_ok (shm m) key" for key by (rule load_ok_small [OF mrsw_okD(3) [OF ok] n])
  have keep: "mrsw_inv m2" if "mrsw_ok m2" "tracked m2" "shrinks X m m2" for X m2
    by (rule mrsw_inv_keep [OF inv that])
  from step show ?thesis
  proof cases
    case (set key val)
    obtain ec m2 where s: "setValue env key val m = (ec, m2)" by (cases "setValue env key val m")
    note ss = setValue_spec [OF ok set(2,4) load s]
    show ?thesis using keep [OF ss(1) ss(3) [OF tr] ss(2)] s set(1) by simp
  next
    case (get key val)
    obtain ec v m2 where s: "getValue env key val m = (ec, v, m2)" by (cases "getValue env key val m")
    note gs = getValue_same [OF ok get(2) s]
    show ?thesis using keep [OF gs(1) gs(5) [OF tr] gs(2)] s get(1) by simp
  next
    case (exist key b)
    show ?thesis using inv exist(1) isExist_spec [OF ok exist(2), of b] by simp
  next
    case (delete key)
    obtain m2 where d: "deleteKey key m = (kOk, m2)" "mrsw_ok m2" "m_lru m2 = m_lru m" "shrinks {} m m2"
      using deleteKey_spec [OF ok delete(2)] by blast
    have "tracked m2" using tracked_shrinks [OF tr d(4)] d(3) by simp
    then show ?thesis using keep [OF d(2) _ d(4)] d(1) delete(1) by simp
  next
    case (next_pair key val index)
    note gs = getNext_same [OF ok next_pair]
    show ?thesis using keep [OF gs(1) gs(3) [OF tr] gs(2)] .
  next
    case clear
    then show ?thesis
      using clearTable_spec [OF ok] n by (simp add: mrsw_inv_def same_table_def)
  qed
qed

text \<open>No operation changes the number of slots.\<close>

lemma mrsw_step_slots:
  assumes inv: "mrsw_inv m" and step: "mrsw_step env kmax m m'"
  shows "length (slots (shm m')) = length (slots (shm m))"
proof -
  have ok: "mrsw_ok m" and n: "length (slots (shm m)) < 32767" using inv by (auto simp: mrsw_inv_def)
  have load: "load_ok (shm m) key" for key by (rule load_ok_small [OF mrsw_okD(3) [OF ok] n])
  have keep: "length (slots (shm m2)) = length (slots (shm m))" if "shrinks X m m2" for X m2
    using shrinksD(1) [OF that] by (simp add: same_table_def)
  from step show ?thesis
  proof cases
    case (set key val)
    then show ?thesis using keep [OF setValue_spec(2) [OF ok set(2,4) load prod.collapse [symmetric]]] by simp
  next
    case (get key val)
    then have "shrinks {} m m'" using getValue_same(2) [OF ok get(2)] by (metis prod.collapse)
    then show ?thesis by (rule keep)
  next
    case (exist key b)
    then show ?thesis using isExist_spec [OF ok exist(2), of b] by simp
  next
    case (delete key)
    obtain m2 where "deleteKey key m = (kOk, m2)" "shrinks {} m m2"
      using deleteKey_spec [OF ok delete(2)] by blast
    then show ?thesis using keep [of "{}" m2] delete(1) by simp
  next
    case (next_pair key val index)
    then show ?thesis using keep [OF getNext_same(2) [OF ok]] by simp
  next
    case clear
    then show ?thesis using clearTable_spec(5) [OF ok] by (simp add: same_table_def)
  qed
qed

lemma mrsw_inv_reachable:
  assumes "(mrsw_step env kmax)\<^sup>*\<^sup>* m m'" "mrsw_inv m"
  shows "mrsw_inv m' \<and> length (slots (shm m')) = length (slots (shm m))"
  using assms by (induction rule: rtranclp_induct) (auto intro: mrsw_inv_step simp: mrsw_step_slots)

end
