(* ===== verification/Mrsw_Evict.thy ===== *)
theory Mrsw_Evict
  imports Mrsw_Spec
begin

text \<open>
  Which keys a write gives up: the keys forgotten are the tail of the recency list, the keys
  written longest ago, and an entry disappears only with the key that records it.
\<close>

text \<open>
  From \<open>m\<close> to \<open>m'\<close> the recency list lost a tail and every entry outside \<open>X\<close> that is gone
  belonged to a key of that tail.
\<close>

definition evicted :: "key_id set \<Rightarrow> mrsw \<Rightarrow> mrsw \<Rightarrow> bool" where
  "evicted X m m' \<longleftrightarrow>
     (\<exists>gone. lru_keys (m_lru m) = lru_keys (m_lru m') @ gone \<and>
       (\<forall>i. i \<notin> X \<longrightarrow> table_map (shm m') i = table_map (shm m) i \<or>
         table_map (shm m') i = None \<and> i \<in> key_id (shm m) ` set gone))"

lemma evictedI:
  assumes "lru_keys (m_lru m) = lru_keys (m_lru m') @ gone"
    "\<And>i. i \<notin> X \<Longrightarrow> table_map (shm m') i = table_map (shm m) i \<or>
      table_map (shm m') i = None \<and> i \<in> key_id (shm m) ` set gone"
  shows "evicted X m m'"
  using assms unfolding evicted_def by blast

lemma evicted_refl: "evicted X m m"
  by (rule evictedI [where gone = "[]"]) simp_all

lemma evicted_trans:
  assumes "evicted X m m'" "evicted X m' m''" "\<And>k. key_id (shm m') k = key_id (shm m) k"
  shows "evicted X m m''"
proof -
  obtain g where g: "lru_keys (m_lru m) = lru_keys (m_lru m') @ g"
    and gm: "\<forall>i. i \<notin> X \<longrightarrow> table_map (shm m') i = table_map (shm m) i \<or>
      table_map (shm m') i = None \<and> i \<in> key_id (shm m) ` set g"
    using assms(1) unfolding evicted_def by blast
  obtain h where h: "lru_keys (m_lru m') = lru_keys (m_lru m'') @ h"
    and hm: "\<forall>i. i \<notin> X \<longrightarrow> table_map (shm m'') i = table_map (shm m') i \<or>
      table_map (shm m'') i = None \<and> i \<in> key_id (shm m') ` set h"
    using assms(2) unfolding evicted_def by blast
  have ids: "key_id (shm m') = key_id (shm m)" by (rule ext) (rule assms(3))
  show ?thesis
  proof (rule evictedI)
    show "lru_keys (m_lru m) = lru_keys (m_lru m'') @ (h @ g)" by (simp add: g h)
    fix i assume i: "i \<notin> X"
    note G = gm [rule_format, OF i] and H = hm [rule_format, OF i, unfolded ids]
    show "table_map (shm m'') i = table_map (shm m) i \<or>
      table_map (shm m'') i = None \<and> i \<in> key_id (shm m) ` set (h @ g)"
      using G H unfolding set_append image_Un by (elim disjE conjE) simp_all
  qed
qed

lemma put_shm_evicted:
  assumes "mrsw_ok m" "good_key key" "val \<noteq> []" "load_ok (shm m) key" "put_shm key val m = (ret, m')"
  shows "evicted {key_id (shm m) key} m m'"
proof -
  have len: "length key < 65536" using assms(2) by (simp add: good_key_def)
  obtain t' where r: "qhasharr_put Ptr (Some key) (Some val) (shm m) = (ret, t')" and m': "m' = m\<lparr>shm := t'\<rparr>"
    using assms(5) mrsw_okD(2) [OF assms(1)] by (auto simp: put_shm_def split: prod.splits)
  note b = put_bounded [OF mrsw_okD(3) [OF assms(1)] len assms(3,4), unfolded r]
  have "table_map t' = snd (bm_put value_slots (length (slots (shm m))) (key_id (shm m) key) val (table_map (shm m)))"
    using b(3) by (metis prod.sel(2) snd_map_prod)
  then show ?thesis
    by (intro evictedI [where gone = "[]"]) (simp_all add: m' bm_put_other)
qed

lemma evict_round_evicted:
  assumes ok: "mrsw_ok m" and ne: "lru_keys (m_lru m) \<noteq> []"
    and del: "deleteKey (getRemoveKey (m_lru m)) m = (kOk, m1)"
    and rk: "removeKey (m_lru m1) = Some (x, l)"
  shows "evicted X m (m1\<lparr>m_lru := l\<rparr>)"
proof -
  let ?ks = "lru_keys (m_lru m)"
  let ?k = "last ?ks"
  have k: "getRemoveKey (m_lru m) = ?k" using ne by (simp add: getRemoveKey_last)
  have "good_key ?k" using mrsw_okD(5) [OF ok] ne by simp
  then obtain m' where m': "deleteKey ?k m = (kOk, m')" "m_lru m' = m_lru m"
    "table_map (shm m') = (table_map (shm m))(key_id (shm m) ?k := None)"
    using deleteKey_spec [OF ok] by blast
  have eq: "m1 = m'" using del m'(1) unfolding k by simp
  have "lru_keys l = butlast ?ks"
    using removeKey_keys [OF mrsw_okD(4) [OF ok] ne] rk m'(2) by (auto simp: eq)
  then show ?thesis
    using ne m'(3) by (intro evictedI [where gone = "[?k]"]) (simp_all add: eq)
qed

lemma evict_loop_evicted:
  assumes "put_done key val ret m" "good_key key" "val \<noteq> []"
  shows "evicted {key_id (shm m) key} m (snd (evict_loop key val ret m))"
  using assms
proof (induction "length (lru_keys (m_lru m))" arbitrary: ret m rule: less_induct)
  case less
  have ok: "mrsw_ok m" using less.prems(1) by (simp add: put_done_def)
  show ?case
  proof (cases "ret \<or> lru_keys (m_lru m) = []")
    case True
    then have "snd (evict_loop key val ret m) = m"
      by (subst evict_loop.simps) (auto simp: getRemoveKey_last deleteKey_def)
    then show ?thesis by (simp add: evicted_refl)
  next
    case False
    then have err: "merrno m = ENOBUFS" and load: "load_ok (shm m) key" and ne: "lru_keys (m_lru m) \<noteq> []"
      using less.prems(1) by (simp_all add: put_done_def)
    obtain m1 l where del: "deleteKey (getRemoveKey (m_lru m)) m = (kOk, m1)"
      and rk: "removeKey (m_lru m1) = Some (last (lru_keys (m_lru m)), l)"
      and ok1: "mrsw_ok (m1\<lparr>m_lru := l\<rparr>)" and keys: "lru_keys l = butlast (lru_keys (m_lru m))"
      and sh1: "shrinks {} m (m1\<lparr>m_lru := l\<rparr>)"
      using evict_round [OF ok ne] by blast
    let ?m1 = "m1\<lparr>m_lru := l\<rparr>"
    obtain ret2 m2 where put: "put_shm key val ?m1 = (ret2, m2)" by (cases "put_shm key val ?m1")
    have load1: "load_ok (shm ?m1) key" by (rule load_ok_shrinks [OF load mrsw_okD(3) [OF ok] sh1])
    note pd = put_shm_done [OF ok1 less.prems(2,3) load1 put]
    have i: "key_id (shm ?m1) k = key_id (shm m) k" "key_id (shm m2) k = key_id (shm ?m1) k" for k
      by (rule shrinksD(4) [OF sh1], rule shrinksD(4) [OF pd(2)])
    have loop: "evict_loop key val ret m = evict_loop key val ret2 m2"
      using False err del rk put by (subst evict_loop.simps) simp
    have smaller: "length (lru_keys (m_lru m2)) < length (lru_keys (m_lru m))"
      using ne pd(3) keys by simp
    note e1 = evict_round_evicted [OF ok ne del rk]
    note e2 = put_shm_evicted [OF ok1 less.prems(2,3) load1 put, unfolded i]
    note e3 = less.hyps [OF smaller pd(1) less.prems(2,3), unfolded i]
    show ?thesis
      unfolding loop by (rule evicted_trans [OF e1 evicted_trans [OF e2 e3]]) (simp_all only: i)
  qed
qed

text \<open>
  A successful write of another value puts the key at the head of the recency list and drops
  a tail of it; exactly the entries of the dropped keys may be lost.
\<close>

lemma setValue_evicts:
  assumes ok: "mrsw_ok m" and key: "good_key key" and val: "val \<noteq> []" and load: "load_ok (shm m) key"
    and set: "setValue_shm key val m = (kOk, m')"
  shows "\<exists>kept gone. lru_keys (m_lru m) = kept @ gone \<and> lru_keys (m_lru m') = key # remove1 key kept \<and>
    (\<forall>i. i \<noteq> key_id (shm m) key \<longrightarrow> table_map (shm m') i = table_map (shm m) i \<or>
       table_map (shm m') i = None \<and> i \<in> key_id (shm m) ` set gone)"
proof -
  let ?i = "key_id (shm m) key"
  obtain ret m1 where put: "put_shm key val m = (ret, m1)" by (cases "put_shm key val m")
  note pd = put_shm_done [OF ok key val load put]
  have i1: "key_id (shm m1) k = key_id (shm m) k" for k by (rule shrinksD(4) [OF pd(2)])
  have e1: "evicted {?i} m m1" by (rule put_shm_evicted [OF ok key val load put])
  have ne: "key \<noteq> []" using key by (simp add: good_key_def)
  obtain r m2 where loop: "evict_loop key val ret m1 = (r, m2)" by (cases "evict_loop key val ret m1")
  have ok2: "mrsw_ok m2" using evict_loop_spec [OF pd(1) key val] loop by auto
  have e2: "evicted {?i} m1 m2" using evict_loop_evicted [OF pd(1) key val] loop i1 by simp
  have "evicted {?i} m m2" by (rule evicted_trans [OF e1 e2 i1])
  moreover have "m' = m2\<lparr>m_lru := visitKey key (m_lru m2)\<rparr>"
  proof (cases ret)
    case True
    then have "m2 = m1" using loop by (subst (asm) evict_loop.simps) simp
    then show ?thesis using set ne put True by (simp add: setValue_shm_def)
  next
    case False
    have err: "merrno m1 = ENOBUFS" using pd(1) False by (simp add: put_done_def)
    have lru: "m_isLruEliminate m1"
      using set ne put False err by (auto simp: setValue_shm_def split: if_splits)
    show ?thesis
    proof (cases r)
      case (Inl e)
      then have "e = kErrInvalidParams" using evict_loop_spec [OF pd(1) key val] loop by auto
      then show ?thesis using set ne put False err lru loop Inl by (simp add: setValue_shm_def)
    next
      case (Inr b)
      then show ?thesis
        using set ne put False err lru loop by (auto simp: setValue_shm_def Let_def split: if_splits)
    qed
  qed
  moreover note visitKey_keys [OF mrsw_okD(4) [OF ok2], of key]
  ultimately show ?thesis unfolding evicted_def by auto
qed

subsection \<open>Failed writes\<close>

text \<open>A loop that gives up has stored nothing.\<close>

lemma evict_loop_fails:
  assumes "put_done key val ret m" "good_key key" "val \<noteq> []" "evict_loop key val ret m = (Inl ec, m')"
  shows "shrinks {} m m'"
  using assms
proof (induction "length (lru_keys (m_lru m))" arbitrary: ret m rule: less_induct)
  case less
  have ok: "mrsw_ok m" using less.prems(1) by (simp add: put_done_def)
  have "\<not> ret" using less.prems(4) by (subst (asm) evict_loop.simps) (auto split: if_splits)
  then have err: "merrno m = ENOBUFS" and load: "load_ok (shm m) key"
    using less.prems(1) by (simp_all add: put_done_def)
  show ?case
  proof (cases "lru_keys (m_lru m) = []")
    case True
    then have "evict_loop key val ret m = (Inl kErrInvalidParams, m)"
      using \<open>\<not> ret\<close> err by (subst evict_loop.simps) (simp add: getRemoveKey_last deleteKey_def)
    then show ?thesis using less.prems(4) by (simp add: shrinks_def)
  next
    case ne: False
    obtain m1 l where del: "deleteKey (getRemoveKey (m_lru m)) m = (kOk, m1)"
      and rk: "removeKey (m_lru m1) = Some (last (lru_keys (m_lru m)), l)"
      and ok1: "mrsw_ok (m1\<lparr>m_lru := l\<rparr>)" and keys: "lru_keys l = butlast (lru_keys (m_lru m))"
      and sh1: "shrinks {} m (m1\<lparr>m_lru := l\<rparr>)"
      using evict_round [OF ok ne] by blast
    let ?m1 = "m1\<lparr>m_lru := l\<rparr>"
    obtain ret2 m2 where put: "put_shm key val ?m1 = (ret2, m2)" by (cases "put_shm key val ?m1")
    have load1: "load_ok (shm ?m1) key" by (rule load_ok_shrinks [OF load mrsw_okD(3) [OF ok] sh1])
    note ps = put_shm_spec [OF ok1 less.prems(2,3) load1 put]
    note pd = put_shm_done [OF ok1 less.prems(2,3) load1 put]
    have loop: "evict_loop key val ret m = evict_loop key val ret2 m2"
      using \<open>\<not> ret\<close> err del rk put by (subst evict_loop.simps) simp
    then have r2: "evict_loop key val ret2 m2 = (Inl ec, m')" using less.prems(4) by simp
    then have "\<not> ret2" by (subst (asm) evict_loop.simps) (auto split: if_splits)
    then have sh2: "shrinks {} ?m1 m2" using ps(5) by blast
    have smaller: "length (lru_keys (m_lru m2)) < length (lru_keys (m_lru m))"
      using ne pd(3) keys by simp
    show ?thesis
      by (rule shrinks_trans [OF sh1 shrinks_trans [OF sh2 less.hyps [OF smaller pd(1) less.prems(2,3) r2]]])
  qed
qed

lemma setValue_shm_fails:
  assumes ok: "mrsw_ok m" and key: "good_key key" and val: "val \<noteq> []" and load: "load_ok (shm m) key"
    and set: "setValue_shm key val m = (ec, m')" and ec: "ec \<noteq> kOk"
  shows "shrinks {} m m'"
proof -
  obtain ret m1 where put: "put_shm key val m = (ret, m1)" by (cases "put_shm key val m")
  note ps = put_shm_spec [OF ok key val load put]
  note pd = put_shm_done [OF ok key val load put]
  have ne: "key \<noteq> []" using key by (simp add: good_key_def)
  obtain r m2 where loop: "evict_loop key val ret m1 = (r, m2)" by (cases "evict_loop key val ret m1")
  have nret: "\<not> ret" using set ne put ec by (auto simp: setValue_shm_def)
  then have sh: "shrinks {} m m1" and err: "merrno m1 = ENOBUFS" using ps(5) by blast+
  show ?thesis
  proof (cases "m_isLruEliminate m1")
    case False
    then have "m' = m1" using set ne put nret err by (simp add: setValue_shm_def)
    with sh show ?thesis by simp
  next
    case lru: True
    show ?thesis
    proof (cases r)
      case (Inl e)
      then have "m' = m2" using set ne put nret err lru loop by (simp add: setValue_shm_def)
      then show ?thesis
        using shrinks_trans [OF sh evict_loop_fails [OF pd(1) key val]] loop Inl by simp
    next
      case (Inr b)
      then have "b" using evict_loop_spec [OF pd(1) key val] loop by auto
      then show ?thesis using set ne put nret err lru loop Inr ec by (simp add: setValue_shm_def Let_def)
    qed
  qed
qed

lemma setValue_fails:
  assumes ok: "mrsw_ok m" and key: "good_key key" and load: "load_ok (shm m) key"
    and set: "setValue env key val m = (ec, m')" and ec: "ec \<noteq> kOk"
  shows "shrinks {} m m'"
proof -
  have ne: "m_isInit m" "key \<noteq> []" using ok key by (auto simp: mrsw_ok_def good_key_def)
  obtain r old m1 where get: "getValue env key [] m = (r, old, m1)" by (cases "getValue env key [] m")
  note g = getValue_same [OF ok key get]
  show ?thesis
  proof (cases "r = kOk \<and> val = old")
    case True
    then show ?thesis using set ne get g(2) by (simp add: setValue_def)
  next
    case False
    then have s: "setValue_shm key (encodeValueStr (e_little env) val) m1 = (ec, m')"
      using set ne get by (auto simp: setValue_def)
    show ?thesis
      by (rule shrinks_trans [OF g(2) setValue_shm_fails [OF g(1) key encode_nonempty g(6) [OF load] s ec]])
  qed
qed

end
