(* ===== verification/Mrsw_Reopen.thy ===== *)
theory Mrsw_Reopen
  imports Mrsw_Evict
begin

text \<open>
  Opening a table that another process filled: every value in the segment carries a correct
  verification code as long as the writers use keys of at most 96 bytes, so that the
  opening process finds all of them and rebuilds a complete recency list.
\<close>

text \<open>Every entry was written under a whole key and verifies.\<close>

definition sound_table :: "bool \<Rightarrow> qenv \<Rightarrow> bool" where
  "sound_table little t \<longleftrightarrow>
     (\<forall>i raw. table_map t i = Some raw \<longrightarrow> fst (verifyShmValue little raw) = kOk \<and>
       (\<exists>k. good_key k \<and> length k \<le> KEYSIZE \<and> key_id t k = i))"

lemma sound_tableD:
  assumes "sound_table little t" "table_map t i = Some raw"
  shows "fst (verifyShmValue little raw) = kOk" "\<exists>k. good_key k \<and> length k \<le> KEYSIZE \<and> key_id t k = i"
  using assms unfolding sound_table_def by blast+

lemma sound_shrinks:
  assumes "sound_table little (shm m)" "shrinks X m m'"
    "\<And>i raw. i \<in> X \<Longrightarrow> table_map (shm m') i = Some raw \<Longrightarrow>
      fst (verifyShmValue little raw) = kOk \<and> (\<exists>k. good_key k \<and> length k \<le> KEYSIZE \<and> key_id (shm m) k = i)"
  shows "sound_table little (shm m')"
  unfolding sound_table_def
proof (intro allI impI)
  fix i raw assume m': "table_map (shm m') i = Some raw"
  show "fst (verifyShmValue little raw) = kOk \<and>
    (\<exists>k. good_key k \<and> length k \<le> KEYSIZE \<and> key_id (shm m') k = i)"
  proof (cases "i \<in> X")
    case True
    then show ?thesis using assms(3) [OF True m'] by (simp add: shrinksD(4) [OF assms(2)])
  next
    case False
    then have "table_map (shm m) i = Some raw" using shrinksD(3) [OF assms(2) False] m' by auto
    then show ?thesis
      using sound_tableD [OF assms(1)] by (simp add: shrinksD(4) [OF assms(2)])
  qed
qed

lemma setValue_sound:
  assumes ok: "mrsw_ok m" and key: "good_key key" "length key \<le> KEYSIZE" and len: "length val < 2 ^ 32"
    and load: "load_ok (shm m) key" and set: "setValue env key val m = (ec, m')"
    and sound: "sound_table (e_little env) (shm m)"
  shows "sound_table (e_little env) (shm m')"
proof (cases "ec = kOk")
  case True
  note ss = setValue_spec [OF ok key(1) len load set]
  show ?thesis
  proof (rule sound_shrinks [OF sound ss(2)])
    fix i raw assume "i \<in> {key_id (shm m) key}" "table_map (shm m') i = Some raw"
    then show "fst (verifyShmValue (e_little env) raw) = kOk \<and>
      (\<exists>k. good_key k \<and> length k \<le> KEYSIZE \<and> key_id (shm m) k = i)"
      using ss(4) True key by auto
  qed
next
  case False
  show ?thesis by (rule sound_shrinks [OF sound setValue_fails [OF ok key(1) load set False]]) simp
qed

lemma sound_step:
  assumes inv: "mrsw_inv m" and step: "mrsw_step env KEYSIZE m m'"
    and sound: "sound_table (e_little env) (shm m)"
  shows "sound_table (e_little env) (shm m')"
proof -
  have ok: "mrsw_ok m" and n: "length (slots (shm m)) < 32767" using inv by (auto simp: mrsw_inv_def)
  have load: "load_ok (shm m) key" for key by (rule load_ok_small [OF mrsw_okD(3) [OF ok] n])
  from step show ?thesis
  proof cases
    case (set key val)
    then show ?thesis using setValue_sound [OF ok set(2-4) load _ sound] by (metis prod.collapse)
  next
    case (get key val)
    then have "shrinks {} m m'" using getValue_same(2) [OF ok get(2)] by (metis prod.collapse)
    then show ?thesis by (rule sound_shrinks [OF sound]) simp
  next
    case (exist key b)
    then show ?thesis using sound isExist_spec [OF ok exist(2), of b] by simp
  next
    case (delete key)
    obtain m2 where "deleteKey key m = (kOk, m2)" "shrinks {} m m2"
      using deleteKey_spec [OF ok delete(2)] by blast
    then have "shrinks {} m m'" using delete(1) by simp
    then show ?thesis by (rule sound_shrinks [OF sound]) simp
  next
    case (next_pair key val index)
    show ?thesis by (rule sound_shrinks [OF sound getNext_same(2) [OF ok next_pair]]) simp
  next
    case clear
    then show ?thesis using clearTable_spec(3) [OF ok] by (simp add: sound_table_def)
  qed
qed

lemma sound_reachable:
  assumes "(mrsw_step env KEYSIZE)\<^sup>*\<^sup>* m m'" "mrsw_inv m" "sound_table (e_little env) (shm m)"
  shows "mrsw_inv m' \<and> sound_table (e_little env) (shm m')"
  using assms by (induction rule: rtranclp_induct) (auto intro: mrsw_inv_step sound_step)

subsection \<open>Opening\<close>

text \<open>The keys the slots from \<open>i\<close> on hold.\<close>

definition names_from :: "qenv \<Rightarrow> nat \<Rightarrow> bytes set" where
  "names_from t i =
     (\<lambda>j. fst (slot_entry t j)) ` set (filter (\<lambda>j. is_key_slot (slot_at t j)) [i..<length (slots t)])"

lemma slot_entry_map:
  assumes "table_ok t" "is_key_slot (slot_at t j)" "j < length (slots t)"
  shows "table_map t (slot_id (slot_at t j)) = Some (snd (slot_entry t j))"
proof -
  have "(slot_id (slot_at t j), snd (slot_entry t j)) \<in> set (entries t)"
    using assms(2,3) by (auto simp: entries_def slot_entry_def)
  then show ?thesis using entries_map [OF assms(1)] by simp
qed

text \<open>The name a slot holds is the key it was written under.\<close>

lemma slot_name:
  assumes ok: "table_ok t" and sound: "sound_table little t"
    and j: "is_key_slot (slot_at t j)" "j < length (slots t)"
  shows "good_key (fst (slot_entry t j))" "length (fst (slot_entry t j)) \<le> KEYSIZE"
    "key_id t (fst (slot_entry t j)) = slot_id (slot_at t j)"
    "fst (verifyShmValue little (snd (slot_entry t j))) = kOk"
proof -
  note e = slot_entry_map [OF ok j]
  obtain k where k: "good_key k" "length k \<le> KEYSIZE" "key_id t k = slot_id (slot_at t j)"
    using sound_tableD(2) [OF sound e] by blast
  then have "fst (slot_entry t j) = k" by (simp add: slot_entry_def key_id_def flip: k(3))
  with k show "good_key (fst (slot_entry t j))" "length (fst (slot_entry t j)) \<le> KEYSIZE"
    "key_id t (fst (slot_entry t j)) = slot_id (slot_at t j)" by simp_all
  show "fst (verifyShmValue little (snd (slot_entry t j))) = kOk" by (rule sound_tableD(1) [OF sound e])
qed

lemma names_from_0:
  assumes ok: "table_ok t" and sound: "sound_table little t"
  shows "names_from t 0 = {k. good_key k \<and> length k \<le> KEYSIZE \<and> key_id t k \<in> dom (table_map t)}"
proof (intro equalityI subsetI)
  fix k assume "k \<in> names_from t 0"
  then obtain j where j: "is_key_slot (slot_at t j)" "j < length (slots t)" "k = fst (slot_entry t j)"
    by (auto simp: names_from_def)
  then show "k \<in> {k. good_key k \<and> length k \<le> KEYSIZE \<and> key_id t k \<in> dom (table_map t)}"
    using slot_name [OF ok sound j(1,2)] slot_entry_map [OF ok j(1,2)] by (simp add: domI)
next
  fix k assume "k \<in> {k. good_key k \<and> length k \<le> KEYSIZE \<and> key_id t k \<in> dom (table_map t)}"
  then have k: "length k \<le> KEYSIZE" "key_id t k \<in> dom (table_map t)" by auto
  then have "key_id t k \<in> fst ` set (entries t)" using entries_map [OF ok] by (simp add: dom_map_of_conv_image_fst)
  then obtain j where j: "is_key_slot (slot_at t j)" "j < length (slots t)" "slot_id (slot_at t j) = key_id t k"
    by (auto simp: entries_def)
  then have "fst (slot_entry t j) = k" using k(1) by (simp add: slot_entry_def key_id_def)
  with j show "k \<in> names_from t 0" by (force simp: names_from_def)
qed

text \<open>One round of the loop over the slots.\<close>

lemma getNextKVPair_found:
  assumes "m_table m = Ptr" "table_ok (shm m)" "sound_table (e_little env) (shm m)" "e_alloc env = (\<lambda>_. True)"
    "filter (\<lambda>j. is_key_slot (slot_at (shm m) j)) [i..<length (slots (shm m))] = j # js"
  shows "\<exists>v. getNextKVPair env tk tv i m = (kOk, fst (slot_entry (shm m) j), v, Suc j, m)"
proof -
  let ?e = "slot_entry (shm m) j"
  have "j \<in> set (filter (\<lambda>j. is_key_slot (slot_at (shm m) j)) [i..<length (slots (shm m))])"
    using assms(5) by simp
  then have j: "is_key_slot (slot_at (shm m) j)" "j < length (slots (shm m))" by auto
  have "qhasharr_getnext (e_alloc env) Ptr i (shm m) = (Some ?e, Suc j, shm m)"
    by (simp add: qhasharr_getnext_def getnext_loop_find [OF assms(2)] assms(4,5))
  moreover obtain v where "verifyShmValue (e_little env) (snd ?e) = (kOk, v)"
    using slot_name(4) [OF assms(2,3) j] by (metis prod.collapse)
  ultimately show ?thesis
    using assms(1) by (cases ?e) (simp add: getNextKVPair_def)
qed

lemma getNextKVPair_end:
  assumes "m_table m = Ptr" "table_ok (shm m)" "e_alloc env = (\<lambda>_. True)"
    "filter (\<lambda>j. is_key_slot (slot_at (shm m) j)) [i..<length (slots (shm m))] = []"
  shows "\<exists>i'. getNextKVPair env tk tv i m =
    (kErrTraverseTableEnd, tk, tv, i', m\<lparr>shm := (shm m)\<lparr>errno := ENOENT\<rparr>\<rparr>)"
  using assms shape_okD(3) [OF table_okD(1) [OF assms(2)]]
  by (simp add: getNextKVPair_def qhasharr_getnext_def getnext_loop_find Let_def)

lemma initLru_loop_spec:
  assumes "m_table m = Ptr" "table_ok (shm m)" "sound_table (e_little env) (shm m)" "e_alloc env = (\<lambda>_. True)"
    "lru_ok (m_lru m)"
  shows "\<exists>l e. initLru_loop env (int (length (slots (shm m)))) tk tv i m =
      (kOk, m\<lparr>m_lru := l, shm := (shm m)\<lparr>errno := e\<rparr>\<rparr>) \<and>
    lru_ok l \<and> set (lru_keys l) = set (lru_keys (m_lru m)) \<union> names_from (shm m) i"
  using assms
proof (induction "length (slots (shm m)) - i" arbitrary: i m tk tv rule: less_induct)
  case less
  let ?t = "shm m"
  let ?F = "\<lambda>i. filter (\<lambda>j. is_key_slot (slot_at ?t j)) [i..<length (slots ?t)]"
  have self: "m\<lparr>m_lru := m_lru m, shm := ?t\<lparr>errno := errno ?t\<rparr>\<rparr> = m" by simp
  show ?case
  proof (cases "i < length (slots ?t)")
    case False
    then have "names_from ?t i = {}" by (simp add: names_from_def)
    then show ?thesis
      using False less.prems(5) self
      by (subst initLru_loop.simps) (intro exI [of _ "m_lru m"] exI [of _ "errno ?t"], simp)
  next
    case lt: True
    show ?thesis
    proof (cases "?F i")
      case Nil
      obtain i' where next_: "getNextKVPair env tk tv i m =
          (kErrTraverseTableEnd, tk, tv, i', m\<lparr>shm := ?t\<lparr>errno := ENOENT\<rparr>\<rparr>)"
        using getNextKVPair_end [OF less.prems(1,2,4) Nil] by blast
      have "names_from ?t i = {}" using Nil by (simp add: names_from_def)
      then show ?thesis
        using lt next_ less.prems(5)
        by (subst initLru_loop.simps) (intro exI [of _ "m_lru m"] exI [of _ ENOENT], simp)
    next
      case (Cons j js)
      obtain v where next_: "getNextKVPair env tk tv i m = (kOk, fst (slot_entry ?t j), v, Suc j, m)"
        using getNextKVPair_found [OF less.prems(1-4) Cons] by blast
      from filter_upt_next [OF Cons] have ij: "i \<le> j" "j < length (slots ?t)" and js: "js = ?F (Suc j)" by auto
      have "j \<in> set (?F i)" using Cons by simp
      then have ks: "is_key_slot (slot_at ?t j)" by simp
      let ?k = "fst (slot_entry ?t j)"
      have ne: "?k \<noteq> []" using slot_name(1) [OF less.prems(2,3) ks ij(2)] by (simp add: good_key_def)
      let ?m = "m\<lparr>m_lru := visitKey ?k (m_lru m)\<rparr>"
      have keys: "set (lru_keys (visitKey ?k (m_lru m))) = insert ?k (set (lru_keys (m_lru m)))"
        using lru_okD(2) [OF less.prems(5)] by (auto simp: visitKey_keys [OF less.prems(5)])
      have ok: "lru_ok (visitKey ?k (m_lru m))" by (rule visitKey_ok [OF less.prems(5)])
      have "length (slots (shm ?m)) - Suc j < length (slots ?t) - i" using ij by simp
      from less.hyps [OF this, of ?k v] less.prems ok obtain l e where
        r: "initLru_loop env (int (length (slots ?t))) ?k v (Suc j) ?m =
          (kOk, m\<lparr>m_lru := l, shm := ?t\<lparr>errno := e\<rparr>\<rparr>)" "lru_ok l"
        "set (lru_keys l) = set (lru_keys (visitKey ?k (m_lru m))) \<union> names_from ?t (Suc j)"
        by auto
      have "initLru_loop env (int (length (slots ?t))) tk tv i m =
          initLru_loop env (int (length (slots ?t))) ?k v (Suc j) ?m"
        using lt ne by (subst initLru_loop.simps) (simp add: next_)
      moreover have "names_from ?t i = insert ?k (names_from ?t (Suc j))"
        unfolding names_from_def Cons js by simp
      ultimately show ?thesis using r keys by auto
    qed
  qed
qed

text \<open>A process that opens a well-formed segment finds it as it is and records every key.\<close>

lemma init_reopens:
  assumes seg: "table_ok seg" "sound_table (e_little env) seg" and alloc: "e_alloc env = (\<lambda>_. True)"
    and svc: "shm_create svc (qhasharr_calculate_memsize n) = Some EEXIST" "shm_open svc" "shm_attach svc = Some seg"
  shows "\<exists>m. MrswHashtable_init svc env n True (MrswHashtable t) = (kOk, m) \<and> mrsw_ok m \<and> tracked m \<and>
    table_map (shm m) = table_map seg \<and> same_table seg (shm m) \<and> m_isLruEliminate m \<and>
    set (lru_keys (m_lru m)) = {k. good_key k \<and> length k \<le> KEYSIZE \<and> key_id seg k \<in> dom (table_map seg)}"
proof -
  define m0 where "m0 = (attach seg ((MrswHashtable t)\<lparr>shm := t\<lparr>errno := EEXIST\<rparr>\<rparr>))\<lparr>m_isLruEliminate := True\<rparr>"
  have shm0: "shm m0 = seg\<lparr>errno := EEXIST\<rparr>" and tbl: "m_table m0 = Ptr" and lru0: "m_lru m0 = SimpleLru"
    by (simp_all add: m0_def attach_def MrswHashtable_def)
  have ok0: "table_ok (shm m0)" and map0: "table_map (shm m0) = table_map seg" and id0: "key_id (shm m0) = key_id seg"
    using seg(1) by (simp_all add: shm0 key_id_def bucket_def fun_eq_iff)
  have sound0: "sound_table (e_little env) (shm m0)"
    using seg(2) by (simp add: sound_table_def map0 id0)
  obtain l e where run: "initLru_loop env (int (length (slots (shm m0)))) [] [] 0 m0 =
      (kOk, m0\<lparr>m_lru := l, shm := (shm m0)\<lparr>errno := e\<rparr>\<rparr>)" and l: "lru_ok l"
      "set (lru_keys l) = names_from (shm m0) 0"
    using initLru_loop_spec [OF tbl ok0 sound0 alloc, of "[]" "[]" 0] lru_init by (auto simp: lru0)
  let ?m = "m0\<lparr>m_lru := l, shm := (shm m0)\<lparr>errno := e\<rparr>, m_isInit := True\<rparr>"
  have keys: "set (lru_keys l) = {k. good_key k \<and> length k \<le> KEYSIZE \<and> key_id seg k \<in> dom (table_map seg)}"
    using l(2) names_from_0 [OF ok0 sound0] by (simp add: map0 id0)
  have "initLruMem env m0 = (kOk, m0\<lparr>m_lru := l, shm := (shm m0)\<lparr>errno := e\<rparr>\<rparr>)"
    using run qhasharr_size_spec [OF ok0] shape_okD(3) [OF table_okD(1) [OF ok0]]
    by (simp add: initLruMem_def tbl)
  then have "getShm svc env True ((MrswHashtable t)\<lparr>shm := t\<lparr>errno := EEXIST\<rparr>\<rparr>) = (kOk, ?m)"
    using svc(2,3) by (simp add: getShm_def m0_def Let_def)
  then have init: "MrswHashtable_init svc env n True (MrswHashtable t) = (kOk, ?m)"
    using svc(1) by (simp add: MrswHashtable_init_def MrswHashtable_def Let_def)
  have ok: "mrsw_ok ?m" using ok0 l(1) keys by (simp add: mrsw_ok_def tbl)
  have map: "table_map (shm ?m) = table_map seg" and id: "key_id (shm ?m) = key_id seg"
    by (simp_all add: shm0 key_id_def bucket_def fun_eq_iff)
  have tr: "tracked ?m"
    unfolding tracked_but_def
  proof
    fix i assume "i \<in> dom (table_map (shm ?m)) - {}"
    then obtain raw where raw: "table_map seg i = Some raw" by (auto simp: shm0)
    then obtain k where "good_key k" "length k \<le> KEYSIZE" "key_id seg k = i" using sound_tableD(2) [OF seg(2)] by blast
    then have "k \<in> set (lru_keys l)" "key_id (shm ?m) k = i" unfolding id using raw by (auto simp: keys)
    then show "\<exists>k\<in>set (lru_keys (m_lru ?m)). key_id (shm ?m) k = i" by (intro bexI [of _ k]) simp_all
  qed
  have "same_table seg (shm ?m)" by (simp add: same_table_def shm0)
  moreover have "m_isLruEliminate ?m" by (simp add: m0_def)
  ultimately show ?thesis using init ok map tr keys by (intro exI [of _ ?m]) simp
qed

end
