(* ===== verification/Mrsw_Props.thy ===== *)
theory Mrsw_Props
  imports Hasharr_Props Mrsw_Reopen
begin

text \<open>
  The properties of the table of one writer and many readers of
  \<^verbatim>\<open>shmutil/shm_mrsw_hashtable.cc\<close>, each with a witness on a table of three slots that its
  \<^verbatim>\<open>init\<close> creates.
\<close>

subsection \<open>A sample object\<close>

definition sample_host :: mrsw_env where
  "sample_host = \<lparr>e_little = True, e_alloc = (\<lambda>_. True)\<rparr>"

definition sample_mrsw :: mrsw where
  "sample_mrsw = snd (MrswHashtable_init fresh_services sample_host 3 True (MrswHashtable sample_env))"

lemma fresh_services:
  "shm_create fresh_services k = None" "shm_attach fresh_services = Some sample_env"
  by (simp_all add: fresh_services_def sample_env_def)

lemma sample_mrsw:
  "MrswHashtable_init fresh_services sample_host 3 True (MrswHashtable sample_env) = (kOk, sample_mrsw)"
  "mrsw_ok sample_mrsw" "tracked sample_mrsw" "table_map (shm sample_mrsw) = Map.empty"
  "length (slots (shm sample_mrsw)) = 3" "m_isLruEliminate sample_mrsw" "mrsw_inv sample_mrsw"
  using init_creates [of 3 fresh_services sample_env sample_host True sample_env]
  by (auto simp: fresh_services sample_mrsw_def mrsw_inv_def)

lemma sample_key [simp]: "good_key [1]" "good_key [2]"
  by (simp_all add: good_key_def)

lemma sample_host [simp]: "e_little sample_host" "e_alloc sample_host = (\<lambda>_. True)"
  by (simp_all add: sample_host_def)

lemma mrsw_inv_load: "mrsw_inv m \<Longrightarrow> load_ok (shm m) key"
  using load_ok_small [OF mrsw_okD(3)] by (simp add: mrsw_inv_def)

lemma sample_set: "\<exists>m'. setValue sample_host [1] [7] sample_mrsw = (kOk, m')"
proof -
  have "getValue sample_host [1] [] sample_mrsw =
      (kErrNotFound, [], sample_mrsw\<lparr>shm := (shm sample_mrsw)\<lparr>errno := ENOENT\<rparr>\<rparr>)"
    using getValue_spec [OF sample_mrsw(2) sample_key(1)] by (simp add: sample_mrsw)
  then have "setValue sample_host [1] [7] sample_mrsw = setValue_shm [1] (encodeValueStr True [7])
      (sample_mrsw\<lparr>shm := (shm sample_mrsw)\<lparr>errno := ENOENT\<rparr>\<rparr>)"
    using sample_mrsw(2) by (simp add: setValue_def mrsw_ok_def)
  moreover have "fst (setValue_shm [1] (encodeValueStr True [7])
      (sample_mrsw\<lparr>shm := (shm sample_mrsw)\<lparr>errno := ENOENT\<rparr>\<rparr>)) = kOk"
    using getValue_same [OF sample_mrsw(2) sample_key(1) \<open>getValue sample_host [1] [] sample_mrsw = _\<close>]
      sample_mrsw mrsw_inv_load [OF sample_mrsw(7)]
    by (intro setValue_shm_spec(6) [OF _ sample_key(1) encode_nonempty _ prod.collapse [symmetric]])
      (simp_all add: length_encodeValueStr slots_needed_def)
  ultimately show ?thesis by (metis prod.collapse)
qed

subsection \<open>The verification code\<close>

text \<open>
  C7: A stored string verifies as the value \<open>v\<close> exactly when it begins with the encoding of
  \<open>v\<close>: length, value, and MD5 or copy of the value. Any other string is reported as damaged
  and left as it is.
\<close>

theorem mrsw_verify_exact:
  "(verifyShmValue little x = (kOk, v) \<longleftrightarrow> length v < 2 ^ 32 \<and> (\<exists>rest. x = encodeValueStr little v @ rest)) \<and>
   (fst (verifyShmValue little x) = kOk \<or> verifyShmValue little x = (kErrDataMess, x))"
  using verify_sound [of little x v] verify_encode_rest [of v little] verify_layout(3) [of little x] by blast

subsection \<open>Reading and writing\<close>

text \<open>
  C8: After a write that reports success, or that the same value is already there, into a table in
  use (\<open>mrsw_inv\<close>: well-formed, every entry recorded for eviction, fewer than 32767 slots), the
  value is read back; every other entry is what it was or has been evicted.
\<close>

theorem mrsw_set_get:
  assumes "mrsw_inv m" "good_key key" "length val < 2 ^ 32" "e_alloc env = (\<lambda>_. True)"
    and "setValue env key val m = (ec, m')" "ec = kOk \<or> ec = kErrSetSameValue"
  shows "fst (getValue env key old m') = kOk \<and> fst (snd (getValue env key old m')) = val \<and>
    (\<forall>i. i = key_id (shm m) key \<or> table_map (shm m') i = table_map (shm m) i \<or> table_map (shm m') i = None)"
proof -
  have ok: "mrsw_ok m" using assms(1) by (simp add: mrsw_inv_def)
  note ss = setValue_spec [OF ok assms(2,3) mrsw_inv_load [OF assms(1)] assms(5)]
  obtain raw where raw: "table_map (shm m') (key_id (shm m) key) = Some raw"
    "verifyShmValue (e_little env) raw = (kOk, val)" using ss(4) assms(6) by blast
  have "key_id (shm m') key = key_id (shm m) key" by (rule shrinksD(4) [OF ss(2)])
  then have "getValue env key old m' = (kOk, val, m')"
    using raw getValue_spec [OF ss(1) assms(2), of env old] assms(4) by simp
  moreover have "i = key_id (shm m) key \<or> table_map (shm m') i = table_map (shm m) i \<or>
    table_map (shm m') i = None" for i
    by (cases "i = key_id (shm m) key") (simp_all add: shrinksD(3) [OF ss(2), of i])
  ultimately show ?thesis by simp
qed

theorem mrsw_set_get_witness:
  "fst (snd (getValue sample_host [1] [] (snd (setValue sample_host [1] [7] sample_mrsw)))) = [7]"
proof -
  obtain m' where m': "setValue sample_host [1] [7] sample_mrsw = (kOk, m')" using sample_set by blast
  then show ?thesis
    using mrsw_set_get [OF sample_mrsw(7) sample_key(1) _ sample_host(2) m', of "[]"] by simp
qed

text \<open>
  C9: With eviction enabled, a write into a well-formed table always ends, and with success
  whenever the value with its length and verification code fits into the empty table.
\<close>

theorem mrsw_set_succeeds:
  assumes "mrsw_inv m" "m_isLruEliminate m" "good_key key" "length val < 2 ^ 32"
    and "slots_needed (4 + length val + (if length val > 1024 then 16 else length val)) \<le> length (slots (shm m))"
  shows "fst (setValue env key val m) \<in> {kOk, kErrSetSameValue} \<and> mrsw_inv (snd (setValue env key val m))"
proof -
  have ok: "mrsw_ok m" and tr: "tracked m" using assms(1) by (simp_all add: mrsw_inv_def)
  obtain ec m' where s: "setValue env key val m = (ec, m')" by (cases "setValue env key val m")
  note ss = setValue_spec [OF ok assms(3,4) mrsw_inv_load [OF assms(1)] s]
  have "mrsw_inv m'" by (rule mrsw_inv_keep [OF assms(1) ss(1) ss(3) [OF tr] ss(2)])
  then show ?thesis using ss(6) [OF assms(2) tr] assms(5) by (simp add: s length_encodeValueStr [OF assms(4)])
qed

theorem mrsw_set_succeeds_witness:
  "fst (setValue sample_host [1] [7] sample_mrsw) \<in> {kOk, kErrSetSameValue}"
  using mrsw_set_succeeds [of sample_mrsw "[1]" "[7]" sample_host]
  by (simp add: sample_mrsw slots_needed_def)

text \<open>
  C10: A write of a new value that succeeds puts its key at the head of the recency list and
  drops a tail of the list, the keys written longest ago; an entry that disappears belonged
  to a dropped key.
\<close>

theorem mrsw_evicts_oldest:
  assumes "mrsw_inv m" "good_key key" "setValue env key val m = (kOk, m')"
  shows "\<exists>kept gone. lru_keys (m_lru m) = kept @ gone \<and> lru_keys (m_lru m') = key # remove1 key kept \<and>
    (\<forall>i. i = key_id (shm m) key \<or> table_map (shm m') i = table_map (shm m) i \<or>
       table_map (shm m') i = None \<and> i \<in> key_id (shm m) ` set gone)"
proof -
  have ok: "mrsw_ok m" using assms(1) by (simp add: mrsw_inv_def)
  have ne: "m_isInit m" "key \<noteq> []" using ok assms(2) by (auto simp: mrsw_ok_def good_key_def)
  obtain r old m1 where get: "getValue env key [] m = (r, old, m1)" by (cases "getValue env key [] m")
  note g = getValue_same [OF ok assms(2) get]
  have ids: "key_id (shm m1) = key_id (shm m)" by (rule ext) (rule shrinksD(4) [OF g(2)])
  have "setValue_shm key (encodeValueStr (e_little env) val) m1 = (kOk, m')"
    using assms(3) ne get by (auto simp: setValue_def split: if_splits)
  from setValue_evicts [OF g(1) assms(2) encode_nonempty g(6) [OF mrsw_inv_load [OF assms(1)]] this]
  have "\<exists>kept gone. lru_keys (m_lru m) = kept @ gone \<and> lru_keys (m_lru m') = key # remove1 key kept \<and>
    (\<forall>i. i \<noteq> key_id (shm m) key \<longrightarrow> table_map (shm m') i = table_map (shm m) i \<or>
       table_map (shm m') i = None \<and> i \<in> key_id (shm m) ` set gone)"
    by (simp only: g(3,4) ids)
  then show ?thesis by blast
qed

theorem mrsw_evicts_oldest_witness:
  "lru_keys (m_lru (snd (setValue sample_host [1] [7] sample_mrsw))) = [[1]]"
proof -
  obtain m' where m': "setValue sample_host [1] [7] sample_mrsw = (kOk, m')" using sample_set by blast
  have "m_lru sample_mrsw = SimpleLru"
    by (simp add: sample_mrsw_def MrswHashtable_init_def MrswHashtable_def Let_def fresh_services
        split: prod.split)
  then have "lru_keys (m_lru sample_mrsw) = []" using lru_init by simp
  then show ?thesis
    using mrsw_evicts_oldest [OF sample_mrsw(7) sample_key(1) m'] by (auto simp: m')
qed

text \<open>
  C11: A write that reports anything but success stores nothing: every entry is what it was
  or is gone, and the table stays well-formed. It reports the same value, too little space, or
  invalid parameters.
\<close>

theorem mrsw_failed_write:
  assumes "mrsw_inv m" "good_key key" "length val < 2 ^ 32" "setValue env key val m = (ec, m')" "ec \<noteq> kOk"
  shows "ec \<in> {kErrSetSameValue, kErrNotEnoughSpace, kErrInvalidParams} \<and> mrsw_inv m' \<and>
    (\<forall>i. table_map (shm m') i = table_map (shm m) i \<or> table_map (shm m') i = None)"
proof -
  have ok: "mrsw_ok m" and tr: "tracked m" using assms(1) by (simp_all add: mrsw_inv_def)
  note load = mrsw_inv_load [OF assms(1)]
  note ss = setValue_spec [OF ok assms(2,3) load assms(4)]
  have sh: "shrinks {} m m'" by (rule setValue_fails [OF ok assms(2) load assms(4,5)])
  have "mrsw_inv m'" by (rule mrsw_inv_keep [OF assms(1) ss(1) ss(3) [OF tr] ss(2)])
  then show ?thesis using ss(5) assms(5) shrinksD(3) [OF sh] by auto
qed

theorem mrsw_failed_write_witness:
  "fst (setValue sample_host [1] [7] (snd (setValue sample_host [1] [7] sample_mrsw))) \<noteq> kOk \<and>
   mrsw_inv (snd (setValue sample_host [1] [7] (snd (setValue sample_host [1] [7] sample_mrsw))))"
proof -
  obtain m' where m': "setValue sample_host [1] [7] sample_mrsw = (kOk, m')" using sample_set by blast
  have len: "length [7 :: byte] < 2 ^ 32" by simp
  note ss = setValue_spec [OF sample_mrsw(2) sample_key(1) len mrsw_inv_load [OF sample_mrsw(7)] m']
  have inv: "mrsw_inv m'" by (rule mrsw_inv_keep [OF sample_mrsw(7) ss(1) ss(3) [OF sample_mrsw(3)] ss(2)])
  have "key_id (shm m') [1] = key_id (shm sample_mrsw) [1]" by (rule shrinksD(4) [OF ss(2)])
  then have "getValue sample_host [1] [] m' = (kOk, [7], m')"
    using ss(4) getValue_spec [OF ss(1) sample_key(1), of sample_host "[]"] by auto
  then have again: "setValue sample_host [1] [7] m' = (kErrSetSameValue, m')"
    using mrsw_okD(1) [OF ss(1)] by (simp add: setValue_def)
  then show ?thesis using mrsw_failed_write [OF inv sample_key(1) len again] by (simp add: m')
qed

text \<open>
  A lookup reports success only for a stored string that carries the correct
  verification code of the value it returns; a damaged string is reported as such.
\<close>

theorem mrsw_get_verified:
  assumes "mrsw_ok m" "good_key key"
  shows "case getValue env key old m of (ec, val, m') \<Rightarrow>
    table_map (shm m') = table_map (shm m) \<and>
    (case table_map (shm m) (key_id (shm m) key) of
       None \<Rightarrow> ec = kErrNotFound
     | Some raw \<Rightarrow> if \<not> e_alloc env (length raw) then ec = kErrNotFound
         else if \<exists>v rest. length v < 2 ^ 32 \<and> raw = encodeValueStr (e_little env) v @ rest
         then ec = kOk \<and> (\<exists>rest. raw = encodeValueStr (e_little env) val @ rest)
         else ec = kErrDataMess)"
proof -
  define enc where
    "enc raw \<longleftrightarrow> (\<exists>v rest. length v < 2 ^ 32 \<and> raw = encodeValueStr (e_little env) v @ rest)" for raw
  have verify: "if enc raw then c = kOk \<and> (\<exists>rest. raw = encodeValueStr (e_little env) val @ rest) else c = kErrDataMess"
    if v: "verifyShmValue (e_little env) raw = (c, val)" for raw c val
  proof (cases "c = kOk")
    case True
    then show ?thesis using verify_sound [of "e_little env" raw val] v by (auto simp: enc_def)
  next
    case False
    then have "\<not> enc raw" using verify_encode_rest [of _ "e_little env"] v by (auto simp: enc_def)
    then show ?thesis using verify_layout(3) [of "e_little env" raw] v False by simp
  qed
  show ?thesis
  proof (cases "table_map (shm m) (key_id (shm m) key)")
    case None
    then show ?thesis unfolding getValue_spec [OF assms] by simp
  next
    case (Some raw)
    obtain c val where v: "verifyShmValue (e_little env) raw = (c, val)"
      by (cases "verifyShmValue (e_little env) raw")
    show ?thesis
      using verify [OF v] unfolding getValue_spec [OF assms] Some enc_def by (simp add: v)
  qed
qed

theorem mrsw_get_verified_witness: "fst (getValue sample_host [1] [] sample_mrsw) = kErrNotFound"
  using mrsw_get_verified [OF sample_mrsw(2) sample_key(1), of sample_host "[]"]
  by (simp add: sample_mrsw(4) split: prod.splits)

text \<open>
  A deletion succeeds whether or not the key is stored, removes exactly the entry of the
  key, and the key is not found afterwards.
\<close>

theorem mrsw_delete_exact:
  assumes "mrsw_ok m" "good_key key"
  shows "\<exists>m'. deleteKey key m = (kOk, m') \<and> mrsw_ok m' \<and>
    table_map (shm m') = (table_map (shm m))(key_id (shm m) key := None) \<and>
    fst (getValue env key old m') = kErrNotFound \<and> isExist key b m' = (kOk, False, m')"
proof -
  obtain m' where m': "deleteKey key m = (kOk, m')" "mrsw_ok m'" "shrinks {} m m'"
    "table_map (shm m') = (table_map (shm m))(key_id (shm m) key := None)"
    using deleteKey_spec [OF assms] by blast
  have "table_map (shm m') (key_id (shm m') key) = None"
    by (simp add: m'(4) shrinksD(4) [OF m'(3)])
  then show ?thesis
    using m' getValue_spec [OF m'(2) assms(2), of env old] isExist_spec [OF m'(2) assms(2), of b] by auto
qed

theorem mrsw_delete_exact_witness:
  "\<exists>m'. deleteKey [1] sample_mrsw = (kOk, m') \<and> isExist [1] True m' = (kOk, False, m')"
  using mrsw_delete_exact [OF sample_mrsw(2) sample_key(1), of sample_host "[]" True] by blast

subsection \<open>The life of a table\<close>

text \<open>
  C12: Whatever the clients do with a table of fewer than 32767 slots that \<^verbatim>\<open>init\<close> created
  (\<^verbatim>\<open>setValue\<close>, \<^verbatim>\<open>getValue\<close>, \<^verbatim>\<open>isExist\<close>, \<^verbatim>\<open>deleteKey\<close>, \<^verbatim>\<open>getNext\<close>, \<^verbatim>\<open>clearTable\<close>, with keys that are
  not empty and shorter than 65536 bytes and values shorter than \<open>2 ^ 32\<close> bytes), in any order,
  every reachable table is well-formed and its recency list records every stored key. The bound on the
  slots, far below the default of 800000 of \<^verbatim>\<open>init\<close>, keeps the number of keys of one bucket, which
  the code counts in a \<^verbatim>\<open>short\<close>, below 32767.
\<close>

theorem mrsw_reachable_wellformed:
  assumes "1 \<le> n" "n < 32767" "shm_create svc (qhasharr_calculate_memsize n) = None" "shm_attach svc = Some seg"
    and "MrswHashtable_init svc env n isLru (MrswHashtable t) = (ec, m)" "(mrsw_step env kmax)\<^sup>*\<^sup>* m m'"
  shows "ec = kOk \<and> mrsw_ok m' \<and> m_isLruEliminate m = isLru \<and> length (slots (shm m')) = nat n \<and>
    (\<forall>i. table_map (shm m') i = None \<or> (\<exists>k\<in>set (lru_keys (m_lru m')). key_id (shm m') k = i))"
proof -
  have m: "ec = kOk" "mrsw_inv m" "m_isLruEliminate m = isLru" "length (slots (shm m)) = nat n"
    using init_creates [OF assms(1) _ assms(3,4), of env isLru t] assms(1,2,5) by (auto simp: mrsw_inv_def)
  have "mrsw_inv m' \<and> length (slots (shm m')) = length (slots (shm m))"
    using assms(6) m(2) by (rule mrsw_inv_reachable)
  then have inv: "mrsw_inv m'" and len: "length (slots (shm m')) = nat n" using m(4) by auto
  have "table_map (shm m') i = None \<or> (\<exists>k\<in>set (lru_keys (m_lru m')). key_id (shm m') k = i)" for i
    using inv by (cases "table_map (shm m') i") (auto simp: mrsw_inv_def tracked_but_def)
  then show ?thesis using m inv len by (auto simp: mrsw_inv_def)
qed

theorem mrsw_reachable_wellformed_witness:
  "mrsw_ok (snd (deleteKey [2] (snd (setValue sample_host [1] [7] sample_mrsw))))"
proof -
  have "mrsw_step sample_host 96 sample_mrsw (snd (setValue sample_host [1] [7] sample_mrsw))"
    by (rule mrsw_step.set) simp_all
  moreover have "mrsw_step sample_host 96 (snd (setValue sample_host [1] [7] sample_mrsw))
      (snd (deleteKey [2] (snd (setValue sample_host [1] [7] sample_mrsw))))"
    by (rule mrsw_step.delete) simp
  ultimately have "(mrsw_step sample_host 96)\<^sup>*\<^sup>* sample_mrsw
      (snd (deleteKey [2] (snd (setValue sample_host [1] [7] sample_mrsw))))" by simp
  from mrsw_reachable_wellformed [OF _ _ fresh_services(1,2) sample_mrsw(1) this] show ?thesis by simp
qed

text \<open>
  C13: A second process that opens the segment, after any use of the table with keys of at
  most 96 bytes, is initialised without error, records every key for eviction and reads
  the same values.
\<close>

theorem mrsw_reopen_same:
  assumes "mrsw_inv m" "table_map (shm m) = Map.empty" "(mrsw_step env 96)\<^sup>*\<^sup>* m m'" "e_alloc env = (\<lambda>_. True)"
    and "shm_create svc (qhasharr_calculate_memsize n) = Some EEXIST" "shm_open svc" "shm_attach svc = Some (shm m')"
  shows "\<exists>m2. MrswHashtable_init svc env n True (MrswHashtable t) = (kOk, m2) \<and> mrsw_inv m2 \<and>
    m_isLruEliminate m2 \<and>
    (\<forall>key old. if good_key key then fst (getValue env key old m2) = fst (getValue env key old m') \<and>
      fst (snd (getValue env key old m2)) = fst (snd (getValue env key old m')) else True)"
proof -
  have "sound_table (e_little env) (shm m)" by (simp add: sound_table_def assms(2))
  then have inv: "mrsw_inv m'" and sound: "sound_table (e_little env) (shm m')"
    using sound_reachable [OF assms(3,1)] by auto
  then have ok: "mrsw_ok m'" by (simp add: mrsw_inv_def)
  obtain m2 where m2: "MrswHashtable_init svc env n True (MrswHashtable t) = (kOk, m2)" "mrsw_ok m2" "tracked m2"
    "table_map (shm m2) = table_map (shm m')" "same_table (shm m') (shm m2)" "m_isLruEliminate m2"
    using init_reopens [OF mrsw_okD(3) [OF ok] sound assms(4-7)] by blast
  have "getValue env key old m2 = (fst (getValue env key old m'), fst (snd (getValue env key old m')), 
      snd (snd (getValue env key old m2)))" if "good_key key" for key old
    unfolding getValue_spec [OF m2(2) that] getValue_spec [OF ok that]
    by (simp add: m2(4) same_table_key_id [OF m2(5)] split: option.split)
  moreover have "mrsw_inv m2" using m2(2,3,5) inv by (simp add: mrsw_inv_def same_table_def)
  ultimately show ?thesis using m2 by (metis fst_conv snd_conv)
qed

theorem mrsw_reopen_same_witness:
  "\<exists>m2. MrswHashtable_init
      \<lparr>shm_create = (\<lambda>_. Some EEXIST), shm_open = True,
       shm_attach = Some (shm (snd (setValue sample_host [1] [7] sample_mrsw)))\<rparr>
      sample_host 3 True (MrswHashtable sample_env) = (kOk, m2) \<and>
    fst (snd (getValue sample_host [1] [] m2)) =
    fst (snd (getValue sample_host [1] [] (snd (setValue sample_host [1] [7] sample_mrsw))))"
proof -
  have "mrsw_step sample_host 96 sample_mrsw (snd (setValue sample_host [1] [7] sample_mrsw))"
    by (rule mrsw_step.set) simp_all
  then have "(mrsw_step sample_host 96)\<^sup>*\<^sup>* sample_mrsw (snd (setValue sample_host [1] [7] sample_mrsw))" ..
  from mrsw_reopen_same [OF sample_mrsw(7,4) this sample_host(2),
      of "\<lparr>shm_create = (\<lambda>_. Some EEXIST), shm_open = True,
       shm_attach = Some (shm (snd (setValue sample_host [1] [7] sample_mrsw)))\<rparr>" 3 sample_env]
  obtain m2 where "MrswHashtable_init
      \<lparr>shm_create = (\<lambda>_. Some EEXIST), shm_open = True,
       shm_attach = Some (shm (snd (setValue sample_host [1] [7] sample_mrsw)))\<rparr>
      sample_host 3 True (MrswHashtable sample_env) = (kOk, m2)"
    "\<forall>key old. if good_key key then fst (getValue sample_host key old m2) =
        fst (getValue sample_host key old (snd (setValue sample_host [1] [7] sample_mrsw))) \<and>
      fst (snd (getValue sample_host key old m2)) =
        fst (snd (getValue sample_host key old (snd (setValue sample_host [1] [7] sample_mrsw)))) else True"
    by auto
  then show ?thesis using sample_key(1) by (metis (no_types))
qed

end
