(* ===== verification/Writer_Log.thy ===== *)
theory Writer_Log
  imports Hasharr_Spec
begin

text \<open>
  The writing operations of \<^verbatim>\<open>shmutil/qhasharr.c\<close> as the sequence of their stores into the
  shared slots, in the order of the code: a \<^verbatim>\<open>memcpy\<close> or \<^verbatim>\<open>memset\<close> stores byte by byte (the
  fields in front of the data one by one), a field of a slot is stored at once. The lemmas
  show that replaying the stores gives the table the operation returns, and that every store
  keeps the type of the slots: an index in the table, a size within the data of a slot, a
  link to a slot or -1. So whatever part of the stores another process has seen, it sees
  slots of that type.
\<close>

subsection \<open>Stores\<close>

datatype slot_store =
    St_count nat int
  | St_hash nat nat
  | St_size nat nat
  | St_link nat int
  | St_byte nat nat byte

fun apply_store :: "slot_store \<Rightarrow> qslot list \<Rightarrow> qslot list" where
  "apply_store (St_count i c) ss = ss[i := (ss ! i)\<lparr>s_count := c\<rparr>]"
| "apply_store (St_hash i h) ss = ss[i := (ss ! i)\<lparr>s_hash := h\<rparr>]"
| "apply_store (St_size i k) ss = ss[i := (ss ! i)\<lparr>s_size := k\<rparr>]"
| "apply_store (St_link i l) ss = ss[i := (ss ! i)\<lparr>s_link := l\<rparr>]"
| "apply_store (St_byte i j b) ss = ss[i := (ss ! i)\<lparr>s_data := (s_data (ss ! i))[j := b]\<rparr>]"

definition replay :: "slot_store list \<Rightarrow> qslot list \<Rightarrow> qslot list" where
  "replay log ss = fold apply_store log ss"

lemma replay_simps [simp]:
  "replay [] ss = ss" "replay (st # log) ss = replay log (apply_store st ss)"
  "replay (log @ log') ss = replay log' (replay log ss)"
  by (simp_all add: replay_def)

lemma length_apply_store [simp]: "length (apply_store st ss) = length ss"
  by (cases st) simp_all

lemma length_replay [simp]: "length (replay log ss) = length ss"
  by (induction log arbitrary: ss) simp_all

text \<open>\<^verbatim>\<open>memcpy\<close> into the data of a slot, and of or over a whole slot.\<close>

definition bytes_log :: "nat \<Rightarrow> nat \<Rightarrow> bytes \<Rightarrow> slot_store list" where
  "bytes_log i off bs = map (\<lambda>j. St_byte i (off + j) (bs ! j)) [0..<length bs]"

definition slot_log :: "nat \<Rightarrow> qslot \<Rightarrow> slot_store list" where
  "slot_log i s = St_count i (s_count s) # St_hash i (s_hash s) # St_size i (s_size s) # St_link i (s_link s) #
     bytes_log i 0 (s_data s)"

subsection \<open>The stores of the operations\<close>

definition remove_slot_log :: "qenv \<Rightarrow> nat \<Rightarrow> slot_store list" where
  "remove_slot_log t idx = (if s_count (slot_at t idx) = 0 then [] else [St_count idx 0])"

definition copy_slot_log :: "qenv \<Rightarrow> nat \<Rightarrow> nat \<Rightarrow> slot_store list" where
  "copy_slot_log t idx1 idx2 =
     (if s_count (slot_at t idx1) \<noteq> 0 \<or> s_count (slot_at t idx2) = 0 then []
      else slot_log idx1 (slot_at t idx2))"

function remove_data_loop_log :: "qenv \<Rightarrow> nat \<Rightarrow> nat \<Rightarrow> slot_store list" where
  "remove_data_loop_log t idx loop_count =
     (let link = s_link (slot_at t idx); t' = snd (remove_slot t idx)
      in remove_slot_log t idx @
         (if link = -1 then []
          else if int (loop_count + 1) > maxslots t' then []
          else remove_data_loop_log t' (nat link) (loop_count + 1)))"
  by pat_completeness auto
termination
  by (relation "measure (\<lambda>(t, idx, lc). nat (maxslots t) - lc)") auto

declare remove_data_loop_log.simps [simp del]

definition remove_data_log :: "qenv \<Rightarrow> nat \<Rightarrow> slot_store list" where
  "remove_data_log t idx = (if s_count (slot_at t idx) = 0 then [] else remove_data_loop_log t idx 0)"

definition put_key_log :: "nat \<Rightarrow> nat \<Rightarrow> bytes \<Rightarrow> int \<Rightarrow> slot_store list" where
  "put_key_log idx hash key count =
     St_count idx (to_short count) # St_hash idx hash # bytes_log idx 128 (take KEYSIZE key) @
     bytes_log idx 226 (md5_digest key) @ bytes_log idx 224 (to_le 2 (of_nat (length key) :: u16)) @ [St_link idx (-1)]"

definition link_ext_log :: "nat \<Rightarrow> nat \<Rightarrow> slot_store list" where
  "link_ext_log newidx tmpidx =
     slot_log tmpidx zero_slot @
     [St_count tmpidx (-2), St_hash tmpidx newidx, St_link tmpidx (-1), St_size tmpidx 0, St_link newidx (int tmpidx)]"

definition store_chunk_log :: "nat \<Rightarrow> bytes \<Rightarrow> nat \<Rightarrow> qenv \<Rightarrow> slot_store list" where
  "store_chunk_log newidx val savesize t =
     (let copysize = chunk_size t newidx val savesize
      in bytes_log newidx 0 (mem_read savesize copysize val) @ [St_size newidx (copysize mod 256)])"

function put_data_loop_log :: "nat \<Rightarrow> bytes \<Rightarrow> nat \<Rightarrow> nat \<Rightarrow> qenv \<Rightarrow> slot_store list" where
  "put_data_loop_log idx val newidx savesize t =
     (if savesize < length val
      then if savesize > 0
           then case find_empty t (newidx + 1) of
                  None \<Rightarrow> remove_data_log t idx
                | Some tmpidx \<Rightarrow>
                    let t' = link_ext newidx tmpidx t
                    in link_ext_log newidx tmpidx @ store_chunk_log tmpidx val savesize t' @
                       put_data_loop_log idx val tmpidx (savesize + chunk_size t' tmpidx val savesize)
                         (store_chunk tmpidx val savesize t')
           else store_chunk_log newidx val savesize t @
                put_data_loop_log idx val newidx (savesize + chunk_size t newidx val savesize)
                  (store_chunk newidx val savesize t)
      else [])"
  by pat_completeness auto
termination
  by (relation "measure (\<lambda>(idx, val, newidx, savesize, t). length val - savesize)")
    (auto simp: diff_less_mono2)

declare put_data_loop_log.simps [simp del]

definition put_data_log :: "qenv \<Rightarrow> nat \<Rightarrow> nat \<Rightarrow> bytes \<Rightarrow> bytes \<Rightarrow> int \<Rightarrow> slot_store list" where
  "put_data_log t idx hash key val count =
     (if s_count (slot_at t idx) \<noteq> 0 then []
      else put_key_log idx hash key count @ put_data_loop_log idx val idx 0 (put_key idx hash key count t))"

definition relink_next_log :: "nat \<Rightarrow> qenv \<Rightarrow> slot_store list" where
  "relink_next_log idx t =
     (if s_link (slot_at t idx) \<noteq> -1 then [St_hash (nat (s_link (slot_at t idx))) idx] else [])"

definition relink_moved_log :: "nat \<Rightarrow> qenv \<Rightarrow> slot_store list" where
  "relink_moved_log idx t =
     (if s_count (slot_at t idx) = -2
      then St_link (s_hash (slot_at t idx)) (int idx) #
           relink_next_log idx (upd_slot (s_hash (slot_at t idx)) (\<lambda>s. s\<lparr>s_link := int idx\<rparr>) t)
      else if s_count (slot_at t idx) = -1 then relink_next_log idx t
      else [])"

definition remove_log :: "bytes \<Rightarrow> qenv \<Rightarrow> slot_store list" where
  "remove_log key t =
     (if maxslots t = 0 then []
      else let hash = bucket t key
           in case get_idx t key hash of
                None \<Rightarrow> []
              | Some idx \<Rightarrow>
                  if s_count (slot_at t idx) = 1 then remove_data_log t idx
                  else if s_count (slot_at t idx) > 1
                  then case find_dup t idx hash of
                         None \<Rightarrow> []
                       | Some idx2 \<Rightarrow>
                           let backupcount = s_count (slot_at t idx);
                               t1 = snd (remove_data t idx);
                               t2 = snd (copy_slot t1 idx idx2);
                               t3 = snd (remove_slot t2 idx2);
                               t4 = upd_slot idx (\<lambda>s. s\<lparr>s_count := to_short (backupcount - 1)\<rparr>) t3
                           in remove_data_log t idx @ copy_slot_log t1 idx idx2 @ remove_slot_log t2 idx2 @
                              St_count idx (to_short (backupcount - 1)) # relink_next_log idx t4
                  else if s_count (slot_at t idx) = -1
                  then let lead = s_hash (slot_at t idx)
                       in if s_count (slot_at t lead) \<le> 1 then []
                          else let t1 = upd_slot lead (\<lambda>s. s\<lparr>s_count := to_short (s_count s - 1)\<rparr>) t
                               in St_count lead (to_short (s_count (slot_at t lead) - 1)) # remove_data_log t1 idx
                  else [])"

function put_log :: "bytes \<Rightarrow> bytes \<Rightarrow> qenv \<Rightarrow> slot_store list" where
  "put_log key val t =
     (if maxslots t = 0 then []
      else if usedslots t \<ge> maxslots t then []
      else let hash = bucket t key
           in if s_count (slot_at t hash) = 0 then put_data_log t hash hash key val 1
              else if s_count (slot_at t hash) > 0
              then case get_idx t key hash of
                     Some idx \<Rightarrow>
                       (case qhasharr_remove Ptr (Some key) t of
                          (ok, t') \<Rightarrow> remove_log key t @ (if \<not> ok then [] else put_log key val t'))
                   | None \<Rightarrow>
                       (case find_empty t hash of
                          None \<Rightarrow> []
                        | Some idx \<Rightarrow>
                            (case put_data t idx hash key val (-1) of
                               (ok, t') \<Rightarrow> put_data_log t idx hash key val (-1) @
                                 (if \<not> ok then []
                                  else [St_count hash (to_short (s_count (slot_at t' hash) + 1))])))
              else case find_empty t (hash + 1) of
                     None \<Rightarrow> []
                   | Some idx \<Rightarrow>
                       let t1 = snd (copy_slot t idx hash);
                           t2 = snd (remove_slot t1 hash);
                           t3 = relink_moved idx t2
                       in copy_slot_log t idx hash @ remove_slot_log t1 hash @ relink_moved_log idx t2 @
                          put_data_log t3 hash hash key val 1)"
  by pat_completeness auto
termination
  by (relation "measure (\<lambda>(key, val, t). card (occupied t))") (auto intro: remove_decreases [OF sym])

declare put_log.simps [simp del]

definition clear_log :: "qenv \<Rightarrow> slot_store list" where
  "clear_log t =
     (if usedslots t = 0 then [] else concat (map (\<lambda>i. slot_log i zero_slot) [0..<nat (maxslots t)]))"

subsection \<open>Slots by their type\<close>

definition typed_slot :: "nat \<Rightarrow> qslot \<Rightarrow> bool" where
  "typed_slot m s \<longleftrightarrow> - 32768 \<le> s_count s \<and> s_count s \<le> 32767 \<and> s_hash s < m \<and> s_size s \<le> DATASIZE \<and>
     (s_link s = -1 \<or> 0 \<le> s_link s \<and> s_link s < int m) \<and> length (s_data s) = DATASIZE"

definition typed_slots :: "nat \<Rightarrow> qslot list \<Rightarrow> bool" where
  "typed_slots m ss \<longleftrightarrow> 0 < m \<and> length ss = m \<and> (\<forall>s\<in>set ss. typed_slot m s)"

fun typed_store :: "nat \<Rightarrow> slot_store \<Rightarrow> bool" where
  "typed_store m (St_count i c) \<longleftrightarrow> i < m \<and> - 32768 \<le> c \<and> c \<le> 32767"
| "typed_store m (St_hash i h) \<longleftrightarrow> i < m \<and> h < m"
| "typed_store m (St_size i k) \<longleftrightarrow> i < m \<and> k \<le> DATASIZE"
| "typed_store m (St_link i l) \<longleftrightarrow> i < m \<and> (l = -1 \<or> 0 \<le> l \<and> l < int m)"
| "typed_store m (St_byte i j b) \<longleftrightarrow> i < m \<and> j < DATASIZE"

lemma typed_slotsD:
  assumes "typed_slots m ss"
  shows "0 < m" "length ss = m" "i < m \<Longrightarrow> typed_slot m (ss ! i)"
  using assms by (auto simp: typed_slots_def)

lemma typed_update:
  "typed_slots m ss \<Longrightarrow> typed_slot m s \<Longrightarrow> typed_slots m (ss[i := s])"
  using set_update_subset_insert [of ss i s] by (auto simp: typed_slots_def)

lemma typed_apply: "typed_slots m ss \<Longrightarrow> typed_store m st \<Longrightarrow> typed_slots m (apply_store st ss)"
  by (cases st) (auto intro!: typed_update dest: typed_slotsD(3) simp: typed_slot_def)

lemma typed_replay: "typed_slots m ss \<Longrightarrow> \<forall>st\<in>set log. typed_store m st \<Longrightarrow> typed_slots m (replay log ss)"
  by (induction log arbitrary: ss) (simp_all add: typed_apply)

text \<open>A part of a table operation, with the stores it makes.\<close>

definition logged :: "qenv \<Rightarrow> qenv \<Rightarrow> slot_store list \<Rightarrow> bool" where
  "logged t t' log \<longleftrightarrow> maxslots t' = maxslots t \<and> slots t' = replay log (slots t) \<and>
     (\<forall>st\<in>set log. typed_store (nat (maxslots t)) st)"

definition typed_table :: "qenv \<Rightarrow> bool" where
  "typed_table t \<longleftrightarrow> maxslots t < 2 ^ 31 \<and> typed_slots (nat (maxslots t)) (slots t)"

lemma logged_typed: "logged t t' log \<Longrightarrow> typed_table t \<Longrightarrow> typed_table t'"
  by (simp add: logged_def typed_table_def typed_replay)

lemma logged_refl: "maxslots t' = maxslots t \<Longrightarrow> slots t' = slots t \<Longrightarrow> logged t t' []"
  by (simp add: logged_def)

lemma logged_trans: "logged t t1 log \<Longrightarrow> logged t1 t2 log' \<Longrightarrow> logged t t2 (log @ log')"
  by (auto simp: logged_def)

lemma logged_Cons: "logged t t1 [st] \<Longrightarrow> logged t1 t2 log \<Longrightarrow> logged t t2 (st # log)"
  using logged_trans [of t t1 "[st]"] by simp

lemma logged_field: "logged t t' log \<Longrightarrow> maxslots t'' = maxslots t' \<Longrightarrow> slots t'' = slots t' \<Longrightarrow> logged t t'' log"
  by (simp add: logged_def)

lemma typed_tableD:
  assumes "typed_table t"
  shows "0 < maxslots t" "int (length (slots t)) = maxslots t" "nat (maxslots t) = length (slots t)" "slots t \<noteq> []"
    "i < length (slots t) \<Longrightarrow> typed_slot (length (slots t)) (slot_at t i)" "maxslots t < 2 ^ 31"
  using typed_slotsD [OF assms [unfolded typed_table_def, THEN conjunct2]] assms [unfolded typed_table_def] by (auto simp: slot_at_def)

subsection \<open>Replaying copies\<close>

lemma bytes_log_simps:
  "bytes_log i off [] = []"
  "bytes_log i off (bs @ [b]) = bytes_log i off bs @ [St_byte i (off + length bs) b]"
  by (simp_all add: bytes_log_def nth_append)

lemma blit_snoc: "off + length bs < length d \<Longrightarrow> blit off (bs @ [b]) d = (blit off bs d)[off + length bs := b]"
  by (rule nth_equalityI) (auto simp: nth_blit nth_list_update nth_append)

lemma replay_bytes:
  "i < length ss \<Longrightarrow> off + length bs \<le> length (s_data (ss ! i)) \<Longrightarrow>
   replay (bytes_log i off bs) ss = ss[i := (ss ! i)\<lparr>s_data := blit off bs (s_data (ss ! i))\<rparr>]"
  by (induction bs rule: rev_induct) (simp_all add: bytes_log_simps blit_snoc)

lemma typed_bytes:
  "i < m \<Longrightarrow> off + length bs \<le> DATASIZE \<Longrightarrow> st \<in> set (bytes_log i off bs) \<Longrightarrow> typed_store m st"
  by (auto simp: bytes_log_def)

lemma replay_slot_log:
  assumes "i < length ss" "length (s_data s) = length (s_data (ss ! i))"
  shows "replay (slot_log i s) ss = ss[i := s]"
  using assms by (cases "ss ! i"; cases s) (simp add: slot_log_def replay_bytes blit_whole)

lemma typed_slot_log: "i < m \<Longrightarrow> typed_slot m s \<Longrightarrow> st \<in> set (slot_log i s) \<Longrightarrow> typed_store m st"
  using typed_bytes [of i m 0 "s_data s"] by (auto simp: slot_log_def typed_slot_def)

text \<open>Updates of a slot of a typed table.\<close>

lemma upd_slot_slots: "i < length (slots t) \<Longrightarrow> slots (upd_slot i f t) = (slots t)[i := f (slots t ! i)]"
  by (simp add: upd_slot_def slot_at_def)

lemma logged_fields:
  assumes "typed_table t" "i < length (slots t)"
  shows "- 32768 \<le> c \<Longrightarrow> c \<le> 32767 \<Longrightarrow> logged t (upd_slot i (\<lambda>s. s\<lparr>s_count := c\<rparr>) t) [St_count i c]"
    "h < length (slots t) \<Longrightarrow> logged t (upd_slot i (\<lambda>s. s\<lparr>s_hash := h\<rparr>) t) [St_hash i h]"
    "k \<le> DATASIZE \<Longrightarrow> logged t (upd_slot i (\<lambda>s. s\<lparr>s_size := k\<rparr>) t) [St_size i k]"
    "l = -1 \<or> 0 \<le> l \<and> l < maxslots t \<Longrightarrow> logged t (upd_slot i (\<lambda>s. s\<lparr>s_link := l\<rparr>) t) [St_link i l]"
    "off + length bs \<le> DATASIZE \<Longrightarrow>
       logged t (upd_slot i (\<lambda>s. s\<lparr>s_data := blit off bs (s_data s)\<rparr>) t) (bytes_log i off bs)"
  using assms typed_tableD [OF assms(1)] typed_bytes [of i "length (slots t)" off bs]
  by (auto simp: logged_def upd_slot_slots replay_bytes typed_slot_def slot_at_def)

lemma logged_slot:
  assumes "typed_table t" "i < length (slots t)" "typed_slot (length (slots t)) s"
  shows "logged t (upd_slot i (\<lambda>_. s) t) (slot_log i s)"
  using assms typed_tableD [OF assms(1)] typed_slot_log [of i "length (slots t)" s]
  by (auto simp: logged_def upd_slot_slots replay_slot_log typed_slot_def slot_at_def)

lemma typed_zero_slot: "typed_table t \<Longrightarrow> typed_slot (length (slots t)) zero_slot"
  using typed_tableD(4) by (auto simp: typed_slot_def zero_slot_def)

subsection \<open>The operations are their stores\<close>

lemma to_int32_range: "to_int32 c < 2147483648"
  using signed_take_bit_int_less_exp [of 31 c] by (simp add: to_int32_def)

lemma to_short_range: "- 32768 \<le> to_short c" "to_short c \<le> 32767"
  using signed_take_bit_int_greater_eq_minus_exp [of 15 c] signed_take_bit_int_less_exp [of 15 c]
  by (simp_all add: to_short_def)

lemma logged_remove_slot:
  assumes "typed_table t" "idx < length (slots t)"
  shows "logged t (snd (remove_slot t idx)) (remove_slot_log t idx)"
  using logged_fields(1) [OF assms, of 0] by (auto simp: remove_slot_def remove_slot_log_def logged_def Let_def)

lemma logged_copy_slot:
  assumes "typed_table t" "i < length (slots t)" "j < length (slots t)"
  shows "logged t (snd (copy_slot t i j)) (copy_slot_log t i j)"
  using logged_slot [OF assms(1,2) typed_tableD(5) [OF assms(1,3)]]
  by (auto simp: copy_slot_def copy_slot_log_def logged_def Let_def)

lemma typed_link:
  assumes "typed_table t" "i < length (slots t)" "s_link (slot_at t i) \<noteq> -1"
  shows "nat (s_link (slot_at t i)) < length (slots t)"
  using typed_tableD(5) [OF assms(1,2)] assms(3) by (auto simp: typed_slot_def nat_less_iff)

lemma logged_remove_data_loop:
  "typed_table t \<Longrightarrow> idx < length (slots t) \<Longrightarrow>
   logged t (remove_data_loop t idx lc) (remove_data_loop_log t idx lc)"
proof (induction t idx lc rule: remove_data_loop.induct)
  case (1 t idx lc)
  let ?t = "snd (remove_slot t idx)" and ?link = "s_link (slot_at t idx)"
  note rem = logged_remove_slot [OF "1.prems"]
  have typed: "typed_table ?t" by (rule logged_typed [OF rem "1.prems"(1)])
  show ?case
  proof (cases "?link = -1 \<or> int (lc + 1) > maxslots ?t")
    case True
    then show ?thesis
      using rem by (auto simp: remove_data_loop.simps [of t] remove_data_loop_log.simps [of t] Let_def)
  next
    case False
    then have "nat ?link < length (slots ?t)"
      using typed_link [OF "1.prems"] rem by (auto simp: logged_def)
    then have "logged ?t (remove_data_loop ?t (nat ?link) (lc + 1)) (remove_data_loop_log ?t (nat ?link) (lc + 1))"
      using "1.IH" [OF refl refl] False typed by simp
    from logged_trans [OF rem this] False show ?thesis
      by (simp add: remove_data_loop.simps [of t] remove_data_loop_log.simps [of t] Let_def)
  qed
qed

lemma logged_remove_data:
  assumes "typed_table t" "idx < length (slots t)"
  shows "logged t (snd (remove_data t idx)) (remove_data_log t idx)"
  using logged_remove_data_loop [OF assms, of 0]
  by (auto simp: remove_data_def remove_data_log_def Let_def logged_def)

lemma logged_seq:
  assumes "typed_table t" "logged t t1 log"
    and "typed_table t1 \<Longrightarrow> length (slots t1) = length (slots t) \<Longrightarrow> maxslots t1 = maxslots t \<Longrightarrow> logged t1 t2 log'"
  shows "logged t t2 (log @ log')"
  using assms logged_typed [OF assms(2,1)] by (intro logged_trans [OF assms(2)]) (simp add: logged_def)

lemma logged_seq1:
  assumes "typed_table t" "logged t t1 [st]"
    and "typed_table t1 \<Longrightarrow> length (slots t1) = length (slots t) \<Longrightarrow> maxslots t1 = maxslots t \<Longrightarrow> logged t1 t2 log'"
  shows "logged t t2 (st # log')"
  using logged_seq [where log = "[st]" and log' = log', OF assms] by (simp only: append_Cons append_Nil)

lemma upd_slot_upd_slot [simp]: "upd_slot i f (upd_slot i g t) = upd_slot i (\<lambda>s. f (g s)) t"
  by (cases "i < length (slots t)") (simp_all add: upd_slot_def slot_at_def list_update_beyond)

lemma upd_slot_eqI: "(\<And>s. f s = g s) \<Longrightarrow> upd_slot i f t = upd_slot i g t"
  by (simp add: upd_slot_def)

lemma logged_put_key:
  assumes "typed_table t" "idx < length (slots t)" "hash < length (slots t)"
  shows "logged t (put_key idx hash key count t) (put_key_log idx hash key count)"
proof -
  let ?c = "\<lambda>s. s\<lparr>s_count := to_short count\<rparr>" and ?h = "\<lambda>s. s\<lparr>s_hash := hash\<rparr>"
  let ?d = "\<lambda>off bs s. s\<lparr>s_data := blit off bs (s_data s)\<rparr>" and ?l = "\<lambda>s. s\<lparr>s_link := -1\<rparr>"
  have eq: "put_key idx hash key count t = upd_slot idx ?l (upd_slot idx (?d 224 (to_le 2 (of_nat (length key) :: u16)))
      (upd_slot idx (?d 226 (md5_digest key)) (upd_slot idx (?d 128 (take KEYSIZE key))
        (upd_slot idx ?h (upd_slot idx ?c t)))))"
    unfolding put_key_def upd_slot_upd_slot by (rule upd_slot_eqI, rule qslot.equality) simp_all
  show ?thesis
    unfolding eq put_key_log_def using assms
    by (intro logged_seq1 [OF _ logged_fields(1)] logged_seq1 [OF _ logged_fields(2)] logged_seq [OF _ logged_fields(5)]
        logged_fields(4)) (simp_all add: to_short_range)
qed

lemma logged_link_ext:
  assumes "typed_table t" "newidx < length (slots t)" "tmpidx < length (slots t)"
  shows "logged t (link_ext newidx tmpidx t) (link_ext_log newidx tmpidx)"
proof -
  let ?c = "\<lambda>s. s\<lparr>s_count := -2\<rparr>" and ?h = "\<lambda>s. s\<lparr>s_hash := newidx\<rparr>" and ?l = "\<lambda>s. s\<lparr>s_link := -1\<rparr>"
    and ?z = "\<lambda>s. s\<lparr>s_size := 0\<rparr>" and ?n = "\<lambda>s. s\<lparr>s_link := int tmpidx\<rparr>"
  have eq: "link_ext newidx tmpidx t = upd_slot newidx ?n (upd_slot tmpidx ?z (upd_slot tmpidx ?l
      (upd_slot tmpidx ?h (upd_slot tmpidx ?c (upd_slot tmpidx (\<lambda>_. zero_slot) t)))))"
    by (simp add: link_ext_def)
  show ?thesis
    unfolding eq link_ext_log_def using assms typed_tableD(2) [OF assms(1)]
    by (intro logged_seq [OF _ logged_slot] logged_seq1 [OF _ logged_fields(1)] logged_seq1 [OF _ logged_fields(2)]
        logged_seq1 [OF _ logged_fields(4)] logged_seq1 [OF _ logged_fields(3)] logged_fields(4))
      (simp_all add: typed_zero_slot)
qed

lemma chunk_size_le: "chunk_size t i val savesize \<le> DATASIZE" "savesize + chunk_size t i val savesize \<le> max savesize (length val)"
  by (auto simp: chunk_size_def Let_def)

lemma logged_store_chunk:
  assumes "typed_table t" "newidx < length (slots t)" "savesize < length val"
  shows "logged t (store_chunk newidx val savesize t) (store_chunk_log newidx val savesize t)"
proof -
  let ?k = "chunk_size t newidx val savesize"
  let ?d = "\<lambda>s. s\<lparr>s_data := blit 0 (mem_read savesize ?k val) (s_data s)\<rparr>" and ?z = "\<lambda>s. s\<lparr>s_size := ?k mod 256\<rparr>"
  have k: "length (mem_read savesize ?k val) = ?k" "?k \<le> DATASIZE"
    using chunk_size_le(1) [of t newidx val savesize] chunk_size_le(2) [of savesize t newidx val] assms(3) by simp_all
  have "logged t (upd_slot newidx ?z (upd_slot newidx ?d t)) (store_chunk_log newidx val savesize t)"
    unfolding store_chunk_log_def Let_def using assms k
    by (intro logged_seq [OF _ logged_fields(5)] logged_fields(3)) simp_all
  then show ?thesis
    by (rule logged_field) (simp_all add: store_chunk_def Let_def upd_slot_def slot_at_def)
qed

lemma find_empty_range:
  assumes "typed_table t" "find_empty t s = Some i"
  shows "i < length (slots t)"
proof -
  let ?n = "length (slots t)" and ?s = "if int s \<ge> maxslots t then 0 else s"
  have n: "0 < ?n" "nat (maxslots t) = ?n" using typed_tableD(2,4) [OF assms(1)] by auto
  then have "?s < ?n" using typed_tableD(2) [OF assms(1)] by auto
  then have "set (cyc_order ?n ?s) = {..<?n}" by simp
  then show ?thesis
    using assms(2) \<open>?s < ?n\<close> n typed_tableD(1) [OF assms(1)]
    by (auto simp: find_empty_def Let_def cyc_loop_order split: if_splits sum.splits dest!: list_loop_Inl)
qed

lemma logged_put_data_loop:
  "typed_table t \<Longrightarrow> idx < length (slots t) \<Longrightarrow> newidx < length (slots t) \<Longrightarrow>
   logged t (snd (put_data_loop idx val newidx savesize t)) (put_data_loop_log idx val newidx savesize t)"
proof (induction idx val newidx savesize t rule: put_data_loop.induct)
  case (1 idx val newidx savesize t)
  note P = "1.prems"
  show ?case
  proof (cases "savesize < length val")
    case False
    then show ?thesis
      by (simp add: put_data_loop.simps [of idx] put_data_loop_log.simps [of idx] logged_refl)
  next
    case more: True
    show ?thesis
    proof (cases "0 < savesize")
      case False
      have "logged t (snd (put_data_loop idx val newidx (savesize + chunk_size t newidx val savesize)
            (store_chunk newidx val savesize t)))
          (store_chunk_log newidx val savesize t @ put_data_loop_log idx val newidx
            (savesize + chunk_size t newidx val savesize) (store_chunk newidx val savesize t))"
        using P more False by (intro logged_seq [OF _ logged_store_chunk] "1.IH"(2)) simp_all
      then show ?thesis
        using more False by (simp add: put_data_loop.simps [of idx val newidx 0] put_data_loop_log.simps [of idx val newidx 0])
    next
      case True
      show ?thesis
      proof (cases "find_empty t (newidx + 1)")
        case None
        then show ?thesis
          using more True logged_field [OF logged_remove_data [OF P(1,2)]]
          by (simp add: put_data_loop.simps [of idx] put_data_loop_log.simps [of idx])
      next
        case (Some tmpidx)
        let ?t = "link_ext newidx tmpidx t"
        have tmp: "tmpidx < length (slots t)" by (rule find_empty_range [OF P(1) Some])
        have "logged t (snd (put_data_loop idx val tmpidx (savesize + chunk_size ?t tmpidx val savesize)
              (store_chunk tmpidx val savesize ?t)))
            (link_ext_log newidx tmpidx @ store_chunk_log tmpidx val savesize ?t @
              put_data_loop_log idx val tmpidx (savesize + chunk_size ?t tmpidx val savesize)
              (store_chunk tmpidx val savesize ?t))"
          using P more True tmp
          by (intro logged_seq [OF _ logged_link_ext] logged_seq [OF _ logged_store_chunk] "1.IH"(1) [OF _ _ Some])
            simp_all
        then show ?thesis
          using more True Some
          by (simp add: put_data_loop.simps [of idx val newidx savesize] put_data_loop_log.simps [of idx val newidx savesize] Let_def)
      qed
    qed
  qed
qed

lemma logged_put_data:
  assumes "typed_table t" "idx < length (slots t)" "hash < length (slots t)"
  shows "logged t (snd (put_data t idx hash key val count)) (put_data_log t idx hash key val count)"
proof (cases "s_count (slot_at t idx) = 0")
  case True
  have "logged t (snd (put_data_loop idx val idx 0 (put_key idx hash key count t)))
      (put_key_log idx hash key count @ put_data_loop_log idx val idx 0 (put_key idx hash key count t))"
    using assms by (intro logged_seq [OF _ logged_put_key] logged_put_data_loop) simp_all
  then show ?thesis using True by (simp add: put_data_def put_data_log_def)
qed (simp add: put_data_def put_data_log_def logged_refl)

lemma logged_relink_next:
  assumes "typed_table t" "idx < length (slots t)"
  shows "logged t (relink_next idx t) (relink_next_log idx t)"
  using logged_fields(2) [OF assms(1) typed_link [OF assms] assms(2)]
  by (auto simp: relink_next_def relink_next_log_def logged_refl)

lemma logged_relink_moved:
  assumes "typed_table t" "idx < length (slots t)"
  shows "logged t (relink_moved idx t) (relink_moved_log idx t)"
proof -
  let ?p = "s_hash (slot_at t idx)"
  let ?t = "upd_slot ?p (\<lambda>s. s\<lparr>s_link := int idx\<rparr>) t"
  have p: "?p < length (slots t)" using typed_tableD(5) [OF assms] by (simp add: typed_slot_def)
  have "logged t (relink_next idx ?t) (St_link ?p (int idx) # relink_next_log idx ?t)"
    using assms typed_tableD(2) [OF assms(1)] p
    by (intro logged_seq1 [OF _ logged_fields(4)] logged_relink_next) simp_all
  then show ?thesis
    using logged_relink_next [OF assms] by (simp add: relink_moved_def relink_moved_log_def logged_refl)
qed

lemma typed_bucket: "typed_table t \<Longrightarrow> bucket t key < length (slots t)"
  using typed_tableD [of t] by (simp add: bucket_def)

lemma get_idx_range:
  assumes "typed_table t" "h < length (slots t)" "get_idx t key h = Some i"
  shows "i < length (slots t)"
proof -
  let ?n = "length (slots t)"
  have "nat (maxslots t) = ?n" using typed_tableD(3) [OF assms(1)] by simp
  moreover have "set (cyc_order ?n h) = {..<?n}" using assms(2) by simp
  ultimately show ?thesis
    using assms(2,3) by (auto simp: get_idx_def cyc_loop_order split: if_splits sum.splits dest!: list_loop_Inl)
qed

lemma find_dup_range: "find_dup t idx hash = Some j \<Longrightarrow> j < length (slots t)"
  using find_dup_SomeD [of t idx hash j] in_range_if_occupied [of t j] by simp

lemma logged_remove:
  assumes "typed_table t"
  shows "logged t (snd (qhasharr_remove Ptr (Some key) t)) (remove_log key t)"
proof (cases "get_idx t key (bucket t key)")
  case None
  then show ?thesis by (auto simp: qhasharr_remove_def remove_log_def Let_def logged_def)
next
  case (Some idx)
  have hash: "bucket t key < length (slots t)" by (rule typed_bucket [OF assms])
  note idx = get_idx_range [OF assms hash Some]
  have max: "maxslots t \<noteq> 0" using typed_tableD(1) [OF assms] by simp
  consider (one) "s_count (slot_at t idx) = 1" | (more) "s_count (slot_at t idx) > 1"
    | (dup) "s_count (slot_at t idx) = -1" | (none) "s_count (slot_at t idx) \<le> 0" "s_count (slot_at t idx) \<noteq> -1"
    by linarith
  then show ?thesis
  proof cases
    case one
    then show ?thesis
      using logged_remove_data [OF assms idx] max Some by (simp add: qhasharr_remove_def remove_log_def Let_def)
  next
    case more
    show ?thesis
    proof (cases "find_dup t idx (bucket t key)")
      case None
      then show ?thesis
        using more max Some by (simp add: qhasharr_remove_def remove_log_def Let_def logged_def)
    next
      case dup: (Some j)
      define t1 where "t1 = snd (remove_data t idx)"
      define t2 where "t2 = snd (copy_slot t1 idx j)"
      define t3 where "t3 = snd (remove_slot t2 j)"
      define c where "c = to_short (s_count (slot_at t idx) - 1)"
      define t4 where "t4 = upd_slot idx (\<lambda>s. s\<lparr>s_count := c\<rparr>) t3"
      have c: "- 32768 \<le> c" "c \<le> 32767" by (simp_all only: c_def to_short_range)
      have "logged t (relink_next idx t4) (remove_data_log t idx @ copy_slot_log t1 idx j @ remove_slot_log t2 j @
          St_count idx c # relink_next_log idx t4)"
        unfolding t1_def t2_def t3_def t4_def using assms idx find_dup_range [OF dup] c
        by (intro logged_seq [OF _ logged_remove_data] logged_seq [OF _ logged_copy_slot] logged_seq [OF _ logged_remove_slot]
            logged_seq1 [OF _ logged_fields(1)] logged_relink_next) simp_all
      then show ?thesis
        using more max Some dup
        by (simp add: qhasharr_remove_def remove_log_def Let_def t1_def t2_def t3_def t4_def c_def)
    qed
  next
    case dup
    let ?lead = "s_hash (slot_at t idx)"
    define c where "c = to_short (s_count (slot_at t ?lead) - 1)"
    have c: "- 32768 \<le> c" "c \<le> 32767" by (simp_all only: c_def to_short_range)
    have lead: "?lead < length (slots t)" using typed_tableD(5) [OF assms idx] by (simp add: typed_slot_def)
    have same: "upd_slot ?lead (\<lambda>s. s\<lparr>s_count := to_short (s_count s - 1)\<rparr>) t = upd_slot ?lead (\<lambda>s. s\<lparr>s_count := c\<rparr>) t"
      by (simp add: upd_slot_def c_def)
    have "logged t (snd (remove_data (upd_slot ?lead (\<lambda>s. s\<lparr>s_count := c\<rparr>) t) idx))
        (St_count ?lead c # remove_data_log (upd_slot ?lead (\<lambda>s. s\<lparr>s_count := c\<rparr>) t) idx)"
      using assms idx lead c by (intro logged_seq1 [OF _ logged_fields(1)] logged_remove_data) simp_all
    then show ?thesis
      using dup max Some by (simp add: qhasharr_remove_def remove_log_def Let_def same c_def [symmetric] logged_def)
  next
    case none
    then show ?thesis
      using max Some by (simp add: qhasharr_remove_def remove_log_def Let_def logged_def)
  qed
qed

lemma logged_put:
  "typed_table t \<Longrightarrow> logged t (snd (qhasharr_put Ptr (Some key) (Some val) t)) (put_log key val t)"
proof (simp add: qhasharr_put_def, induction key val t rule: put_log.induct)
  case (1 key val t)
  note typed = "1.prems"
  let ?h = "bucket t key"
  have h: "?h < length (slots t)" by (rule typed_bucket [OF typed])
  have max: "maxslots t \<noteq> 0" using typed_tableD(1) [OF typed] by simp
  show ?case
  proof (cases "usedslots t \<ge> maxslots t")
    case True
    then show ?thesis using max by (simp add: put_body.simps [of key] put_log.simps [of key] logged_def)
  next
    case room: False
    note unf = put_body.simps [of key val t] put_log.simps [of key val t] Let_def
    consider (empty) "s_count (slot_at t ?h) = 0" | (lead) "s_count (slot_at t ?h) > 0" | (other) "s_count (slot_at t ?h) < 0"
      by linarith
    then show ?thesis
    proof cases
      case empty
      then show ?thesis using room max logged_put_data [OF typed h h] by (simp add: unf)
    next
      case lead
      show ?thesis
      proof (cases "get_idx t key ?h")
        case None
        show ?thesis
        proof (cases "find_empty t ?h")
          case None
          then show ?thesis using room max lead \<open>get_idx t key ?h = None\<close> by (simp add: unf logged_def)
        next
          case (Some idx)
          obtain ok t' where put: "put_data t idx ?h key val (-1) = (ok, t')" by (cases "put_data t idx ?h key val (-1)")
          have log: "logged t t' (put_data_log t idx ?h key val (-1))"
            using logged_put_data [OF typed find_empty_range [OF typed Some] h, of key val "-1"] by (simp add: put)
          let ?c = "to_short (s_count (slot_at t' ?h) + 1)"
          have "logged t (upd_slot ?h (\<lambda>s. s\<lparr>s_count := ?c\<rparr>) t') (put_data_log t idx ?h key val (-1) @ [St_count ?h ?c])"
            using typed h log by (intro logged_seq [OF typed log] logged_fields(1)) (simp_all add: to_short_range)
          moreover have "upd_slot ?h (\<lambda>s. s\<lparr>s_count := to_short (s_count s + 1)\<rparr>) t' = upd_slot ?h (\<lambda>s. s\<lparr>s_count := ?c\<rparr>) t'"
            by (simp add: upd_slot_def)
          ultimately show ?thesis
            using room max lead \<open>get_idx t key ?h = None\<close> Some put log by (simp add: unf)
        qed
      next
        case (Some idx)
        obtain ok t' where rem: "qhasharr_remove Ptr (Some key) t = (ok, t')" by (cases "qhasharr_remove Ptr (Some key) t")
        have log: "logged t t' (remove_log key t)" using logged_remove [OF typed, of key] by (simp add: rem)
        show ?thesis
        proof (cases ok)
          case True
          have "logged t' (snd (put_body key val t')) (put_log key val t')"
            using "1.IH" [OF max room refl _ lead Some rem [symmetric]] logged_typed [OF log typed] True lead by simp
          from logged_trans [OF log this] show ?thesis using room max lead Some rem True by (simp add: unf)
        next
          case False
          then show ?thesis using room max lead Some rem log by (simp add: unf)
        qed
      qed
    next
      case other
      show ?thesis
      proof (cases "find_empty t (?h + 1)")
        case None
        then show ?thesis using room max other by (simp add: unf logged_def)
      next
        case (Some idx)
        define t1 where "t1 = snd (copy_slot t idx ?h)"
        define t2 where "t2 = snd (remove_slot t1 ?h)"
        define t3 where "t3 = relink_moved idx t2"
        have "logged t (snd (put_data t3 ?h ?h key val 1)) (copy_slot_log t idx ?h @ remove_slot_log t1 ?h @
            relink_moved_log idx t2 @ put_data_log t3 ?h ?h key val 1)"
          unfolding t1_def t2_def t3_def using typed h find_empty_range [OF typed Some]
          by (intro logged_seq [OF _ logged_copy_slot] logged_seq [OF _ logged_remove_slot]
              logged_seq [OF _ logged_relink_moved] logged_put_data) simp_all
        then show ?thesis using room max other Some by (simp add: unf t1_def t2_def t3_def)
      qed
    qed
  qed
qed

lemma replay_clear:
  "n \<le> length ss \<Longrightarrow> \<forall>s\<in>set ss. length (s_data s) = DATASIZE \<Longrightarrow>
   replay (concat (map (\<lambda>i. slot_log i zero_slot) [0..<n])) ss = replicate n zero_slot @ drop n ss"
proof (induction n)
  case (Suc n)
  have "length (s_data (ss ! n)) = DATASIZE" using Suc.prems by simp
  moreover have "(replicate n zero_slot @ drop n ss) ! n = ss ! n" using Suc.prems(1) by (simp add: nth_append)
  moreover have "drop n ss = ss ! n # drop (Suc n) ss" using Suc.prems(1) by (simp add: Cons_nth_drop_Suc)
  ultimately show ?case
    using Suc by (simp add: replay_slot_log zero_slot_def list_update_append replicate_append_same [symmetric])
qed simp

lemma logged_clear:
  assumes "typed_table t"
  shows "logged t (qhasharr_clear Ptr t) (clear_log t)"
proof (cases "usedslots t = 0")
  case False
  have "\<forall>s\<in>set (slots t). length (s_data s) = DATASIZE"
    using assms by (auto simp: typed_table_def typed_slots_def typed_slot_def)
  then have "replay (clear_log t) (slots t) = replicate (nat (maxslots t)) zero_slot @ drop (nat (maxslots t)) (slots t)"
    using False typed_tableD(3) [OF assms] by (simp add: clear_log_def replay_clear)
  moreover have "\<forall>st\<in>set (clear_log t). typed_store (nat (maxslots t)) st"
    using False typed_slot_log [OF _ typed_zero_slot [OF assms]] typed_tableD(3) [OF assms] by (auto simp: clear_log_def)
  ultimately show ?thesis using False by (simp add: logged_def qhasharr_clear_def)
qed (simp add: qhasharr_clear_def clear_log_def logged_refl)

text \<open>A new table has typed slots.\<close>

lemma typed_create:
  assumes "qhasharr Ptr k t = (Ptr, t')"
  shows "typed_table t'"
  using assms to_int32_range
  by (auto simp: qhasharr_def Let_def typed_table_def typed_slots_def typed_slot_def zero_slot_def split: if_splits)

end
