(* ===== verification/Racy_Reader.thy ===== *)
theory Racy_Reader
  imports Writer_Log Mrsw_Spec "HOL-Library.Monad_Syntax"
begin

text \<open>
  A process that reads the table of \<^verbatim>\<open>shmutil/shm_mrsw_hashtable.cc\<close> while another one writes
  it. The mutex of the class lies in the memory of each process, so that it excludes no other
  process: between two accesses of the reader the slots may change. The lookup,
  the existence test and the iteration are modelled access by access on a view, the slots at the time of each
  access; \<open>None\<close> is an access outside of the slots, of the data of a slot or of the allocated
  buffer. The number of slots never changes after the creation.
\<close>

subsection \<open>Accesses\<close>

type_synonym view = "nat \<Rightarrow> qslot list"

definition peek :: "view \<Rightarrow> nat \<Rightarrow> int \<Rightarrow> qslot option" where
  "peek v n i = (if 0 \<le> i \<and> i < int (length (v n)) then Some (v n ! nat i) else None)"

text \<open>A \<^verbatim>\<open>memcpy\<close> or \<^verbatim>\<open>memcmp\<close> out of a slot, one access a byte.\<close>

fun peek_bytes :: "view \<Rightarrow> nat \<Rightarrow> int \<Rightarrow> nat \<Rightarrow> nat \<Rightarrow> bytes option" where
  "peek_bytes v n i off 0 = Some []"
| "peek_bytes v n i off (Suc k) = do {
     s \<leftarrow> peek v n i;
     b \<leftarrow> (if off < length (s_data s) then Some (s_data s ! off) else None);
     bs \<leftarrow> peek_bytes v (Suc n) i (Suc off) k;
     Some (b # bs)
   }"

text \<open>\<^verbatim>\<open>memcpy (vp, bs, vsize)\<close> into the buffer of the value.\<close>

definition put_bytes :: "nat \<Rightarrow> bytes \<Rightarrow> bytes \<Rightarrow> bytes option" where
  "put_bytes vp bs val = (if vp + length bs \<le> length val then Some (blit vp bs val) else None)"

subsection \<open>The lookup\<close>

text \<open>The comparison of the key with the one in a slot, and the time after it.\<close>

definition racy_match :: "view \<Rightarrow> nat \<Rightarrow> bytes \<Rightarrow> nat \<Rightarrow> (bool \<times> nat) option" where
  "racy_match v n key idx = do {
     s \<leftarrow> peek v n (int idx);
     if length key \<noteq> pair_keylen (s_data s) then Some (False, n + 1)
     else if length key \<le> KEYSIZE then do {
       k \<leftarrow> peek_bytes v (n + 1) (int idx) 128 (length key);
       Some (key = k, n + 1 + length key)
     }
     else do {
       k \<leftarrow> peek_bytes v (n + 1) (int idx) 128 KEYSIZE;
       if take KEYSIZE key = k then do {
         d \<leftarrow> peek_bytes v (n + 1 + KEYSIZE) (int idx) 226 16;
         Some (md5_digest key = d, n + 17 + KEYSIZE)
       }
       else Some (False, n + 1 + KEYSIZE)
     }
   }"

text \<open>One round of the loop of \<^verbatim>\<open>_get_idx\<close>: whether it has found the key, the count and the time.\<close>

definition racy_probe :: "view \<Rightarrow> nat \<Rightarrow> bytes \<Rightarrow> nat \<Rightarrow> nat \<Rightarrow> int \<Rightarrow> (bool \<times> int \<times> nat) option" where
  "racy_probe v n key hash idx count = do {
     s \<leftarrow> peek v n (int idx);
     s1 \<leftarrow> peek v (n + 1) (int idx);
     s2 \<leftarrow> peek v (n + 2) (int idx);
     if s_hash s = hash \<and> (s_count s1 > 0 \<or> s_count s2 = -1) then do {
       (found, n) \<leftarrow> racy_match v (n + 3) key idx;
       Some (found, count + 1, n)
     }
     else Some (False, count, n + 3)
   }"

function racy_idx_loop :: "view \<Rightarrow> nat \<Rightarrow> bytes \<Rightarrow> nat \<Rightarrow> nat \<Rightarrow> nat \<Rightarrow> int \<Rightarrow> (nat option \<times> nat) option" where
  "racy_idx_loop v m key hash n idx count = do {
     lead \<leftarrow> peek v n (int hash);
     if \<not> count < s_count lead then Some (None, n + 1)
     else do {
       (found, count, n) \<leftarrow> racy_probe v (n + 1) key hash idx count;
       if found then Some (Some idx, n)
       else if cyc_next m idx = hash \<or> m \<le> hash then Some (None, n)
       else racy_idx_loop v m key hash n (cyc_next m idx) count
     }
   }"
  by pat_completeness auto
termination
  by (relation "measure (\<lambda>(v, m, key, hash, n, idx, count). if idx < hash then hash - idx else Suc hash + (m - idx))")
    (auto simp: cyc_next_def split: if_splits)

declare racy_idx_loop.simps [simp del]

definition racy_get_idx :: "view \<Rightarrow> nat \<Rightarrow> bytes \<Rightarrow> nat \<Rightarrow> nat \<Rightarrow> (nat option \<times> nat) option" where
  "racy_get_idx v m key hash n = do {
     lead \<leftarrow> peek v n (int hash);
     if s_count lead > 0 then racy_idx_loop v m key hash (n + 1) hash 0 else Some (None, n + 1)
   }"

subsection \<open>The value\<close>

text \<open>The first loop of \<^verbatim>\<open>_get_data\<close>; \<open>Some (None, n)\<close> is its return on too many rounds.\<close>

function racy_size :: "view \<Rightarrow> nat \<Rightarrow> nat \<Rightarrow> int \<Rightarrow> nat \<Rightarrow> nat \<Rightarrow> (nat option \<times> nat) option" where
  "racy_size v m n newidx valsize loop_count =
     (if newidx = -1 then Some (Some valsize, n)
      else do {
        s \<leftarrow> peek v n newidx;
        s1 \<leftarrow> peek v (n + 1) newidx;
        if s_link s1 = -1 then Some (Some (valsize + s_size s), n + 2)
        else if loop_count + 1 > m then Some (None, n + 2)
        else do {
          s2 \<leftarrow> peek v (n + 2) newidx;
          racy_size v m (n + 3) (s_link s2) (valsize + s_size s) (loop_count + 1)
        }
      })"
  by pat_completeness auto
termination
  by (relation "measure (\<lambda>(v, m, n, newidx, valsize, lc). m - lc)") auto

text \<open>The second loop: the copy into the buffer \<open>val\<close> of \<open>valsize\<close> bytes.\<close>

function racy_copy ::
    "view \<Rightarrow> nat \<Rightarrow> nat \<Rightarrow> nat \<Rightarrow> int \<Rightarrow> bytes \<Rightarrow> nat \<Rightarrow> nat \<Rightarrow> (bytes option \<times> nat) option" where
  "racy_copy v m valsize n newidx val vp loop_count =
     (if vp < valsize \<and> newidx \<noteq> -1
      then do {
        s \<leftarrow> peek v n newidx;
        let vsize = s_size s;
        if vp + vsize > valsize then Some (None, n + 1)
        else do {
          s1 \<leftarrow> peek v (n + 1) newidx;
          bs \<leftarrow> (if s_count s1 = -2 then peek_bytes v (n + 2) newidx 0 vsize
                 else peek_bytes v (n + 2) newidx 0 vsize);
          val \<leftarrow> put_bytes vp bs val;
          s2 \<leftarrow> peek v (n + 2 + vsize) newidx;
          if s_link s2 = -1 then Some (Some val, n + 3 + vsize)
          else if loop_count + 1 > m then Some (None, n + 3 + vsize)
          else do {
            s3 \<leftarrow> peek v (n + 3 + vsize) newidx;
            racy_copy v m valsize (n + 4 + vsize) (s_link s3) val (vp + vsize) (loop_count + 1)
          }
        }
      }
      else Some (Some val, n))"
  by pat_completeness auto
termination
  by (relation "measure (\<lambda>(v, m, valsize, n, newidx, val, vp, lc). m - lc)") auto

declare racy_size.simps [simp del] racy_copy.simps [simp del]

definition racy_get_data :: "(nat \<Rightarrow> bool) \<Rightarrow> view \<Rightarrow> nat \<Rightarrow> nat \<Rightarrow> nat \<Rightarrow> (bytes option \<times> nat) option" where
  "racy_get_data alloc v m n idx = do {
     (r, n) \<leftarrow> racy_size v m n (int idx) 0 0;
     case r of
       None \<Rightarrow> Some (None, n)
     | Some valsize \<Rightarrow>
         if \<not> alloc valsize then Some (None, n)
         else racy_copy v m valsize n (int idx) (replicate valsize 0) 0 0
   }"

text \<open>\<^verbatim>\<open>qhasharr_get\<close> on an attached table of \<open>m\<close> slots, and \<^verbatim>\<open>getValue\<close> over it.\<close>

definition racy_get :: "(nat \<Rightarrow> bool) \<Rightarrow> view \<Rightarrow> nat \<Rightarrow> nat \<Rightarrow> bytes \<Rightarrow> (bytes option \<times> nat) option" where
  "racy_get alloc v m n key =
     (if m = 0 then Some (None, n)
      else do {
        (r, n) \<leftarrow> racy_get_idx v m key (unat (murmur3_hash key) mod m) n;
        case r of None \<Rightarrow> Some (None, n) | Some idx \<Rightarrow> racy_get_data alloc v m n idx
      })"

definition racy_getValue ::
    "mrsw_env \<Rightarrow> view \<Rightarrow> nat \<Rightarrow> nat \<Rightarrow> bytes \<Rightarrow> bytes \<Rightarrow> (ErrorCode \<times> bytes) option" where
  "racy_getValue env v m n key old =
     (if key = [] then Some (kErrInvalidParams, old)
      else do {
        (r, n) \<leftarrow> racy_get (e_alloc env) v m n key;
        case r of
          None \<Rightarrow> Some (kErrNotFound, old)
        | Some raw \<Rightarrow> Some (verifyShmValue (e_little env) raw)
      })"

subsection \<open>The other reading operations\<close>

definition racy_exist :: "view \<Rightarrow> nat \<Rightarrow> nat \<Rightarrow> bytes \<Rightarrow> (bool \<times> nat) option" where
  "racy_exist v m n key =
     (if m = 0 then Some (False, n)
      else do {
        (r, n) \<leftarrow> racy_get_idx v m key (unat (murmur3_hash key) mod m) n;
        Some (r \<noteq> None, n)
      })"

definition racy_isExist :: "view \<Rightarrow> nat \<Rightarrow> nat \<Rightarrow> bytes \<Rightarrow> bool \<Rightarrow> (ErrorCode \<times> bool) option" where
  "racy_isExist v m n key ex =
     (if key = [] then Some (kErrInvalidParams, ex)
      else do {
        (ex, n) \<leftarrow> racy_exist v m n key;
        Some (kOk, ex)
      })"

text \<open>
  The iteration from slot \<open>idx\<close> on: the object or the error, and the index after the call. The
  name is allocated and copied before the value is read. The two tests of a skipped slot take
  two accesses, the second of them also where the code stops at the first.
\<close>

definition name_len :: "bytes \<Rightarrow> nat" where
  "name_len d = (if pair_keylen d > KEYSIZE then KEYSIZE else pair_keylen d)"

function racy_getnext ::
    "(nat \<Rightarrow> bool) \<Rightarrow> view \<Rightarrow> nat \<Rightarrow> nat \<Rightarrow> nat \<Rightarrow> ((errno + bytes \<times> bytes) \<times> nat) option" where
  "racy_getnext alloc v m n idx =
     (if idx < m
      then do {
        s \<leftarrow> peek v n (int idx);
        s1 \<leftarrow> peek v (n + 1) (int idx);
        if s_count s = 0 \<or> s_count s1 = -2 then racy_getnext alloc v m (n + 2) (idx + 1)
        else do {
          s2 \<leftarrow> peek v (n + 2) (int idx);
          let keylen = name_len (s_data s2);
          if \<not> alloc keylen then Some (Inl ENOMEM, idx)
          else do {
            name \<leftarrow> peek_bytes v (n + 3) (int idx) 128 keylen;
            (r, n) \<leftarrow> racy_get_data alloc v m (n + 3 + keylen) idx;
            case r of None \<Rightarrow> Some (Inl ENOMEM, idx) | Some val \<Rightarrow> Some (Inr (name, val), idx + 1)
          }
        }
      }
      else Some (Inl ENOENT, idx))"
  by pat_completeness auto
termination
  by (relation "measure (\<lambda>(alloc, v, m, n, idx). m - idx)") auto

declare racy_getnext.simps [simp del]

definition racy_getNext ::
    "mrsw_env \<Rightarrow> view \<Rightarrow> nat \<Rightarrow> nat \<Rightarrow> bytes \<Rightarrow> bytes \<Rightarrow> nat \<Rightarrow> (ErrorCode \<times> bytes \<times> bytes \<times> nat) option" where
  "racy_getNext env v m n tblkey tblval idx = do {
     (r, idx) \<leftarrow> racy_getnext (e_alloc env) v m n idx;
     case r of
       Inl e \<Rightarrow>
         let idx = idx + 1
         in Some (if e = ENOENT \<and> idx \<ge> m + 1 then kErrTraverseTableEnd else kErrNotFound, tblkey, tblval, idx)
     | Inr (name, data) \<Rightarrow>
         (case verifyShmValue (e_little env) data of
            (ret, tblval) \<Rightarrow> Some (ret, if ret \<noteq> kOk then tblkey else name, tblval, idx))
   }"

subsection \<open>No access outside, whatever is written meanwhile\<close>

definition typed_view :: "nat \<Rightarrow> view \<Rightarrow> bool" where
  "typed_view m v \<longleftrightarrow> (\<forall>n. typed_slots m (v n))"

lemma typed_peek:
  assumes "typed_view m v" "0 \<le> i" "i < int m"
  shows "peek v n i = Some (v n ! nat i)" "typed_slot m (v n ! nat i)"
  using assms typed_slotsD(2,3) [of m "v n"] by (auto simp: typed_view_def peek_def nat_less_iff)

lemma typed_peek_bytes:
  assumes "typed_view m v" "0 \<le> i" "i < int m"
  shows "off + k \<le> DATASIZE \<Longrightarrow> \<exists>bs. peek_bytes v n i off k = Some bs \<and> length bs = k"
proof (induction k arbitrary: n off)
  case (Suc k)
  have "Suc off + k \<le> DATASIZE" using Suc.prems by simp
  from Suc.IH [OF this, of "Suc n"] obtain bs where "peek_bytes v (Suc n) i (Suc off) k = Some bs" "length bs = k"
    by blast
  moreover have "off < length (s_data (v n ! nat i))" using typed_peek(2) [OF assms, of n] Suc.prems by (simp add: typed_slot_def)
  ultimately show ?case using typed_peek(1) [OF assms] by simp
qed simp

lemma typed_match:
  assumes "typed_view m v" "idx < m"
  shows "\<exists>b n'. racy_match v n key idx = Some (b, n')"
proof -
  have i: "0 \<le> int idx" "int idx < int m" using assms(2) by simp_all
  note B = typed_peek_bytes [OF assms(1) i]
  show ?thesis
  proof (cases "length key \<le> KEYSIZE")
    case True
    then obtain k where "peek_bytes v (n + 1) (int idx) 128 (length key) = Some k" using B [of 128 "length key" "n + 1"] by auto
    then show ?thesis
      using True typed_peek(1) [OF assms(1) i]
      by (cases "length key = pair_keylen (s_data (v n ! idx))") (auto simp: racy_match_def)
  next
    case False
    obtain k where "peek_bytes v (n + 1) (int idx) 128 KEYSIZE = Some k" using B [of 128 KEYSIZE "n + 1"] by auto
    moreover obtain d where "peek_bytes v (n + 1 + KEYSIZE) (int idx) 226 16 = Some d"
      using B [of 226 16 "n + 1 + KEYSIZE"] by auto
    ultimately show ?thesis using False typed_peek(1) [OF assms(1) i] by (auto simp: racy_match_def)
  qed
qed

lemma typed_probe:
  assumes "typed_view m v" "idx < m"
  shows "\<exists>b c n'. racy_probe v n key hash idx count = Some (b, c, n')"
proof -
  have i: "0 \<le> int idx" "int idx < int m" using assms(2) by simp_all
  obtain b n' where "racy_match v (n + 3) key idx = Some (b, n')" using typed_match [OF assms] by blast
  then show ?thesis using typed_peek(1) [OF assms(1) i] by (auto simp: racy_probe_def)
qed

lemma typed_idx_loop:
  "typed_view m v \<Longrightarrow> hash < m \<Longrightarrow> idx < m \<Longrightarrow>
   \<exists>r n'. racy_idx_loop v m key hash n idx count = Some (r, n') \<and> (case r of None \<Rightarrow> True | Some i \<Rightarrow> i < m)"
proof (induction v m key hash n idx count rule: racy_idx_loop.induct)
  case (1 v m key hash n idx count)
  note P = "1.prems"
  obtain b c n' where probe: "racy_probe v (n + 1) key hash idx count = Some (b, c, n')"
    using typed_probe [OF P(1,3)] by blast
  have lead: "peek v n (int hash) = Some (v n ! hash)" using typed_peek(1) [OF P(1), of "int hash"] P(2) by simp
  show ?case
  proof (cases "count < s_count (v n ! hash) \<and> \<not> b \<and> \<not> (cyc_next m idx = hash \<or> m \<le> hash)")
    case True
    then have "cyc_next m idx < m" using P(3) by (auto simp: cyc_next_def)
    then show ?thesis
      using "1.IH" [OF lead _ probe refl refl] True P probe lead
      by (simp add: racy_idx_loop.simps [of v m key hash n])
  next
    case False
    then show ?thesis
      using P probe lead by (auto simp: racy_idx_loop.simps [of v m key hash n] not_less)
  qed
qed

lemma typed_get_idx:
  assumes "typed_view m v" "hash < m"
  shows "\<exists>r n'. racy_get_idx v m key hash n = Some (r, n') \<and> (case r of None \<Rightarrow> True | Some i \<Rightarrow> i < m)"
  using typed_idx_loop [OF assms assms(2), of key "n + 1" 0] typed_peek(1) [OF assms(1), of "int hash"] assms(2)
  by (simp add: racy_get_idx_def)

lemma typed_view_link:
  assumes "typed_view m v" "0 \<le> i" "i < int m"
  shows "s_link (v n ! nat i) = -1 \<or> 0 \<le> s_link (v n ! nat i) \<and> s_link (v n ! nat i) < int m"
  using typed_peek(2) [OF assms, of n] by (simp add: typed_slot_def)

lemma typed_size:
  "typed_view m v \<Longrightarrow> newidx = -1 \<or> 0 \<le> newidx \<and> newidx < int m \<Longrightarrow>
   \<exists>r n'. racy_size v m n newidx valsize lc = Some (r, n')"
proof (induction v m n newidx valsize lc rule: racy_size.induct)
  case (1 v m n newidx valsize lc)
  note P = "1.prems"
  show ?case
  proof (cases "newidx = -1")
    case False
    then have i: "0 \<le> newidx" "newidx < int m" using P(2) by simp_all
    note peek = typed_peek(1) [OF P(1) i]
    show ?thesis
    proof (cases "s_link (v (n + 1) ! nat newidx) = -1 \<or> m < lc + 1")
      case True
      then show ?thesis using False by (auto simp: racy_size.simps [of v m n newidx] peek)
    next
      case go: False
      then show ?thesis
        using "1.IH" [OF False peek peek _ _ peek P(1) typed_view_link [OF P(1) i]] False
        by (simp add: racy_size.simps [of v m n newidx] peek)
    qed
  qed (simp add: racy_size.simps [of v])
qed

lemma typed_copy:
  "typed_view m v \<Longrightarrow> newidx = -1 \<or> 0 \<le> newidx \<and> newidx < int m \<Longrightarrow> length val = valsize \<Longrightarrow>
   \<exists>r n'. racy_copy v m valsize n newidx val vp lc = Some (r, n') \<and>
     (case r of None \<Rightarrow> True | Some w \<Rightarrow> length w = valsize)"
proof (induction v m valsize n newidx val vp lc rule: racy_copy.induct)
  case (1 v m valsize n newidx val vp lc)
  note P = "1.prems"
  show ?case
  proof (cases "vp < valsize \<and> newidx \<noteq> -1")
    case True
    then have i: "0 \<le> newidx" "newidx < int m" using P(2) by simp_all
    note peek = typed_peek(1) [OF P(1) i]
    define k where "k = s_size (v n ! nat newidx)"
    have "k \<le> DATASIZE" using typed_peek(2) [OF P(1) i, of n] by (simp add: typed_slot_def k_def)
    then obtain bs where bs: "peek_bytes v (n + 2) newidx 0 k = Some bs" "length bs = k"
      using typed_peek_bytes [OF P(1) i, of 0 k "n + 2"] by auto
    show ?thesis
    proof (cases "vp + k \<le> valsize")
      case False
      then show ?thesis using True by (simp add: racy_copy.simps [of v] peek k_def)
    next
      case fits: True
      then have put: "put_bytes vp bs val = Some (blit vp bs val)" and len: "length (blit vp bs val) = valsize"
        using bs(2) P(3) by (simp_all add: put_bytes_def)
      show ?thesis
      proof (cases "s_link (v (n + 2 + k) ! nat newidx) = -1 \<or> m < lc + 1")
        case stop: True
        then show ?thesis
          using True fits bs put len unfolding racy_copy.simps [of v m valsize n newidx] by (auto simp: peek k_def [symmetric])
      next
        case go: False
        have "\<exists>r n'. racy_copy v m valsize (n + 4 + k) (s_link (v (n + 3 + k) ! nat newidx)) (blit vp bs val) (vp + k) (lc + 1) =
            Some (r, n') \<and> (case r of None \<Rightarrow> True | Some w \<Rightarrow> length w = valsize)"
          using "1.IH" [OF True peek k_def _ peek _ put peek _ _ peek P(1) typed_view_link [OF P(1) i] len] fits bs go by simp
        then show ?thesis
          using True fits bs put go unfolding racy_copy.simps [of v m valsize n newidx] by (simp add: peek k_def [symmetric])
      qed
    qed
  next
    case False
    then show ?thesis using P(3) by (auto simp: racy_copy.simps [of v])
  qed
qed

lemma typed_get_data:
  assumes "typed_view m v" "idx < m"
  shows "\<exists>r n'. racy_get_data alloc v m n idx = Some (r, n')"
proof -
  have i: "int idx = -1 \<or> 0 \<le> int idx \<and> int idx < int m" using assms(2) by simp
  obtain r n' where r: "racy_size v m n (int idx) 0 0 = Some (r, n')" using typed_size [OF assms(1) i] by blast
  show ?thesis
  proof (cases r)
    case (Some k)
    obtain w n'' where "racy_copy v m k n' (int idx) (replicate k 0) 0 0 = Some (w, n'')"
      using typed_copy [OF assms(1) i length_replicate, where n = n' and vp = 0 and lc = 0] by blast
    then show ?thesis using r Some by (simp add: racy_get_data_def)
  qed (simp add: racy_get_data_def r)
qed

lemma typed_get:
  assumes "typed_view m v"
  shows "\<exists>r n'. racy_get alloc v m n key = Some (r, n')"
proof -
  have m: "0 < m" using typed_slotsD(1) assms by (auto simp: typed_view_def)
  then have "unat (murmur3_hash key) mod m < m" by simp
  from typed_get_idx [OF assms this, of key n] obtain r n' where
    r: "racy_get_idx v m key (unat (murmur3_hash key) mod m) n = Some (r, n')"
    "case r of None \<Rightarrow> True | Some i \<Rightarrow> i < m" by blast
  show ?thesis using r m typed_get_data [OF assms] by (cases r) (auto simp: racy_get_def)
qed

lemma typed_exist:
  assumes "typed_view m v"
  shows "\<exists>b n'. racy_exist v m n key = Some (b, n')"
proof -
  have m: "0 < m" using typed_slotsD(1) assms by (auto simp: typed_view_def)
  then have "unat (murmur3_hash key) mod m < m" by simp
  from typed_get_idx [OF assms this, of key n] obtain r n' where
    "racy_get_idx v m key (unat (murmur3_hash key) mod m) n = Some (r, n')" by blast
  then show ?thesis using m by (simp add: racy_exist_def)
qed

lemma typed_getnext: "typed_view m v \<Longrightarrow> \<exists>r idx'. racy_getnext alloc v m n idx = Some (r, idx')"
proof (induction alloc v m n idx rule: racy_getnext.induct)
  case (1 alloc v m n idx)
  note P = "1.prems" and unf = racy_getnext.simps [of alloc v m n idx]
  show ?case
  proof (cases "idx < m")
    case True
    then have i: "0 \<le> int idx" "int idx < int m" by simp_all
    note peek = typed_peek(1) [OF P i]
    show ?thesis
    proof (cases "s_count (v n ! idx) = 0 \<or> s_count (v (n + 1) ! idx) = -2")
      case skip: True
      then show ?thesis using "1.IH" [OF True peek peek _ P] True by (simp add: unf peek)
    next
      case False
      define k where "k = name_len (s_data (v (Suc (Suc n)) ! idx))"
      have "128 + k \<le> DATASIZE" by (simp add: k_def name_len_def)
      then obtain name where name: "peek_bytes v (n + 3) (int idx) 128 k = Some name" using typed_peek_bytes [OF P i] by blast
      obtain r n' where "racy_get_data alloc v m (n + 3 + k) idx = Some (r, n')" using typed_get_data [OF P True] by blast
      then show ?thesis
        using True False name unfolding unf by (cases r) (simp_all add: peek Let_def k_def [symmetric])
    qed
  qed (simp add: unf)
qed

text \<open>The index never goes back, and moves past the slot of an object.\<close>

lemma racy_getnext_moves:
  "racy_getnext alloc v m n idx = Some (r, idx') \<Longrightarrow> idx \<le> idx' \<and> (\<forall>obj. r = Inr obj \<longrightarrow> idx < idx' \<and> idx' \<le> m)"
proof (induction alloc v m n idx rule: racy_getnext.induct)
  case (1 alloc v m n idx)
  note unf = "1.prems" [unfolded racy_getnext.simps [of alloc v m n idx]]
  show ?case
  proof (cases "idx < m")
    case True
    obtain s s1 where p: "peek v n (int idx) = Some s" "peek v (n + 1) (int idx) = Some s1"
      using unf True by (auto simp: bind_eq_Some_conv)
    show ?thesis
    proof (cases "s_count s = 0 \<or> s_count s1 = -2")
      case skip: True
      then show ?thesis using "1.IH" [OF True p skip] unf True p by auto
    next
      case False
      define rest where "rest s2 = (let keylen = name_len (s_data s2) in
          if \<not> alloc keylen then Some (Inl ENOMEM, idx)
          else do {
            name \<leftarrow> peek_bytes v (n + 3) (int idx) 128 keylen;
            (r, n) \<leftarrow> racy_get_data alloc v m (n + 3 + keylen) idx;
            case r of None \<Rightarrow> Some (Inl ENOMEM, idx) | Some val \<Rightarrow> Some (Inr (name, val), idx + 1)
          })" for s2 :: qslot
      have "Option.bind (peek v (n + 2) (int idx)) rest = Some (r, idx')"
        using unf True p False unfolding rest_def by simp
      then obtain s2 where s2: "rest s2 = Some (r, idx')" by (auto simp: bind_eq_Some_conv)
      show ?thesis
      proof (cases "r = Inl ENOMEM")
        case False
        then have "idx' = idx + 1" using s2 by (auto simp: rest_def Let_def bind_eq_Some_conv split: if_splits option.splits)
        then show ?thesis using True by simp
      next
        case enomem: True
        then have "idx' = idx" using s2 by (auto simp: rest_def Let_def bind_eq_Some_conv split: if_splits option.splits)
        then show ?thesis using enomem by simp
      qed
    qed
  qed (use unf in auto)
qed

end
