(* ===== verification/Racy_Quiet.thy ===== *)
theory Racy_Quiet
  imports Racy_Reader
begin

text \<open>
  What the reader of theory Racy_Reader sees of a table at rest: the result of the sequential
  lookup of theory Hasharr_Api. Every part of the lookup depends only on the slots at the
  times of its accesses, so that the two halves of a lookup can be told apart: the search
  for the key, and the copy of the value at the index it found.
\<close>

subsection \<open>A part of a lookup depends on its own accesses\<close>

definition agree_on :: "view \<Rightarrow> view \<Rightarrow> nat \<Rightarrow> nat \<Rightarrow> bool" where
  "agree_on v w a b \<longleftrightarrow> (\<forall>k. a \<le> k \<and> k < b \<longrightarrow> v k = w k)"

lemma agreeD: "agree_on v w a b \<Longrightarrow> a \<le> k \<Longrightarrow> k < b \<Longrightarrow> peek w k i = peek v k i"
  by (simp add: agree_on_def peek_def)

lemma agree_mono: "agree_on v w a b \<Longrightarrow> a \<le> a' \<Longrightarrow> b' \<le> b \<Longrightarrow> agree_on v w a' b'"
  by (auto simp: agree_on_def)

lemma local_bytes: "agree_on v w n (n + k) \<Longrightarrow> peek_bytes w n i off k = peek_bytes v n i off k"
proof (induction k arbitrary: n off)
  case (Suc k)
  have "peek_bytes w (Suc n) i (Suc off) k = peek_bytes v (Suc n) i (Suc off) k"
    using agree_mono [OF Suc.prems, of "Suc n"] by (intro Suc.IH) simp
  then show ?case using agreeD [OF Suc.prems, of n i] by simp
qed simp

lemma match_later: "racy_match v n key idx = Some (b, n') \<Longrightarrow> n < n'"
  by (auto simp: racy_match_def bind_eq_Some_conv split: if_splits)

lemma local_match:
  assumes "racy_match v n key idx = Some (b, n')" "agree_on v w n n'"
  shows "racy_match w n key idx = Some (b, n')"
proof -
  have peek: "peek w n (int idx) = peek v n (int idx)" using agreeD [OF assms(2)] match_later [OF assms(1)] by simp
  have bytes: "peek_bytes w a (int idx) off k = peek_bytes v a (int idx) off k" if "n \<le> a" "a + k \<le> n'" for a off k
    by (rule local_bytes) (rule agree_mono [OF assms(2) that])
  obtain s where s: "peek v n (int idx) = Some s" using assms(1) by (cases "peek v n (int idx)") (simp_all add: racy_match_def)
  note def = assms(1) [unfolded racy_match_def s, simplified]
  consider (len) "length key \<noteq> pair_keylen (s_data s)"
    | (short) "length key = pair_keylen (s_data s)" "length key \<le> KEYSIZE"
    | (long) "length key = pair_keylen (s_data s)" "KEYSIZE < length key"
    by linarith
  then show ?thesis
  proof cases
    case len
    then show ?thesis using def peek s by (simp add: racy_match_def)
  next
    case short
    then have "n' = n + 1 + length key" using def by (auto simp: bind_eq_Some_conv)
    then show ?thesis using short def peek s bytes [of "n + 1" "length key" 128] by (simp add: racy_match_def)
  next
    case long
    then have n': "n + 1 + KEYSIZE \<le> n'" using def by (auto simp: bind_eq_Some_conv split: if_splits)
    obtain k where k: "peek_bytes v (n + 1) (int idx) 128 KEYSIZE = Some k" using long def by (auto simp: bind_eq_Some_conv)
    show ?thesis
    proof (cases "take KEYSIZE key = k")
      case True
      then have "n' = n + 17 + KEYSIZE" using long def k by (auto simp: bind_eq_Some_conv)
      then show ?thesis
        using long def peek s k True bytes [of "n + 1" KEYSIZE 128] bytes [of "n + 1 + KEYSIZE" 16 226]
        by (simp add: racy_match_def)
    next
      case False
      then show ?thesis
        using long def peek s k n' bytes [of "n + 1" KEYSIZE 128] by (simp add: racy_match_def)
    qed
  qed
qed

lemma probe_later: "racy_probe v n key hash idx count = Some (b, c, n') \<Longrightarrow> n < n'"
  by (auto simp: racy_probe_def bind_eq_Some_conv split: if_splits dest!: match_later)

lemma local_probe:
  assumes "racy_probe v n key hash idx count = Some (b, c, n')" "agree_on v w n n'"
  shows "racy_probe w n key hash idx count = Some (b, c, n')"
proof -
  obtain s s1 s2 where s: "peek v n (int idx) = Some s" "peek v (n + 1) (int idx) = Some s1" "peek v (n + 2) (int idx) = Some s2"
    using assms(1) by (auto simp: racy_probe_def bind_eq_Some_conv)
  note def = assms(1) [unfolded racy_probe_def s, simplified]
  have "n + 3 \<le> n'" using def by (auto simp: bind_eq_Some_conv split: if_splits dest!: match_later)
  then have w: "peek w n (int idx) = Some s" "peek w (n + 1) (int idx) = Some s1" "peek w (n + 2) (int idx) = Some s2"
    using s agreeD [OF assms(2)] by simp_all
  show ?thesis
  proof (cases "s_hash s = hash \<and> (s_count s1 > 0 \<or> s_count s2 = -1)")
    case True
    then have m: "racy_match v (n + 3) key idx = Some (b, n')" "c = count + 1" using def by (auto simp: bind_eq_Some_conv)
    have "racy_match w (n + 3) key idx = Some (b, n')"
      by (rule local_match [OF m(1) agree_mono [OF assms(2)]]) simp_all
    then show ?thesis using True m w by (simp add: racy_probe_def)
  next
    case False
    then show ?thesis using def w by (simp add: racy_probe_def del: de_Morgan_conj de_Morgan_disj not_less)
  qed
qed

lemma local_idx_loop:
  "racy_idx_loop v m key hash n idx count = Some (r, n') \<Longrightarrow>
   n < n' \<and> (agree_on v w n n' \<longrightarrow> racy_idx_loop w m key hash n idx count = Some (r, n'))"
proof (induction v m key hash n idx count arbitrary: r n' rule: racy_idx_loop.induct)
  case (1 v m key hash n idx count)
  note run = "1.prems"
  obtain lead where lead: "peek v n (int hash) = Some lead"
    using run by (cases "peek v n (int hash)") (simp_all add: racy_idx_loop.simps [of v m key hash n])
  note unf = racy_idx_loop.simps [of _ m key hash n idx count]
  show ?case
  proof (cases "count < s_count lead")
    case False
    then show ?thesis using run lead agreeD [of v w n n' n "int hash"] by (auto simp: unf)
  next
    case more: True
    obtain b c k where probe: "racy_probe v (n + 1) key hash idx count = Some (b, c, k)"
      using run lead more by (cases "racy_probe v (n + 1) key hash idx count") (auto simp: unf)
    note k = probe_later [OF probe]
    show ?thesis
    proof (cases "\<not> b \<and> \<not> (cyc_next m idx = hash \<or> m \<le> hash)")
      case False
      then have "n' = k" using run lead more probe by (auto simp: unf split: if_splits)
      moreover have "racy_probe w (n + 1) key hash idx count = Some (b, c, k)" if "agree_on v w n n'"
        using \<open>n' = k\<close> agree_mono [OF that, of "n + 1"] by (intro local_probe [OF probe]) simp
      ultimately show ?thesis
        using False run lead more k probe agreeD [of v w n n' n "int hash"] by (auto simp: unf split: if_splits)
    next
      case True
      then have rest: "racy_idx_loop v m key hash k (cyc_next m idx) c = Some (r, n')"
        using run lead more probe by (simp add: unf)
      note IH = "1.IH" [OF lead _ probe refl refl _ _ rest]
      have "k < n'" using IH True more by simp
      moreover have "racy_idx_loop w m key hash n idx count = Some (r, n')" if "agree_on v w n n'"
      proof -
        have "racy_probe w (n + 1) key hash idx count = Some (b, c, k)"
          using \<open>k < n'\<close> by (intro local_probe [OF probe] agree_mono [OF that]) simp_all
        moreover have "racy_idx_loop w m key hash k (cyc_next m idx) c = Some (r, n')"
          using IH True more agree_mono [OF that, of k n'] k by simp
        moreover have "peek w n (int hash) = Some lead" using lead agreeD [OF that] k \<open>k < n'\<close> by simp
        ultimately show ?thesis using True more by (simp add: unf)
      qed
      ultimately show ?thesis using k by auto
    qed
  qed
qed

lemma local_get_idx:
  assumes "racy_get_idx v m key hash n = Some (r, n')" "agree_on v w n n'"
  shows "n < n'" "racy_get_idx w m key hash n = Some (r, n')"
proof -
  obtain lead where lead: "peek v n (int hash) = Some lead"
    using assms(1) by (cases "peek v n (int hash)") (simp_all add: racy_get_idx_def)
  have loop: "0 < s_count lead \<Longrightarrow> racy_idx_loop v m key hash (n + 1) hash 0 = Some (r, n')"
    and none: "\<not> 0 < s_count lead \<Longrightarrow> r = None \<and> n' = n + 1"
    using assms(1) lead by (auto simp: racy_get_idx_def)
  show later: "n < n'" using none local_idx_loop [OF loop, of v] by (cases "0 < s_count lead") simp_all
  have "peek w n (int hash) = Some lead" using lead agreeD [OF assms(2)] later by simp
  then show "racy_get_idx w m key hash n = Some (r, n')"
    using none local_idx_loop [OF loop, of w] agree_mono [OF assms(2), of "n + 1" n']
    by (cases "0 < s_count lead") (auto simp: racy_get_idx_def)
qed

subsection \<open>A table at rest\<close>

definition quiet :: "qenv \<Rightarrow> nat \<Rightarrow> view \<Rightarrow> bool" where
  "quiet t n v \<longleftrightarrow> (\<forall>k\<ge>n. v k = slots t)"

lemma quiet_later: "quiet t n v \<Longrightarrow> n \<le> n' \<Longrightarrow> quiet t n' v"
  by (simp add: quiet_def)

lemma quiet_peek:
  "quiet t n v \<Longrightarrow> n \<le> k \<Longrightarrow> i < length (slots t) \<Longrightarrow> peek v k (int i) = Some (slot_at t i)"
  by (simp add: quiet_def peek_def slot_at_def)

lemma quiet_bytes:
  "quiet t n v \<Longrightarrow> i < length (slots t) \<Longrightarrow> off + k \<le> length (s_data (slot_at t i)) \<Longrightarrow>
   peek_bytes v n (int i) off k = Some (mem_read off k (s_data (slot_at t i)))"
proof (induction k arbitrary: n off)
  case (Suc k)
  have off: "off < length (s_data (slot_at t i))" "Suc off + k \<le> length (s_data (slot_at t i))"
    using Suc.prems(3) by simp_all
  have "peek_bytes v (Suc n) (int i) (Suc off) k = Some (mem_read (Suc off) k (s_data (slot_at t i)))"
    using quiet_later [OF Suc.prems(1), of "Suc n"] Suc.prems(2) off(2) by (intro Suc.IH) simp_all
  moreover have "mem_read off (Suc k) (s_data (slot_at t i)) =
      s_data (slot_at t i) ! off # mem_read (Suc off) k (s_data (slot_at t i))"
    using off(1) Cons_nth_drop_Suc [OF off(1)] by (simp add: mem_read_def flip: Cons_nth_drop_Suc)
  ultimately show ?case using quiet_peek [OF Suc.prems(1), of n i] Suc.prems(2) off(1) by simp
qed (simp add: mem_read_def)

lemma quiet_match:
  assumes "typed_table t" "quiet t n v" "idx < length (slots t)"
  shows "\<exists>n'\<ge>n. racy_match v n key idx = Some (key_matches key (slot_at t idx), n')"
proof -
  let ?s = "slot_at t idx"
  have len: "length (s_data ?s) = DATASIZE" using typed_tableD(5) [OF assms(1,3)] by (simp add: typed_slot_def)
  have bytes: "peek_bytes v k (int idx) off j = Some (mem_read off j (s_data ?s))" if "n \<le> k" "off + j \<le> DATASIZE" for k off j
    using quiet_bytes [OF quiet_later [OF assms(2) that(1)] assms(3)] that(2) len by simp
  note peek = quiet_peek [OF assms(2) order_refl assms(3)]
  show ?thesis
  proof (cases "length key \<le> KEYSIZE")
    case True
    then have "mem_read 128 (length key) (s_data ?s) = take (length key) (pair_key (s_data ?s))"
      by (simp add: pair_key_def mem_read_def min_def)
    then show ?thesis
      using True peek bytes [of "n + 1" 128 "length key"]
      by (cases "pair_keylen (s_data ?s) = length key") (auto simp: racy_match_def key_matches_def)
  next
    case False
    then show ?thesis
      using peek bytes [of "n + 1" 128 KEYSIZE] bytes [of "n + 1 + KEYSIZE" 226 16]
      by (simp add: racy_match_def key_matches_def pair_key_def pair_keymd5_def)
  qed
qed

lemma quiet_probe:
  fixes hash :: nat
  assumes "typed_table t" "quiet t n v" "idx < length (slots t)"
  defines "hit \<equiv> s_hash (slot_at t idx) = hash \<and> is_key_slot (slot_at t idx)"
  shows "\<exists>n'\<ge>n. racy_probe v n key hash idx count =
    Some (hit \<and> key_matches key (slot_at t idx), if hit then count + 1 else count, n')"
proof -
  obtain n' where n': "n + 3 \<le> n'" "racy_match v (n + 3) key idx = Some (key_matches key (slot_at t idx), n')"
    using quiet_match [OF assms(1) quiet_later [OF assms(2), of "n + 3"] assms(3), of key] by auto
  have peek: "peek v k (int idx) = Some (slot_at t idx)" if "n \<le> k" for k
    by (rule quiet_peek [OF assms(2) that assms(3)])
  show ?thesis
  proof (cases hit)
    case True
    then show ?thesis using n' by (intro exI [of _ n']) (auto simp: racy_probe_def peek is_key_slot_def hit_def)
  next
    case False
    then show ?thesis by (intro exI [of _ "n + 3"]) (auto simp: racy_probe_def peek is_key_slot_def hit_def)
  qed
qed

definition idx_step :: "qenv \<Rightarrow> bytes \<Rightarrow> nat \<Rightarrow> nat \<Rightarrow> int \<Rightarrow> nat option + int" where
  "idx_step t key hash idx count =
     (if \<not> count < s_count (slot_at t hash) then Inl None
      else if s_hash (slot_at t idx) = hash \<and> is_key_slot (slot_at t idx)
      then (if key_matches key (slot_at t idx) then Inl (Some idx) else Inr (count + 1))
      else Inr count)"

lemma quiet_idx_loop:
  "typed_table t \<Longrightarrow> quiet t n v \<Longrightarrow> m = length (slots t) \<Longrightarrow> hash < m \<Longrightarrow> idx < m \<Longrightarrow>
   \<exists>n'\<ge>n. racy_idx_loop v m key hash n idx count =
     Some ((case cyc_loop m hash (idx_step t key hash) idx count of Inl r \<Rightarrow> r | Inr _ \<Rightarrow> None), n')"
proof (induction v m key hash n idx count rule: racy_idx_loop.induct)
  case (1 v m key hash n idx count)
  note P = "1.prems"
  have lead: "peek v n (int hash) = Some (slot_at t hash)" using quiet_peek [OF P(2)] P(3,4) by simp
  note unf = racy_idx_loop.simps [of v m key hash n idx count] cyc_loop.simps [of m hash "idx_step t key hash" idx count]
  show ?case
  proof (cases "count < s_count (slot_at t hash)")
    case False
    then show ?thesis using lead by (simp add: unf idx_step_def [of t key hash idx count])
  next
    case more: True
    let ?hit = "s_hash (slot_at t idx) = hash \<and> is_key_slot (slot_at t idx)"
    let ?b = "?hit \<and> key_matches key (slot_at t idx)" and ?c = "if ?hit then count + 1 else count"
    have idx: "idx < length (slots t)" and later: "quiet t (n + 1) v" using P(3,5) quiet_later [OF P(2)] by simp_all
    obtain k where k: "n + 1 \<le> k" "racy_probe v (n + 1) key hash idx count = Some (?b, ?c, k)"
      using quiet_probe [OF P(1) later idx, where key = key and hash = hash and count = count] by auto
    show ?thesis
    proof (cases "?b \<or> cyc_next m idx = hash \<or> m \<le> hash")
      case True
      then show ?thesis using lead more k by (intro exI [of _ k]) (auto simp: unf idx_step_def [of t key hash idx count])
    next
      case False
      have "cyc_next m idx < m" using P(5) by (auto simp: cyc_next_def)
      moreover have "quiet t k v" using quiet_later [OF P(2)] k(1) by simp
      ultimately obtain n' where n': "k \<le> n'" "racy_idx_loop v m key hash k (cyc_next m idx) ?c =
          Some ((case cyc_loop m hash (idx_step t key hash) (cyc_next m idx) ?c of Inl r \<Rightarrow> r | Inr _ \<Rightarrow> None), n')"
        using "1.IH" [OF lead _ k(2) refl refl] more False P by auto
      have "idx_step t key hash idx count = Inr ?c" using more False by (simp add: idx_step_def [of t key hash idx count])
      moreover have "racy_idx_loop v m key hash n idx count = racy_idx_loop v m key hash k (cyc_next m idx) ?c"
        using lead more False k(2) by (auto simp: unf(1))
      ultimately show ?thesis using False n' k(1) by (intro exI [of _ n']) (simp add: unf(2))
    qed
  qed
qed

lemma quiet_get_idx:
  assumes "typed_table t" "quiet t n v" "hash < length (slots t)"
  shows "\<exists>n'\<ge>n. racy_get_idx v (length (slots t)) key hash n = Some (get_idx t key hash, n')"
proof -
  have lead: "peek v n (int hash) = Some (slot_at t hash)" using quiet_peek [OF assms(2) order_refl assms(3)] .
  obtain n' where "n + 1 \<le> n'" "racy_idx_loop v (length (slots t)) key hash (n + 1) hash 0 =
      Some ((case cyc_loop (length (slots t)) hash (idx_step t key hash) hash 0 of Inl r \<Rightarrow> r | Inr _ \<Rightarrow> None), n')"
    using quiet_idx_loop [OF assms(1) quiet_later [OF assms(2), of "n + 1"] refl assms(3,3), of key 0] by auto
  moreover have "idx_step t key hash = (\<lambda>idx count.
      if \<not> count < s_count (slot_at t hash) then Inl None
      else if s_hash (slot_at t idx) = hash \<and> is_key_slot (slot_at t idx)
      then (if key_matches key (slot_at t idx) then Inl (Some idx) else Inr (count + 1))
      else Inr count)"
    by (simp add: idx_step_def fun_eq_iff)
  ultimately show ?thesis
    using lead typed_tableD(3) [OF assms(1)]
    by (cases "0 < s_count (slot_at t hash)") (auto simp: racy_get_idx_def get_idx_def)
qed

lemma typed_link_step:
  assumes "typed_table t" "i < length (slots t)" "s_link (slot_at t i) \<noteq> -1"
  shows "int (nat (s_link (slot_at t i))) = s_link (slot_at t i)" "nat (s_link (slot_at t i)) < length (slots t)"
  using typed_tableD(5) [OF assms(1,2)] assms(3) by (auto simp: typed_slot_def)

lemma quiet_size:
  "typed_table t \<Longrightarrow> quiet t n v \<Longrightarrow> m = length (slots t) \<Longrightarrow> newidx = int i \<Longrightarrow> i < m \<Longrightarrow>
   \<exists>n'\<ge>n. racy_size v m n newidx valsize lc = Some (get_data_size t i valsize lc, n')"
proof (induction v m n newidx valsize lc arbitrary: i rule: racy_size.induct)
  case (1 v m n newidx valsize lc)
  note P = "1.prems"
  let ?s = "slot_at t i"
  have i: "i < length (slots t)" and ne: "newidx \<noteq> -1" using P(3-5) by simp_all
  have peek: "peek v k newidx = Some ?s" if "n \<le> k" for k using quiet_peek [OF P(2) that i] P(4) by simp
  have max: "int (lc + 1) > maxslots t \<longleftrightarrow> lc + 1 > m" using typed_tableD(2) [OF P(1)] P(3) by linarith
  note unf = racy_size.simps [of v m n newidx valsize lc] get_data_size.simps [of t i valsize lc] Let_def
  show ?case
  proof (cases "s_link ?s = -1 \<or> lc + 1 > m")
    case True
    then show ?thesis using peek ne max by (intro exI [of _ "n + 2"]) (auto simp: unf)
  next
    case False
    note link = typed_link_step [OF P(1) i]
    have "quiet t (n + 3) v" using quiet_later [OF P(2)] by simp
    then obtain n' where "n + 3 \<le> n'" "racy_size v m (n + 3) (s_link ?s) (valsize + s_size ?s) (lc + 1) =
        Some (get_data_size t (nat (s_link ?s)) (valsize + s_size ?s) (lc + 1), n')"
      using "1.IH" [OF ne peek peek _ _ peek P(1) _ P(3), of "nat (s_link ?s)"] False link P(3) by auto
    then show ?thesis using peek ne max False by (intro exI [of _ n']) (simp add: unf)
  qed
qed

lemma quiet_copy:
  "typed_table t \<Longrightarrow> quiet t n v \<Longrightarrow> m = length (slots t) \<Longrightarrow> newidx = int i \<Longrightarrow> i < m \<Longrightarrow> length val = valsize \<Longrightarrow>
   \<exists>n'. racy_copy v m valsize n newidx val vp lc = Some (get_data_copy t valsize i val vp lc, n')"
proof (induction v m valsize n newidx val vp lc arbitrary: i rule: racy_copy.induct)
  case (1 v m valsize n newidx val vp lc)
  note P = "1.prems"
  let ?s = "slot_at t i"
  define k where "k = s_size ?s"
  have i: "i < length (slots t)" and ne: "newidx \<noteq> -1" using P(3-5) by simp_all
  have peek: "peek v j newidx = Some ?s" if "n \<le> j" for j using quiet_peek [OF P(2) that i] P(4) by simp
  have max: "int (lc + 1) > maxslots t \<longleftrightarrow> lc + 1 > m" using typed_tableD(2) [OF P(1)] P(3) by linarith
  note unf = racy_copy.simps [of v m valsize n newidx val vp lc] get_data_copy.simps [of t valsize i val vp lc] Let_def
  have fits: "0 + k \<le> length (s_data ?s)" using typed_tableD(5) [OF P(1) i] by (simp add: typed_slot_def k_def)
  let ?bs = "mem_read 0 k (s_data ?s)"
  have later: "quiet t (n + j) v" for j using quiet_later [OF P(2)] by simp
  have bs: "peek_bytes v (n + 2) newidx 0 k = Some ?bs" unfolding P(4) by (rule quiet_bytes [OF later i fits])
  consider (full) "\<not> vp < valsize" | (over) "vp < valsize" "valsize < vp + k"
    | (stop) "vp < valsize" "vp + k \<le> valsize" "s_link ?s = -1 \<or> lc + 1 > m"
    | (go) "vp < valsize" "vp + k \<le> valsize" "s_link ?s \<noteq> -1" "\<not> lc + 1 > m"
    by linarith
  then show ?case
  proof cases
    case full
    then show ?thesis by (simp add: unf)
  next
    case over
    then show ?thesis using peek ne by (simp add: unf k_def)
  next
    case stop
    then have "put_bytes vp ?bs val = Some (blit vp ?bs val)" using fits P(6) by (simp add: put_bytes_def)
    then show ?thesis using stop peek ne bs max by (auto simp: unf k_def [symmetric])
  next
    case go
    then have put: "put_bytes vp ?bs val = Some (blit vp ?bs val)" and len: "length (blit vp ?bs val) = valsize"
      using fits P(6) by (simp_all add: put_bytes_def)
    note link = typed_link_step [OF P(1) i go(3)]
    have "\<exists>n'. racy_copy v m valsize (n + 4 + k) (s_link ?s) (blit vp ?bs val) (vp + k) (lc + 1) =
        Some (get_data_copy t valsize (nat (s_link ?s)) (blit vp ?bs val) (vp + k) (lc + 1), n')"
      using "1.IH" [OF _ peek k_def _ peek _ put peek _ _ peek P(1) _ P(3) link(1) [symmetric] _ len] go ne bs later link(2) P(3)
      by (simp add: add.assoc)
    then show ?thesis using go peek ne bs put max by (simp add: unf k_def [symmetric])
  qed
qed

lemma quiet_get_data:
  assumes "typed_table t" "quiet t n v" "i < length (slots t)"
  shows "\<exists>n'. racy_get_data alloc v (length (slots t)) n i = Some (fst (get_data alloc t (Some i)), n')"
proof -
  obtain n' where n': "n \<le> n'" "racy_size v (length (slots t)) n (int i) 0 0 = Some (get_data_size t i 0 0, n')"
    using quiet_size [OF assms(1,2) refl refl assms(3), of 0 0] by blast
  show ?thesis
  proof (cases "get_data_size t i 0 0")
    case (Some k)
    obtain n'' where "racy_copy v (length (slots t)) k n' (int i) (replicate k 0) 0 0 =
        Some (get_data_copy t k i (replicate k 0) 0 0, n'')"
      using quiet_copy [OF assms(1) quiet_later [OF assms(2) n'(1)] refl refl assms(3) length_replicate] by blast
    then show ?thesis using n'(2) Some by (simp add: racy_get_data_def get_data_def)
  qed (use n'(2) in \<open>simp add: racy_get_data_def get_data_def\<close>)
qed

subsection \<open>The lookup\<close>

lemma bucket_mod:
  "typed_table t \<Longrightarrow> unat (murmur3_hash key) mod length (slots t) = bucket t key"
  using typed_tableD [of t] by (simp add: bucket_def)

lemma quiet_get:
  assumes "typed_table t" "quiet t n v"
  shows "\<exists>n'. racy_get alloc v (length (slots t)) n key = Some (fst (qhasharr_get alloc Ptr (Some key) t), n')"
proof -
  have ne: "length (slots t) \<noteq> 0" "maxslots t \<noteq> 0" using typed_tableD [OF assms(1)] by auto
  have h: "bucket t key < length (slots t)" by (rule typed_bucket [OF assms(1)])
  obtain n' where n': "n \<le> n'" "racy_get_idx v (length (slots t)) key (bucket t key) n = Some (get_idx t key (bucket t key), n')"
    using quiet_get_idx [OF assms h] by blast
  show ?thesis
  proof (cases "get_idx t key (bucket t key)")
    case (Some i)
    from quiet_get_data [OF assms(1) quiet_later [OF assms(2) n'(1)] get_idx_range [OF assms(1) h Some], of alloc]
    show ?thesis using ne n'(2) Some by (simp add: racy_get_def bucket_mod [OF assms(1)] qhasharr_get_def)
  qed (use ne n'(2) in \<open>simp add: racy_get_def bucket_mod [OF assms(1)] qhasharr_get_def\<close>)
qed

lemma quiet_exist:
  assumes "typed_table t" "quiet t n v"
  shows "\<exists>n'. racy_exist v (length (slots t)) n key = Some (fst (qhasharr_exist Ptr (Some key) t), n')"
proof -
  have ne: "length (slots t) \<noteq> 0" "maxslots t \<noteq> 0" using typed_tableD [OF assms(1)] by auto
  obtain n' where "racy_get_idx v (length (slots t)) key (bucket t key) n = Some (get_idx t key (bucket t key), n')"
    using quiet_get_idx [OF assms typed_bucket [OF assms(1)]] by blast
  then show ?thesis using ne by (simp add: racy_exist_def bucket_mod [OF assms(1)] qhasharr_exist_def)
qed

text \<open>The result of the iteration: an object, or the error of a table that only changed \<^verbatim>\<open>errno\<close>.\<close>

definition next_result :: "(bytes \<times> bytes) option \<times> nat \<times> qenv \<Rightarrow> (errno + bytes \<times> bytes) \<times> nat" where
  "next_result x = (case x of (None, idx, t) \<Rightarrow> (Inl (errno t), idx) | (Some obj, idx, t) \<Rightarrow> (Inr obj, idx))"

lemma getnext_keeps: "maxslots (snd (snd (getnext_loop alloc t i))) = maxslots t"
proof (induction alloc t i rule: getnext_loop.induct)
  case (1 alloc t i)
  have "maxslots (snd (get_data alloc t (Some i))) = maxslots t" by (simp add: get_data_def split: option.split)
  then show ?case
    using 1 by (subst getnext_loop.simps) (auto simp: Let_def split: prod.split option.split)
qed

lemma quiet_getnext:
  "typed_table t \<Longrightarrow> quiet t n v \<Longrightarrow> m = length (slots t) \<Longrightarrow>
   racy_getnext alloc v m n idx = Some (next_result (getnext_loop alloc t idx))"
proof (induction alloc v m n idx rule: racy_getnext.induct)
  case (1 alloc v m n idx)
  note P = "1.prems"
  let ?s = "slot_at t idx"
  have max: "int idx < maxslots t \<longleftrightarrow> idx < m" using typed_tableD(2) [OF P(1)] P(3) by linarith
  note unf = racy_getnext.simps [of alloc v m n idx] getnext_loop.simps [of alloc t idx]
  show ?case
  proof (cases "idx < m")
    case True
    then have i: "idx < length (slots t)" using P(3) by simp
    have peek: "peek v k (int idx) = Some ?s" if "n \<le> k" for k by (rule quiet_peek [OF P(2) that i])
    show ?thesis
    proof (cases "s_count ?s = 0 \<or> s_count ?s = -2")
      case skip: True
      have "quiet t (n + 2) v" using quiet_later [OF P(2)] by simp
      then show ?thesis using "1.IH" [OF True peek peek _ P(1) _ P(3)] skip True by (simp add: unf peek max)
    next
      case False
      let ?k = "name_len (s_data ?s)"
      have len: "length (s_data ?s) = DATASIZE" using typed_tableD(5) [OF P(1) i] by (simp add: typed_slot_def)
      have "128 + ?k \<le> DATASIZE" by (simp add: name_len_def)
      then have name: "peek_bytes v (n + 3) (int idx) 128 ?k = Some (mem_read 128 ?k (s_data ?s))"
        using len by (intro quiet_bytes [OF quiet_later [OF P(2)] i]) simp_all
      have "mem_read 128 ?k (s_data ?s) = take ?k (pair_key (s_data ?s))"
        by (simp add: pair_key_def mem_read_def name_len_def min_def)
      moreover obtain n' where "racy_get_data alloc v m (n + 3 + ?k) idx = Some (fst (get_data alloc t (Some idx)), n')"
        using quiet_get_data [OF P(1) quiet_later [OF P(2), of "n + 3 + ?k"] i, of alloc] P(3) by auto
      ultimately show ?thesis
        using True False name unfolding unf name_len_def [symmetric]
        by (cases "get_data alloc t (Some idx)") (auto simp: peek max Let_def next_result_def split: option.splits)
    qed
  qed (simp add: unf max next_result_def)
qed

text \<open>The table changes between the search and the copy: the value at the index found is read.\<close>

lemma overtaken_get:
  assumes "typed_table t1" "typed_table t2" "length (slots t1) = length (slots t2)" "get_idx t1 key (bucket t1 key) = Some i"
  shows "\<exists>n n'. racy_get alloc (\<lambda>k. if k < n then slots t1 else slots t2) (length (slots t1)) 0 key =
    Some (fst (get_data alloc t2 (Some i)), n')"
proof -
  let ?m = "length (slots t1)" and ?h = "bucket t1 key"
  have ne: "?m \<noteq> 0" using typed_tableD(4) [OF assms(1)] by simp
  have h: "?h < ?m" by (rule typed_bucket [OF assms(1)])
  have "quiet t1 0 (\<lambda>_. slots t1)" by (simp add: quiet_def)
  from quiet_get_idx [OF assms(1) this h, of key] obtain n where n: "racy_get_idx (\<lambda>_. slots t1) ?m key ?h 0 = Some (Some i, n)"
    using assms(4) by auto
  let ?v = "\<lambda>k. if k < n then slots t1 else slots t2"
  have "racy_get_idx ?v ?m key ?h 0 = Some (Some i, n)" by (rule local_get_idx(2) [OF n]) (simp add: agree_on_def)
  moreover have "quiet t2 n ?v" by (simp add: quiet_def)
  from quiet_get_data [OF assms(2) this, of i alloc]
  obtain n' where "racy_get_data alloc ?v ?m n i = Some (fst (get_data alloc t2 (Some i)), n')"
    using get_idx_range [OF assms(1) h assms(4)] assms(3) by auto
  ultimately have "racy_get alloc ?v ?m 0 key = Some (fst (get_data alloc t2 (Some i)), n')"
    using ne by (simp add: racy_get_def bucket_mod [OF assms(1)])
  then show ?thesis by blast
qed

end
