(* ===== verification/Mrsw_Log.thy ===== *)
theory Mrsw_Log
  imports Writer_Log Mrsw_Spec
begin

text \<open>
  The stores of the one writing process of \<^verbatim>\<open>shmutil/shm_mrsw_hashtable.cc\<close>: its operations as
  the sequence of the stores of the table operations they call, evictions included, and any
  sequence of its calls as one log.
\<close>

subsection \<open>The stores of a call\<close>

definition deleteKey_log :: "bytes \<Rightarrow> mrsw \<Rightarrow> slot_store list" where
  "deleteKey_log key m = (if \<not> m_isInit m \<or> key = [] then [] else remove_log key (shm m))"

function evict_log :: "bytes \<Rightarrow> bytes \<Rightarrow> bool \<Rightarrow> mrsw \<Rightarrow> slot_store list" where
  "evict_log key val ret m =
     (if \<not> ret \<and> merrno m = ENOBUFS
      then case deleteKey (getRemoveKey (m_lru m)) m of
             (ecRet, m') \<Rightarrow>
               deleteKey_log (getRemoveKey (m_lru m)) m @
               (if ecRet = kOk
                then case removeKey (m_lru m') of
                       None \<Rightarrow> []
                     | Some (_, l) \<Rightarrow>
                         put_log key val (shm m') @
                         (case put_shm key val (m'\<lparr>m_lru := l\<rparr>) of (ret, m'') \<Rightarrow> evict_log key val ret m'')
                else [])
      else [])"
  by pat_completeness auto
termination
  by (relation "measure (\<lambda>(key, val, ret, m). length (lruMem (m_lru m)))") (auto split: prod.split dest: evict_less)

declare evict_log.simps [simp del]

definition setValue_shm_log :: "bytes \<Rightarrow> bytes \<Rightarrow> mrsw \<Rightarrow> slot_store list" where
  "setValue_shm_log key val m =
     (if key = [] then []
      else case put_shm key val m of
             (ret, m') \<Rightarrow>
               put_log key val (shm m) @
               (if \<not> ret \<and> merrno m' = ENOBUFS
                then if m_isLruEliminate m' then evict_log key val ret m' else []
                else []))"

definition setValue_log :: "mrsw_env \<Rightarrow> bytes \<Rightarrow> bytes \<Rightarrow> mrsw \<Rightarrow> slot_store list" where
  "setValue_log env key val m =
     (if \<not> m_isInit m \<or> key = [] then []
      else case getValue env key [] m of
             (ret, valInTbl, m) \<Rightarrow>
               if ret = kOk \<and> val = valInTbl then []
               else setValue_shm_log key (encodeValueStr (e_little env) val) m)"

definition clearTable_log :: "mrsw \<Rightarrow> slot_store list" where
  "clearTable_log m = (if \<not> m_isInit m then [] else clear_log (shm m))"

subsection \<open>Sequences of calls\<close>

datatype writer_call = Set_value bytes bytes | Delete_key bytes | Clear_table

fun writer_step :: "mrsw_env \<Rightarrow> writer_call \<Rightarrow> mrsw \<Rightarrow> mrsw" where
  "writer_step env (Set_value key val) m = snd (setValue env key val m)"
| "writer_step env (Delete_key key) m = snd (deleteKey key m)"
| "writer_step env Clear_table m = snd (clearTable m)"

fun writer_step_log :: "mrsw_env \<Rightarrow> writer_call \<Rightarrow> mrsw \<Rightarrow> slot_store list" where
  "writer_step_log env (Set_value key val) m = setValue_log env key val m"
| "writer_step_log env (Delete_key key) m = deleteKey_log key m"
| "writer_step_log env Clear_table m = clearTable_log m"

definition writer_run :: "mrsw_env \<Rightarrow> writer_call list \<Rightarrow> mrsw \<Rightarrow> mrsw" where
  "writer_run env calls m = fold (writer_step env) calls m"

fun writer_log :: "mrsw_env \<Rightarrow> writer_call list \<Rightarrow> mrsw \<Rightarrow> slot_store list" where
  "writer_log env [] m = []"
| "writer_log env (c # calls) m = writer_step_log env c m @ writer_log env calls (writer_step env c m)"

subsection \<open>The log is what the calls do\<close>

definition logged_call :: "mrsw \<Rightarrow> mrsw \<Rightarrow> slot_store list \<Rightarrow> bool" where
  "logged_call m m' log \<longleftrightarrow> m_table m' = m_table m \<and> m_isInit m' = m_isInit m \<and> logged (shm m) (shm m') log"

definition typed_mrsw :: "mrsw \<Rightarrow> bool" where
  "typed_mrsw m \<longleftrightarrow> m_table m = Ptr \<and> typed_table (shm m)"

lemma logged_call_typed: "logged_call m m' log \<Longrightarrow> typed_mrsw m \<Longrightarrow> typed_mrsw m'"
  by (auto simp: logged_call_def typed_mrsw_def intro: logged_typed)

lemma logged_call_refl:
  "m_table m' = m_table m \<Longrightarrow> m_isInit m' = m_isInit m \<Longrightarrow> maxslots (shm m') = maxslots (shm m) \<Longrightarrow> slots (shm m') = slots (shm m) \<Longrightarrow>
   logged_call m m' []"
  by (simp add: logged_call_def logged_refl)

lemma logged_call_trans: "logged_call m m1 log \<Longrightarrow> logged_call m1 m2 log' \<Longrightarrow> logged_call m m2 (log @ log')"
  by (auto simp: logged_call_def intro: logged_trans)

lemma logged_call_field:
  "logged_call m m' log \<Longrightarrow> m_table m'' = m_table m' \<Longrightarrow> m_isInit m'' = m_isInit m' \<Longrightarrow> shm m'' = shm m' \<Longrightarrow> logged_call m m'' log"
  by (simp add: logged_call_def)

lemma logged_deleteKey:
  assumes "typed_mrsw m"
  shows "logged_call m (snd (deleteKey key m)) (deleteKey_log key m)"
  using assms logged_remove [of "shm m" key]
  by (auto simp: typed_mrsw_def deleteKey_def deleteKey_log_def logged_call_def logged_refl Let_def split: prod.split)

lemma logged_put_shm:
  assumes "typed_mrsw m"
  shows "logged_call m (snd (put_shm key val m)) (put_log key val (shm m))"
  using assms logged_put [of "shm m" key val]
  by (auto simp: typed_mrsw_def put_shm_def logged_call_def split: prod.split)

lemma logged_evict: "typed_mrsw m \<Longrightarrow> logged_call m (snd (evict_loop key val ret m)) (evict_log key val ret m)"
proof (induction key val ret m rule: evict_loop.induct)
  case (1 key val ret m)
  note typed = "1.prems" and unf = evict_loop.simps [of key val ret m] evict_log.simps [of key val ret m]
    evict_loop.simps [of key val False m] evict_log.simps [of key val False m]
  show ?case
  proof (cases "\<not> ret \<and> merrno m = ENOBUFS")
    case go: True
    obtain ec m1 where del: "deleteKey (getRemoveKey (m_lru m)) m = (ec, m1)"
      by (cases "deleteKey (getRemoveKey (m_lru m)) m")
    have log: "logged_call m m1 (deleteKey_log (getRemoveKey (m_lru m)) m)"
      using logged_deleteKey [OF typed, of "getRemoveKey (m_lru m)"] by (simp add: del)
    show ?thesis
    proof (cases "ec = kOk \<and> removeKey (m_lru m1) \<noteq> None")
      case True
      then obtain x l where rem: "removeKey (m_lru m1) = Some (x, l)" by auto
      obtain r m2 where put: "put_shm key val (m1\<lparr>m_lru := l\<rparr>) = (r, m2)" by (cases "put_shm key val (m1\<lparr>m_lru := l\<rparr>)")
      have m1: "logged_call m (m1\<lparr>m_lru := l\<rparr>) (deleteKey_log (getRemoveKey (m_lru m)) m)"
        by (rule logged_call_field [OF log]) simp_all
      have "logged_call (m1\<lparr>m_lru := l\<rparr>) m2 (put_log key val (shm m1))"
        using logged_put_shm [OF logged_call_typed [OF m1 typed], of key val] by (simp add: put)
      from logged_call_trans [OF m1 this] have m2: "logged_call m m2 (deleteKey_log (getRemoveKey (m_lru m)) m @ put_log key val (shm m1))" .
      have "logged_call m2 (snd (evict_loop key val r m2)) (evict_log key val r m2)"
        using "1.IH" [OF go del [symmetric] _ rem refl put [symmetric] logged_call_typed [OF m2 typed]] True by simp
      from logged_call_trans [OF m2 this] show ?thesis using go del True rem put by (simp add: unf)
    next
      case False
      then consider "ec \<noteq> kOk" | "ec = kOk" "removeKey (m_lru m1) = None" by blast
      then show ?thesis using go del log by cases (auto simp: unf)
    qed
  next
    case False
    then show ?thesis by (auto simp: unf logged_call_refl)
  qed
qed

lemma logged_setValue_shm:
  assumes "typed_mrsw m"
  shows "logged_call m (snd (setValue_shm key val m)) (setValue_shm_log key val m)"
proof (cases "key = []")
  case False
  obtain ret m1 where put: "put_shm key val m = (ret, m1)" by (cases "put_shm key val m")
  have log: "logged_call m m1 (put_log key val (shm m))" using logged_put_shm [OF assms, of key val] by (simp add: put)
  show ?thesis
  proof (cases "\<not> ret \<and> merrno m1 = ENOBUFS \<and> m_isLruEliminate m1")
    case True
    have "logged_call m (snd (evict_loop key val ret m1)) (put_log key val (shm m) @ evict_log key val ret m1)"
      by (rule logged_call_trans [OF log logged_evict [OF logged_call_typed [OF log assms]]])
    then show ?thesis
      using False put True
      by (auto simp: setValue_shm_def setValue_shm_log_def Let_def elim: logged_call_field split: prod.split sum.split)
  next
    case stop: False
    then show ?thesis
      using False put log
      by (auto simp: setValue_shm_def setValue_shm_log_def Let_def elim: logged_call_field split: prod.split sum.split)
  qed
qed (simp add: setValue_shm_def setValue_shm_log_def logged_call_refl)

lemma getValue_slots:
  assumes "getValue env key v m = (ec, v', m')"
  shows "logged_call m m' []"
proof (rule logged_call_refl)
  have "maxslots (snd (get_data alloc t i)) = maxslots t \<and> slots (snd (get_data alloc t i)) = slots t" for alloc t i
    by (simp add: get_data_def split: option.split)
  then have "maxslots (snd (qhasharr_get alloc p k t)) = maxslots t \<and> slots (snd (qhasharr_get alloc p k t)) = slots t"
    for alloc p k t
    by (simp add: qhasharr_get_def split: option.split)
  from this [of "e_alloc env" "m_table m" "Some key" "shm m"]
  show "m_table m' = m_table m" "m_isInit m' = m_isInit m" "maxslots (shm m') = maxslots (shm m)" "slots (shm m') = slots (shm m)"
    using assms by (auto simp: getValue_def split: if_splits prod.splits option.splits)
qed

lemma logged_setValue:
  assumes "typed_mrsw m"
  shows "logged_call m (snd (setValue env key val m)) (setValue_log env key val m)"
proof -
  obtain ret v m1 where get: "getValue env key [] m = (ret, v, m1)" by (cases "getValue env key [] m")
  note log = getValue_slots [OF get]
  have "logged_call m (snd (setValue_shm key x m1)) (setValue_shm_log key x m1)" for x
    using logged_call_trans [OF log logged_setValue_shm [OF logged_call_typed [OF log assms], of key x]] by simp
  then show ?thesis using get log by (auto simp: setValue_def setValue_log_def logged_call_refl)
qed

lemma logged_clearTable:
  assumes "typed_mrsw m"
  shows "logged_call m (snd (clearTable m)) (clearTable_log m)"
  using assms logged_clear [of "shm m"]
  by (simp add: typed_mrsw_def clearTable_def clearTable_log_def logged_call_def logged_refl)

lemma logged_writer_step: "typed_mrsw m \<Longrightarrow> logged_call m (writer_step env c m) (writer_step_log env c m)"
  by (cases c) (simp_all add: logged_setValue logged_deleteKey logged_clearTable)

lemma logged_writer: "typed_mrsw m \<Longrightarrow> logged_call m (writer_run env calls m) (writer_log env calls m)"
proof (induction calls arbitrary: m)
  case (Cons c calls)
  note log = logged_writer_step [OF Cons.prems, of env c]
  from logged_call_trans [OF log Cons.IH [OF logged_call_typed [OF log Cons.prems]]]
  show ?case by (simp add: writer_run_def)
qed (simp add: writer_run_def logged_call_refl)

text \<open>A table that its process has created.\<close>

lemma typed_init:
  assumes "MrswHashtable_init svc env n isLru m = (kOk, m')" "shm_create svc (qhasharr_calculate_memsize n) = None"
  shows "typed_mrsw m'"
proof (cases "shm_attach svc")
  case None
  then show ?thesis using assms by (simp add: MrswHashtable_init_def Let_def)
next
  case (Some seg)
  obtain p t where p: "qhasharr Ptr (qhasharr_calculate_memsize n) (seg\<lparr>errno := merrno m\<rparr>) = (p, t)"
    by (cases "qhasharr Ptr (qhasharr_calculate_memsize n) (seg\<lparr>errno := merrno m\<rparr>)")
  show ?thesis
  proof (cases p)
    case NULL
    then show ?thesis using assms Some p by (simp add: MrswHashtable_init_def Let_def)
  next
    case Ptr
    then have "typed_table t" using p typed_create by blast
    moreover have "m_table m' = Ptr" "shm m' = t" using assms Some p Ptr by (auto simp: MrswHashtable_init_def Let_def)
    ultimately show ?thesis by (simp add: typed_mrsw_def)
  qed
qed

end
