(* ===== verification/Racy_Torn.thy ===== *)
theory Racy_Torn
  imports Racy_Quiet Mrsw_Log
begin

text \<open>
  A table of one slot, step by step: what an insertion into the empty slot and one over an
  existing short value store, and what a reader gets whose copy of the value falls between
  the stores of the second.
\<close>

subsection \<open>Storing into the only slot\<close>

definition one_slot :: "qenv \<Rightarrow> qslot \<Rightarrow> bool" where
  "one_slot t s \<longleftrightarrow> maxslots t = 1 \<and> slots t = [s] \<and> length (s_data s) = DATASIZE"

lemma one_slot_bucket [simp]: "one_slot t s \<Longrightarrow> bucket t key = 0"
  by (simp add: one_slot_def bucket_def)

lemma one_slot_at [simp]: "one_slot t s \<Longrightarrow> slot_at t 0 = s"
  by (simp add: one_slot_def slot_at_def)

definition keyed :: "bytes \<Rightarrow> qslot \<Rightarrow> qslot" where
  "keyed key s = s\<lparr>s_count := 1, s_hash := 0, s_link := -1,
     s_data := blit 224 (to_le 2 (of_nat (length key) :: u16)) (blit 226 (md5_digest key) (blit 128 (take KEYSIZE key) (s_data s)))\<rparr>"

definition filled :: "bytes \<Rightarrow> bytes \<Rightarrow> qslot \<Rightarrow> qslot" where
  "filled key val s = (keyed key s)\<lparr>s_data := blit 0 val (s_data (keyed key s)), s_size := length val\<rparr>"

lemma keyed_simps [simp]:
  "s_count (keyed key s) = 1" "s_hash (keyed key s) = 0" "s_link (keyed key s) = -1" "s_size (keyed key s) = s_size s"
  "length (s_data s) = DATASIZE \<Longrightarrow> length (s_data (keyed key s)) = DATASIZE"
  by (simp_all add: keyed_def)

lemma filled_simps [simp]:
  "s_count (filled key val s) = 1" "s_hash (filled key val s) = 0" "s_link (filled key val s) = -1"
  "s_size (filled key val s) = length val"
  "length (s_data s) = DATASIZE \<Longrightarrow> length val \<le> VALUESIZE \<Longrightarrow> length (s_data (filled key val s)) = DATASIZE"
  by (simp_all add: filled_def)

lemma put_empty_slot:
  assumes "one_slot t s" "s_count s = 0" "usedslots t < 1" "0 < length val" "length val \<le> VALUESIZE"
  shows "\<exists>t'. qhasharr_put Ptr (Some key) (Some val) t = (True, t') \<and> one_slot t' (filled key val s) \<and>
      usedslots t' = usedslots t + 1"
    "put_log key val t = put_key_log 0 0 key 1 @ bytes_log 0 0 val @ [St_size 0 (length val)]"
proof -
  have t: "maxslots t = 1" "slots t = [s]" "length (s_data s) = DATASIZE" using assms(1) by (simp_all add: one_slot_def)
  have key: "slots (put_key 0 0 key 1 t) = [keyed key s]" "maxslots (put_key 0 0 key 1 t) = 1"
    "usedslots (put_key 0 0 key 1 t) = usedslots t" "slot_at (put_key 0 0 key 1 t) 0 = keyed key s"
    using t by (simp_all add: put_key_def upd_slot_def slot_at_def keyed_def to_short_def)
  have chunk: "chunk_size (put_key 0 0 key 1 t) 0 val 0 = length val"
    using assms(5) by (simp add: chunk_size_def key(4))
  have "mem_read 0 (length val) val = val" "length val mod 256 = length val" using assms(5) by simp_all
  then have store: "slots (store_chunk 0 val 0 (put_key 0 0 key 1 t)) = [filled key val s]"
    "maxslots (store_chunk 0 val 0 (put_key 0 0 key 1 t)) = 1"
    "usedslots (store_chunk 0 val 0 (put_key 0 0 key 1 t)) = usedslots t + 1"
    using key chunk by (simp_all add: store_chunk_def Let_def upd_slot_def slot_at_def filled_def)
  have fin: "put_data_loop 0 val 0 (length val) x = (True, x)" "put_data_loop_log 0 val 0 (length val) x = []" for x
    by (simp_all add: put_data_loop.simps [of 0 val 0 "length val"] put_data_loop_log.simps [of 0 val 0 "length val"])
  have put: "put_data t 0 0 key val 1 = (True, store_chunk 0 val 0 (put_key 0 0 key 1 t))"
    using assms(1,2,4) by (simp add: put_data_def put_data_loop.simps [of 0 val 0 0] chunk fin)
  have "qhasharr_put Ptr (Some key) (Some val) t = put_data t 0 0 key val 1"
    using assms(1-3) t(1) by (simp add: qhasharr_put_def put_body.simps [of key val t] Let_def)
  then show "\<exists>t'. qhasharr_put Ptr (Some key) (Some val) t = (True, t') \<and> one_slot t' (filled key val s) \<and>
      usedslots t' = usedslots t + 1"
    using put store t(3) assms(5) by (simp add: one_slot_def)
  have "put_log key val t = put_data_log t 0 0 key val 1"
    using assms(1-3) t(1) by (simp add: put_log.simps [of key val t] Let_def)
  also have "\<dots> = put_key_log 0 0 key 1 @ bytes_log 0 0 val @ [St_size 0 (length val)]"
    using assms(1,2,4) \<open>mem_read 0 (length val) val = val\<close> \<open>length val mod 256 = length val\<close>
    by (simp add: put_data_log_def put_data_loop_log.simps [of 0 val 0 0] chunk fin store_chunk_log_def Let_def)
  finally show "put_log key val t = put_key_log 0 0 key 1 @ bytes_log 0 0 val @ [St_size 0 (length val)]" .
qed

lemma filled_matches:
  assumes "length (s_data s) = DATASIZE" "length key \<le> KEYSIZE" "length val \<le> VALUESIZE"
  shows "key_matches key (filled key val s)"
proof -
  have "unat (of_nat (length key) :: u16) = length key" using assms(2) by (simp add: unat_of_nat)
  moreover have "take (length key) (mem_read 128 KEYSIZE d) = mem_read 128 (length key) d" for d :: bytes
    using assms(2) by (simp add: mem_read_def min_def)
  ultimately show ?thesis
    using assms
    by (simp add: key_matches_def filled_def keyed_def pair_keylen_def pair_key_def mem_simps mem_read_blit_prefix)
qed

lemma filled_index:
  assumes "one_slot t (filled key val s)" "length (s_data s) = DATASIZE" "length key \<le> KEYSIZE" "length val \<le> VALUESIZE"
  shows "get_idx t key 0 = Some 0"
  using assms(1) filled_matches [OF assms(2-4)]
  by (simp add: get_idx_def cyc_loop.simps [of _ 0 _ 0] is_key_slot_def one_slot_def slot_at_def)

lemma remove_only_slot:
  assumes "one_slot t (filled key val s)" "length (s_data s) = DATASIZE" "length key \<le> KEYSIZE" "length val \<le> VALUESIZE"
  shows "\<exists>t'. qhasharr_remove Ptr (Some key) t = (True, t') \<and> one_slot t' ((filled key val s)\<lparr>s_count := 0\<rparr>) \<and>
      usedslots t' = usedslots t - 1"
    "remove_log key t = [St_count 0 0]"
proof -
  have max: "maxslots t = 1" "slots t = [filled key val s]" "length (s_data (filled key val s)) = DATASIZE"
    using assms(1) by (simp_all add: one_slot_def)
  note at = one_slot_at [OF assms(1)] and idx = filled_index [OF assms]
  have "qhasharr_remove Ptr (Some key) t = (True, snd (remove_data t 0))"
    using assms(1) max at idx by (simp add: qhasharr_remove_def Let_def)
  moreover have "one_slot (snd (remove_data t 0)) ((filled key val s)\<lparr>s_count := 0\<rparr>) \<and>
      usedslots (snd (remove_data t 0)) = usedslots t - 1"
    using max
    by (simp add: remove_data_def remove_data_loop.simps [of t 0 0] remove_slot_def Let_def one_slot_def upd_slot_def slot_at_def)
  ultimately show "\<exists>t'. qhasharr_remove Ptr (Some key) t = (True, t') \<and> one_slot t' ((filled key val s)\<lparr>s_count := 0\<rparr>) \<and>
      usedslots t' = usedslots t - 1" by simp
  show "remove_log key t = [St_count 0 0]"
    using assms(1) max(1) idx
    by (simp add: remove_log_def Let_def remove_data_log_def remove_data_loop_log.simps [of t 0 0] remove_slot_log_def)
qed

subsection \<open>The calls of the writing process\<close>

definition one_mrsw :: "mrsw \<Rightarrow> qslot \<Rightarrow> bool" where
  "one_mrsw m s \<longleftrightarrow> m_isInit m \<and> m_table m = Ptr \<and> one_slot (shm m) s"

lemma one_set:
  assumes "one_mrsw m s" "s_count s = 0" "usedslots (shm m) < 1" "key \<noteq> []" "length (encodeValueStr (e_little env) val) \<le> VALUESIZE"
  defines "raw \<equiv> encodeValueStr (e_little env) val"
  shows "one_mrsw (snd (setValue env key val m)) (filled key raw s)"
    "usedslots (shm (snd (setValue env key val m))) = usedslots (shm m) + 1"
    "setValue_log env key val m = put_key_log 0 0 key 1 @ bytes_log 0 0 raw @ [St_size 0 (length raw)]"
proof -
  have m: "m_isInit m" "m_table m = Ptr" "one_slot (shm m) s" using assms(1) by (simp_all add: one_mrsw_def)
  define m1 where "m1 = m\<lparr>shm := (shm m)\<lparr>errno := ENOENT\<rparr>\<rparr>"
  have max: "maxslots (shm m) = 1" using m(3) by (simp add: one_slot_def)
  have get: "getValue env key [] m = (kErrNotFound, [], m1)"
    using m assms(2,4) max by (simp add: getValue_def qhasharr_get_def get_idx_def m1_def)
  have one: "one_slot (shm m1) s" "usedslots (shm m1) < 1" using m(3) assms(3) by (simp_all add: m1_def one_slot_def)
  have len: "0 < length raw" "length raw \<le> VALUESIZE" using assms(5) by (simp_all add: raw_def)
  note put = put_empty_slot [OF one(1) assms(2) one(2) len, of key]
  obtain t' where t': "qhasharr_put Ptr (Some key) (Some raw) (shm m1) = (True, t')" "one_slot t' (filled key raw s)"
    "usedslots t' = usedslots (shm m1) + 1" using put(1) by blast
  have shm: "put_shm key raw m1 = (True, m1\<lparr>shm := t'\<rparr>)" using t'(1) m(2) by (simp add: put_shm_def m1_def)
  have set: "setValue env key val m = (kOk, m1\<lparr>shm := t', m_lru := visitKey key (m_lru m1)\<rparr>)"
    using get m(1) assms(4) shm by (simp add: setValue_def setValue_shm_def raw_def)
  show "one_mrsw (snd (setValue env key val m)) (filled key raw s)" using set t'(2) m by (simp add: one_mrsw_def m1_def)
  show "usedslots (shm (snd (setValue env key val m))) = usedslots (shm m) + 1" using set t'(3) by (simp add: m1_def)
  show "setValue_log env key val m = put_key_log 0 0 key 1 @ bytes_log 0 0 raw @ [St_size 0 (length raw)]"
    using get m(1) assms(4) shm put(2) by (simp add: setValue_log_def setValue_shm_log_def raw_def)
qed

lemma one_delete:
  assumes "one_mrsw m (filled key raw s)" "length (s_data s) = DATASIZE" "length key \<le> KEYSIZE" "length raw \<le> VALUESIZE" "key \<noteq> []"
  shows "one_mrsw (snd (deleteKey key m)) ((filled key raw s)\<lparr>s_count := 0\<rparr>)"
    "usedslots (shm (snd (deleteKey key m))) = usedslots (shm m) - 1" "deleteKey_log key m = [St_count 0 0]"
  using assms(1,5) remove_only_slot [of "shm m", OF _ assms(2-4)]
  by (auto simp: one_mrsw_def deleteKey_def deleteKey_log_def)

subsection \<open>A copy between the stores\<close>

lemma peek_bytes_list:
  "(\<And>j. j < length bs \<Longrightarrow> \<exists>s. peek v (n + j) i = Some s \<and> off + j < length (s_data s) \<and> s_data s ! (off + j) = bs ! j) \<Longrightarrow>
   peek_bytes v n i off (length bs) = Some bs"
proof (induction bs arbitrary: n off)
  case (Cons b bs)
  obtain s where s: "peek v n i = Some s" "off < length (s_data s)" "s_data s ! off = b" using Cons.prems [of 0] by auto
  have "peek_bytes v (Suc n) i (Suc off) (length bs) = Some bs"
  proof (rule Cons.IH)
    fix j assume "j < length bs"
    then show "\<exists>s. peek v (Suc n + j) i = Some s \<and> Suc off + j < length (s_data s) \<and> s_data s ! (Suc off + j) = bs ! j"
      using Cons.prems [of "Suc j"] by auto
  qed
  then show ?case using s by simp
qed simp

lemma replay_put_key:
  assumes "length (s_data s) = DATASIZE"
  shows "replay (put_key_log 0 0 key 1) [s] = [keyed key s]"
  using assms by (simp add: put_key_log_def replay_bytes keyed_def to_short_def)

text \<open>The stores of a deletion and an insertion of the same key.\<close>

definition renew_log :: "bytes \<Rightarrow> bytes \<Rightarrow> slot_store list" where
  "renew_log key raw = St_count 0 0 # put_key_log 0 0 key 1 @ bytes_log 0 0 raw @ [St_size 0 (length raw)]"

lemma replay_prefix:
  fixes key :: bytes
  assumes "length (s_data s) = DATASIZE" "length raw \<le> VALUESIZE" "j \<le> length raw"
  defines "log \<equiv> renew_log key raw" and "k \<equiv> keyed key (s\<lparr>s_count := 0\<rparr>)"
  shows "replay (take (Suc (length (put_key_log 0 0 key 1)) + j) log) [s] = [k\<lparr>s_data := blit 0 (take j raw) (s_data k)\<rparr>]"
    "replay log [s] = [k\<lparr>s_data := blit 0 raw (s_data k), s_size := length raw\<rparr>]"
proof -
  have k: "replay (put_key_log 0 0 key 1) [s\<lparr>s_count := 0\<rparr>] = [k]" "length (s_data k) = DATASIZE"
    using assms(1) by (simp_all add: k_def replay_put_key)
  have "take j (bytes_log 0 0 raw) = bytes_log 0 0 (take j raw)"
    using assms(3) by (simp add: bytes_log_def take_map)
  moreover have "length (bytes_log 0 0 raw) = length raw" by (simp add: bytes_log_def)
  ultimately have "take (Suc (length (put_key_log 0 0 key 1)) + j) log = St_count 0 0 # put_key_log 0 0 key 1 @ bytes_log 0 0 (take j raw)"
    using assms(3) by (simp add: log_def renew_log_def)
  then show "replay (take (Suc (length (put_key_log 0 0 key 1)) + j) log) [s] = [k\<lparr>s_data := blit 0 (take j raw) (s_data k)\<rparr>]"
    using assms(2) k by (simp add: replay_bytes)
  show "replay log [s] = [k\<lparr>s_data := blit 0 raw (s_data k), s_size := length raw\<rparr>]"
    using assms(2) k by (simp add: log_def renew_log_def replay_bytes)
qed

lemma keyed_low: "length (s_data s) = DATASIZE \<Longrightarrow> j < 128 \<Longrightarrow> s_data (keyed key s) ! j = s_data s ! j"
  by (simp add: keyed_def nth_blit)

text \<open>
  The reader copies the first five bytes of the old string, the sixth and seventh when six
  bytes of the new string are stored, and the last one when all of them are.
\<close>

lemma torn_copy:
  assumes "length (s_data s) = DATASIZE" "length key \<le> KEYSIZE"
    and "length old = 8" "length new = 8"
  defines "S \<equiv> filled key old s" and "log \<equiv> renew_log key new"
  shows "\<exists>f n. mono f \<and> racy_get alloc' (\<lambda>k. replay (take (f k) log) [S]) 1 0 key =
    (if alloc' 8 then Some (Some (take 5 old @ [new ! 5, old ! 6, new ! 7]), n) else Some (None, n))"
proof -
  define P where "P = Suc (length (put_key_log 0 0 key 1))"
  define t where "t = \<lparr>maxslots = 1, usedslots = 1, num = 1, slots = [S], errno = E_CLEAR\<rparr>"
  have len: "length (s_data S) = DATASIZE" using assms(1,3) by (simp add: S_def)
  have t: "one_slot t S" using len by (simp add: t_def one_slot_def)
  have typed: "typed_table t"
    using len assms(3) by (simp add: typed_table_def typed_slots_def typed_slot_def t_def S_def)
  have idx: "get_idx t key 0 = Some 0"
    using filled_index [of t key old s] t assms(1-3) by (simp add: S_def)
  have "quiet t 0 (\<lambda>_. [S])" by (simp add: quiet_def t_def)
  from quiet_get_idx [OF typed this, of 0 key] obtain n where n: "racy_get_idx (\<lambda>_. [S]) 1 key 0 0 = Some (Some 0, n)"
    using idx by (auto simp: t_def)
  define f where "f k = (if k < n + 9 then 0 else if k < n + 11 then P + 6 else length log)" for k
  define v where "v k = replay (take (f k) log) [S]" for k
  have "P + 6 \<le> length log" using assms(4) by (simp add: P_def log_def renew_log_def bytes_log_def)
  then have mono: "mono f" by (auto simp: f_def mono_def)
  define K where "K = keyed key (S\<lparr>s_count := 0\<rparr>)"
  have K: "length (s_data K) = DATASIZE" "s_link K = -1" using len by (simp_all add: K_def)
  have new: "length new \<le> VALUESIZE" "6 \<le> length new" using assms(4) by simp_all
  have v0: "v k = [S]" if "k < n + 9" for k using that by (simp add: v_def f_def)
  have v1: "v k = [K\<lparr>s_data := blit 0 (take 6 new) (s_data K)\<rparr>]" if "n + 9 \<le> k" "k < n + 11" for k
    using that replay_prefix(1) [OF len new, of key] by (simp add: v_def f_def K_def log_def P_def)
  have v2: "v k = [K\<lparr>s_data := blit 0 new (s_data K), s_size := length new\<rparr>]" if "n + 11 \<le> k" for k
    using that replay_prefix(2) [OF len new, of key] by (simp add: v_def f_def K_def log_def)
  have "racy_get_idx v 1 key 0 0 = Some (Some 0, n)"
    by (rule local_get_idx(2) [OF n]) (simp add: agree_on_def v0)
  have S: "s_size S = 8" "s_link S = -1" "s_count S = 1" using assms(3) by (simp_all add: S_def)
  have size: "racy_size v 1 n 0 0 0 = Some (Some 8, n + 2)"
    using v0 [of n] v0 [of "n + 1"] S by (subst racy_size.simps) (simp add: peek_def)
  let ?raw = "take 5 old @ [new ! 5, old ! 6, new ! 7]"
  have low: "s_data S ! j = old ! j" "s_data K ! j = old ! j" if "j < 8" for j
    using that assms(1,3) len by (simp_all add: K_def keyed_low) (simp_all add: S_def filled_def nth_blit)
  have bytes: "peek_bytes v (n + 4) 0 0 (length ?raw) = Some ?raw"
  proof (rule peek_bytes_list)
    fix j assume "j < length ?raw"
    then consider "j < 5" | "j = 5" | "j = 6" | "j = 7" using assms(3) by fastforce
    then show "\<exists>s. peek v (n + 4 + j) 0 = Some s \<and> 0 + j < length (s_data s) \<and> s_data s ! (0 + j) = ?raw ! j"
    proof cases
      case 1
      then show ?thesis using v0 [of "n + 4 + j"] len low(1) assms(3) by (simp add: peek_def nth_append)
    next
      case 2
      then show ?thesis using v1 [of "9 + n"] K assms(3,4) by (simp add: peek_def nth_append nth_blit)
    next
      case 3
      then show ?thesis using v1 [of "10 + n"] K assms(3,4) low(2) [of 6] by (simp add: peek_def nth_append nth_blit)
    next
      case 4
      then show ?thesis using v2 [of "11 + n"] K assms(3,4) by (simp add: peek_def nth_append nth_blit)
    qed
  qed
  have raw: "length ?raw = 8" using assms(3) by simp
  have copy: "racy_copy v 1 8 (n + 2) 0 (replicate 8 0) 0 0 = Some (Some ?raw, n + 13)"
  proof -
    define N where "N = n + 2"
    have p: "peek v N 0 = Some S" "peek v (N + 1) 0 = Some S" by (simp_all add: N_def peek_def v0)
    obtain F where F: "peek v (N + 2 + 8) 0 = Some F" "s_link F = -1" using K(2) by (simp add: N_def peek_def v2)
    have "n + 4 = N + 2" by (simp add: N_def)
    note bytes' = bytes [unfolded raw this]
    have put: "put_bytes 0 ?raw (replicate 8 0) = Some ?raw" using raw by (simp add: put_bytes_def blit_def)
    have "racy_copy v 1 8 N 0 (replicate 8 0) 0 0 = Some (Some ?raw, N + 3 + 8)"
      using p F bytes' put by (subst racy_copy.simps) (simp add: S)
    then show ?thesis by (simp add: N_def add.commute)
  qed
  have "racy_get alloc' v 1 0 key = (if alloc' 8 then Some (Some ?raw, n + 13) else Some (None, n + 2))"
    using \<open>racy_get_idx v 1 key 0 0 = Some (Some 0, n)\<close> size copy by (simp add: racy_get_def racy_get_data_def)
  then show ?thesis using mono unfolding v_def by (intro exI [of _ f] exI [of _ "if alloc' 8 then n + 13 else n + 2"]) auto
qed

end
