(* ===== verification/Race_Props.thy ===== *)
theory Race_Props
  imports Mrsw_Props Racy_Torn
begin

text \<open>
  The properties of a process that reads a table of \<^verbatim>\<open>shmutil/shm_mrsw_hashtable.cc\<close> while the
  writing process works on it: the types its reads rely on, that no read leaves the table,
  what it returns between two writes, and what the missing lock costs.
\<close>

subsection \<open>The views of a reader\<close>

text \<open>At its \<open>n\<close>-th access a reader sees the first \<open>f n\<close> stores of the writer.\<close>

definition seen :: "slot_store list \<Rightarrow> qslot list \<Rightarrow> (nat \<Rightarrow> nat) \<Rightarrow> view" where
  "seen log ss f = (\<lambda>n. replay (take (f n) log) ss)"

lemma typed_take:
  assumes "logged_call m m' log" "typed_mrsw m"
  shows "typed_slots (nat (maxslots (shm m))) (replay (take k log) (slots (shm m)))"
  using assms set_take_subset [of k log]
  by (intro typed_replay) (auto simp: logged_call_def logged_def typed_mrsw_def typed_table_def)

lemma typed_seen:
  assumes "typed_mrsw m"
  shows "typed_view (nat (maxslots (shm m))) (seen (writer_log env calls m) (slots (shm m)) f)"
  using typed_take [OF logged_writer [OF assms] assms] by (simp add: typed_view_def seen_def)

lemma typed_mrsw_length: "typed_mrsw m \<Longrightarrow> nat (maxslots (shm m)) = length (slots (shm m))"
  by (simp add: typed_mrsw_def typed_tableD(3))

subsection \<open>A table of one slot\<close>

definition small_mrsw :: mrsw where
  "small_mrsw = snd (MrswHashtable_init fresh_services sample_host 1 True (MrswHashtable sample_env))"

lemma small_mrsw:
  "MrswHashtable_init fresh_services sample_host 1 True (MrswHashtable sample_env) = (kOk, small_mrsw)"
  "mrsw_inv small_mrsw" "length (slots (shm small_mrsw)) = 1" "m_isLruEliminate small_mrsw"
  using init_creates [of 1 fresh_services sample_env sample_host True sample_env]
  by (auto simp: fresh_services small_mrsw_def mrsw_inv_def)

lemma small_typed: "typed_mrsw small_mrsw"
  by (rule typed_init [OF small_mrsw(1) fresh_services(1)])

subsection \<open>Types\<close>

text \<open>
  C14: After any calls of the writing process, evictions included, the slots are the replay of
  the stores the calls make, and after every single store all slots have their type:
  indices and links lie in the table and no size exceeds the data of a slot.
\<close>

theorem writer_stores_typed:
  assumes "MrswHashtable_init svc env n isLru (MrswHashtable t) = (kOk, m)"
    and "shm_create svc (qhasharr_calculate_memsize n) = None"
  shows "slots (shm (writer_run env calls m)) = replay (writer_log env calls m) (slots (shm m)) \<and>
    maxslots (shm (writer_run env calls m)) = maxslots (shm m) \<and>
    (\<forall>k. typed_slots (nat (maxslots (shm m))) (replay (take k (writer_log env calls m)) (slots (shm m))))"
proof -
  have typed: "typed_mrsw m" by (rule typed_init [OF assms])
  note log = logged_writer [OF typed, of env calls]
  show ?thesis using log typed_take [OF log typed] by (simp add: logged_call_def logged_def)
qed

theorem writer_stores_typed_witness:
  "typed_slots 1 (replay (take 9 (writer_log sample_host [Set_value [1] [7], Delete_key [1]] small_mrsw))
     (slots (shm small_mrsw)))"
  using writer_stores_typed [OF small_mrsw(1) fresh_services(1), of "[Set_value [1] [7], Delete_key [1]]"]
    small_mrsw(3) typed_mrsw_length [OF small_typed] by simp

subsection \<open>Safety\<close>

text \<open>The three reading operations on a view whose slots always have their type.\<close>

lemma racing_getValue:
  assumes "typed_view m v"
  shows "\<exists>ec val. racy_getValue env v m n key old = Some (ec, val) \<and>
    ec \<in> {kOk, kErrDataMess, kErrNotFound, kErrInvalidParams} \<and>
    (ec = kOk \<longrightarrow> (\<exists>raw n' rest. racy_get (e_alloc env) v m n key = Some (Some raw, n') \<and>
       raw = encodeValueStr (e_little env) val @ rest))"
proof -
  from typed_get [OF assms, of "e_alloc env" n key] obtain r n' where r: "racy_get (e_alloc env) v m n key = Some (r, n')"
    by blast
  show ?thesis
  proof (cases "key = [] \<or> r = None")
    case True
    then show ?thesis using r by (auto simp: racy_getValue_def)
  next
    case False
    then obtain raw where raw: "r = Some raw" by blast
    obtain ec val where v: "verifyShmValue (e_little env) raw = (ec, val)" by (cases "verifyShmValue (e_little env) raw")
    have "ec = kOk \<or> ec = kErrDataMess" using verify_layout(3) [of "e_little env" raw] v by auto
    moreover have "\<exists>rest. raw = encodeValueStr (e_little env) val @ rest" if "ec = kOk"
      using verify_sound [of "e_little env" raw val] v that by simp
    ultimately show ?thesis using False r raw v by (auto simp: racy_getValue_def)
  qed
qed

lemma racing_isExist:
  assumes "typed_view m v"
  shows "\<exists>ec b. racy_isExist v m n key old = Some (ec, b) \<and> ec = (if key = [] then kErrInvalidParams else kOk)"
  using typed_exist [OF assms, of n key] by (auto simp: racy_isExist_def)

lemma racing_getNext:
  assumes "typed_view m v"
  shows "\<exists>ec tk tv i'. racy_getNext env v m n key val i = Some (ec, tk, tv, i') \<and> i < i' \<and>
    ec \<in> {kOk, kErrDataMess, kErrNotFound, kErrTraverseTableEnd} \<and> (ec = kOk \<longrightarrow> i' \<le> m)"
proof -
  obtain r i' where r: "racy_getnext (e_alloc env) v m n i = Some (r, i')" using typed_getnext [OF assms] by blast
  note mv = racy_getnext_moves [OF r]
  show ?thesis
  proof (cases r)
    case (Inl e)
    then show ?thesis using r mv by (simp add: racy_getNext_def Let_def)
  next
    case (Inr obj)
    obtain name raw where obj: "obj = (name, raw)" by (cases obj)
    obtain ec tv where v: "verifyShmValue (e_little env) raw = (ec, tv)" by (cases "verifyShmValue (e_little env) raw")
    then have "ec = kOk \<or> ec = kErrDataMess" using verify_layout(3) [of "e_little env" raw] by auto
    then show ?thesis using r mv Inr obj v by (auto simp: racy_getNext_def)
  qed
qed

text \<open>
  C15: Whatever the writing process stores between the accesses of a reading operation in another
  process, the operation ends without an access outside of the table, of the data of a slot
  or of the buffer it has allocated, with one of its own codes. A lookup reports success only
  for a string that begins with the encoding of the value it returns, and a traversal advances
  with every call.
\<close>

theorem racing_reader_safe:
  fixes calls :: "writer_call list" and f :: "nat \<Rightarrow> nat" and env :: mrsw_env
  assumes "MrswHashtable_init svc env n isLru (MrswHashtable t) = (kOk, m)"
    and "shm_create svc (qhasharr_calculate_memsize n) = None"
  defines "v \<equiv> seen (writer_log env calls m) (slots (shm m)) f"
  shows "(\<exists>ec val. racy_getValue env' v (nat (maxslots (shm m))) 0 key old = Some (ec, val) \<and>
      ec \<in> {kOk, kErrDataMess, kErrNotFound, kErrInvalidParams} \<and>
      (ec = kOk \<longrightarrow> (\<exists>raw n rest. racy_get (e_alloc env') v (nat (maxslots (shm m))) 0 key = Some (Some raw, n) \<and>
         raw = encodeValueStr (e_little env') val @ rest))) \<and>
    (\<exists>ec b. racy_isExist v (nat (maxslots (shm m))) 0 key ex = Some (ec, b) \<and>
      ec = (if key = [] then kErrInvalidParams else kOk)) \<and>
    (\<exists>ec tk tv i'. racy_getNext env' v (nat (maxslots (shm m))) 0 key old i = Some (ec, tk, tv, i') \<and> i < i' \<and>
      ec \<in> {kOk, kErrDataMess, kErrNotFound, kErrTraverseTableEnd} \<and> (ec = kOk \<longrightarrow> i' \<le> nat (maxslots (shm m))))"
proof -
  have typed: "typed_view (nat (maxslots (shm m))) v" unfolding v_def by (rule typed_seen [OF typed_init [OF assms(1,2)]])
  show ?thesis
    by (intro conjI; rule racing_getValue [OF typed] racing_isExist [OF typed] racing_getNext [OF typed])
qed

theorem racing_reader_safe_witness:
  "racy_getValue sample_host
     (seen (writer_log sample_host [Set_value [1] [7], Delete_key [1]] small_mrsw) (slots (shm small_mrsw)) (\<lambda>n. n * 3))
     1 0 [1] [] \<noteq> None"
  using racing_reader_safe [OF small_mrsw(1) fresh_services(1),
      where env' = sample_host and calls = "[Set_value [1] [7], Delete_key [1]]" and f = "\<lambda>n. n * 3" and
        key = "[1]" and old = "[]" and ex = True and i = 0, THEN conjunct1]
    small_mrsw(3) typed_mrsw_length [OF small_typed] by auto

subsection \<open>Between two writes\<close>

lemma quiet_getValue:
  assumes "typed_mrsw m" "m_isInit m" "\<forall>k\<ge>n. v k = slots (shm m)"
  shows "racy_getValue env v (nat (maxslots (shm m))) n key old =
    Some (fst (getValue env key old m), fst (snd (getValue env key old m)))"
proof -
  have t: "typed_table (shm m)" "m_table m = Ptr" using assms(1) by (simp_all add: typed_mrsw_def)
  have "quiet (shm m) n v" using assms(3) by (simp add: quiet_def)
  from quiet_get [OF t(1) this, of "e_alloc env" key] obtain n' where
    get: "racy_get (e_alloc env) v (nat (maxslots (shm m))) n key =
      Some (fst (qhasharr_get (e_alloc env) Ptr (Some key) (shm m)), n')"
    by (auto simp: typed_tableD(3) [OF t(1)])
  obtain r t' where "qhasharr_get (e_alloc env) Ptr (Some key) (shm m) = (r, t')"
    by (cases "qhasharr_get (e_alloc env) Ptr (Some key) (shm m)")
  then show ?thesis
    using assms(2) get t(2) by (cases r) (auto simp: racy_getValue_def getValue_def split: prod.split)
qed

lemma quiet_isExist:
  assumes "typed_mrsw m" "m_isInit m" "\<forall>k\<ge>n. v k = slots (shm m)"
  shows "racy_isExist v (nat (maxslots (shm m))) n key ex =
    Some (fst (isExist key ex m), fst (snd (isExist key ex m)))"
proof -
  have t: "typed_table (shm m)" "m_table m = Ptr" using assms(1) by (simp_all add: typed_mrsw_def)
  have "quiet (shm m) n v" using assms(3) by (simp add: quiet_def)
  from quiet_exist [OF t(1) this, of key] obtain n' where
    "racy_exist v (nat (maxslots (shm m))) n key = Some (fst (qhasharr_exist Ptr (Some key) (shm m)), n')"
    by (auto simp: typed_tableD(3) [OF t(1)])
  then show ?thesis
    using assms(2) t(2) by (cases "qhasharr_exist Ptr (Some key) (shm m)") (simp add: racy_isExist_def isExist_def)
qed

lemma quiet_getNext:
  assumes "typed_mrsw m" "\<forall>k\<ge>n. v k = slots (shm m)" "getNext env key val i m = (ec, tk, tv, i', m')"
  shows "racy_getNext env v (nat (maxslots (shm m))) n key val i = Some (ec, tk, tv, i')"
proof -
  have t: "typed_table (shm m)" "m_table m = Ptr" using assms(1) by (simp_all add: typed_mrsw_def)
  have q: "quiet (shm m) n v" using assms(2) by (simp add: quiet_def)
  obtain r j t' where g: "getnext_loop (e_alloc env) (shm m) i = (r, j, t')" by (cases "getnext_loop (e_alloc env) (shm m) i")
  have "racy_getnext (e_alloc env) v (nat (maxslots (shm m))) n i = Some (next_result (r, j, t'))"
    using quiet_getnext [OF t(1) q, of _ "e_alloc env" i] g typed_tableD(3) [OF t(1)] by simp
  moreover have "maxslots t' = maxslots (shm m)" using getnext_keeps [of "e_alloc env" "shm m" i] g by simp
  moreover have "int (j + 1) \<ge> maxslots (shm m) + 1 \<longleftrightarrow> j + 1 \<ge> nat (maxslots (shm m)) + 1" by linarith
  ultimately show ?thesis
    using assms(3) g t(2)
    by (cases r) (auto simp: racy_getNext_def getNext_def getNextKVPair_def qhasharr_getnext_def next_result_def Let_def
        split: prod.splits if_splits)
qed

text \<open>
  C16: A reading operation that sees no store of the writing process from its first access on
  returns what \<^verbatim>\<open>getValue\<close>, \<^verbatim>\<open>isExist\<close> or \<^verbatim>\<open>getNext\<close> returns on the table at that moment.
\<close>

theorem quiet_reader_exact:
  assumes "typed_mrsw m" "m_isInit m" "\<forall>k\<ge>n. v k = slots (shm m)"
  shows "racy_getValue env v (nat (maxslots (shm m))) n key old =
      Some (fst (getValue env key old m), fst (snd (getValue env key old m))) \<and>
    racy_isExist v (nat (maxslots (shm m))) n key ex =
      Some (fst (isExist key ex m), fst (snd (isExist key ex m))) \<and>
    (case getNext env key old i m of (ec, tk, tv, i', m') \<Rightarrow>
      racy_getNext env v (nat (maxslots (shm m))) n key old i = Some (ec, tk, tv, i'))"
proof -
  obtain ec tk tv i' m' where g: "getNext env key old i m = (ec, tk, tv, i', m')" by (cases "getNext env key old i m")
  show ?thesis
    using quiet_getValue [OF assms] quiet_isExist [OF assms] quiet_getNext [OF assms(1,3) g] by (simp add: g)
qed

theorem quiet_reader_exact_witness:
  "racy_getValue sample_host (\<lambda>_. slots (shm small_mrsw)) 1 0 [1] [] =
    Some (fst (getValue sample_host [1] [] small_mrsw), fst (snd (getValue sample_host [1] [] small_mrsw)))"
  using quiet_reader_exact [OF small_typed, of 0 "\<lambda>_. slots (shm small_mrsw)" sample_host "[1]" "[]"]
    small_mrsw(2,3) typed_mrsw_length [OF small_typed] by (simp add: mrsw_inv_def mrsw_ok_def)

subsection \<open>Without a lock between processes\<close>

lemma one_slot_index:
  assumes "typed_mrsw m" "length (slots (shm m)) = 1" "getValue env key old m = (kOk, val, m')"
  shows "get_idx (shm m) key (bucket (shm m) key) = Some 0"
proof -
  have t: "typed_table (shm m)" "m_table m = Ptr" using assms(1) by (simp_all add: typed_mrsw_def)
  have "get_idx (shm m) key (bucket (shm m) key) \<noteq> None"
  proof
    assume "get_idx (shm m) key (bucket (shm m) key) = None"
    then show False using assms(3) t(2) by (auto simp: getValue_def qhasharr_get_def split: if_splits)
  qed
  then obtain i where i: "get_idx (shm m) key (bucket (shm m) key) = Some i" by blast
  then show ?thesis using get_idx_range [OF t(1) typed_bucket [OF t(1)] i] assms(2) by simp
qed

lemma small_set:
  assumes "mrsw_inv m" "m_isLruEliminate m" "length (slots (shm m)) = 1" "good_key key" "length val \<le> 4"
  shows "\<exists>m'. snd (setValue sample_host key val m) = m' \<and> mrsw_inv m' \<and> m_isLruEliminate m' \<and>
    length (slots (shm m')) = 1 \<and> getValue sample_host key old m' = (kOk, val, m')"
proof -
  have ok: "mrsw_ok m" and tr: "tracked m" and len: "length val < 2 ^ 32" using assms(1,5) by (simp_all add: mrsw_inv_def)
  obtain ec m' where s: "setValue sample_host key val m = (ec, m')" by (cases "setValue sample_host key val m")
  note ss = setValue_spec [OF ok assms(4) len mrsw_inv_load [OF assms(1)] s]
  have "ec \<in> {kOk, kErrSetSameValue}"
    using ss(6) [OF assms(2) tr] assms(3,5) by (simp add: length_encodeValueStr [OF len] slots_needed_def)
  then obtain raw where "table_map (shm m') (key_id (shm m') key) = Some raw" "verifyShmValue (e_little sample_host) raw = (kOk, val)"
    using ss(4) shrinksD(4) [OF ss(2)] by auto
  then have "getValue sample_host key old m' = (kOk, val, m')" using getValue_spec [OF ss(1) assms(4), of sample_host old] by simp
  moreover have "mrsw_inv m'" by (rule mrsw_inv_keep [OF assms(1) ss(1) ss(3) [OF tr] ss(2)])
  ultimately show ?thesis
    using s shrinksD(1,2) [OF ss(2)] assms(2,3) by (simp add: same_table_def)
qed

text \<open>
  C17: A string in a table does not carry its key, and the mutex of the class is not shared
  between processes: a reader that has found its key at an index, and is overtaken by calls
  that store another key at that index, returns the value of the other key as its own, with
  success.
\<close>

theorem overtaken_reader_other_key:
  assumes "typed_mrsw m" "m_isInit m" "key \<noteq> []" "key2 \<noteq> []"
    and "get_idx (shm m) key (bucket (shm m) key) = Some i"
    and "get_idx (shm (writer_run env calls m)) key2 (bucket (shm (writer_run env calls m)) key2) = Some i"
  shows "\<exists>n. racy_getValue env'
      (seen (writer_log env calls m) (slots (shm m)) (\<lambda>k. if k < n then 0 else length (writer_log env calls m)))
      (nat (maxslots (shm m))) 0 key old =
    Some (fst (getValue env' key2 old (writer_run env calls m)), fst (snd (getValue env' key2 old (writer_run env calls m))))"
proof -
  let ?m' = "writer_run env calls m" and ?log = "writer_log env calls m"
  note log = logged_writer [OF assms(1), of env calls]
  have m': "typed_mrsw ?m'" "m_isInit ?m'" using logged_call_typed [OF log assms(1)] log assms(2) by (auto simp: logged_call_def)
  have t: "typed_table (shm m)" "typed_table (shm ?m')" and ptr: "m_table ?m' = Ptr"
    using assms(1) m'(1) by (simp_all add: typed_mrsw_def)
  have slots: "slots (shm ?m') = replay ?log (slots (shm m))" using log by (simp add: logged_call_def logged_def)
  then have "length (slots (shm m)) = length (slots (shm ?m'))" by simp
  from overtaken_get [OF t this assms(5), of "e_alloc env'"] obtain n n' where
    n: "racy_get (e_alloc env') (\<lambda>k. if k < n then slots (shm m) else slots (shm ?m')) (length (slots (shm m))) 0 key =
      Some (fst (get_data (e_alloc env') (shm ?m') (Some i)), n')" by blast
  have "seen ?log (slots (shm m)) (\<lambda>k. if k < n then 0 else length ?log) =
      (\<lambda>k. if k < n then slots (shm m) else slots (shm ?m'))"
    by (auto simp: seen_def slots)
  moreover have "qhasharr_get (e_alloc env') Ptr (Some key2) (shm ?m') = get_data (e_alloc env') (shm ?m') (Some i)"
    using typed_tableD(1) [OF t(2)] assms(6) by (simp add: qhasharr_get_def)
  ultimately show ?thesis
    using n assms(3,4) m'(2) ptr typed_mrsw_length [OF assms(1)]
    by (intro exI [of _ n]) (auto simp: racy_getValue_def getValue_def split: prod.split option.split)
qed

theorem overtaken_reader_other_key_witness:
  "\<exists>f. racy_getValue sample_host
     (seen (writer_log sample_host [Set_value [2] [9]] (snd (setValue sample_host [1] [7] small_mrsw)))
       (slots (shm (snd (setValue sample_host [1] [7] small_mrsw)))) f) 1 0 [1] [] = Some (kOk, [9])"
proof -
  obtain m where m: "snd (setValue sample_host [1] [7] small_mrsw) = m" "mrsw_inv m" "m_isLruEliminate m"
    "length (slots (shm m)) = 1" "getValue sample_host [1] [] m = (kOk, [7], m)"
    using small_set [OF small_mrsw(2,4,3) sample_key(1), of "[7]" "[]"] by auto
  obtain m' where m': "snd (setValue sample_host [2] [9] m) = m'" "length (slots (shm m')) = 1"
    "getValue sample_host [2] [] m' = (kOk, [9], m')"
    using small_set [OF m(2-4) sample_key(2), of "[9]" "[]"] by auto
  have run: "writer_run sample_host [Set_value [2] [9]] m = m'" using m'(1) by (simp add: writer_run_def)
  have "m = writer_run sample_host [Set_value [1] [7]] small_mrsw" using m(1) by (simp add: writer_run_def)
  then have typed: "typed_mrsw m" using logged_call_typed [OF logged_writer [OF small_typed] small_typed] by simp
  then have typed': "typed_mrsw m'" using logged_call_typed [OF logged_writer [OF typed] typed] run by metis
  have "m_isInit m" using m(2) by (simp add: mrsw_inv_def mrsw_ok_def)
  from overtaken_reader_other_key [OF typed this _ _ one_slot_index [OF typed m(4,5)], of "[2]" sample_host
      "[Set_value [2] [9]]" sample_host "[]"]
  show ?thesis
    using one_slot_index [OF typed' m'(2,3)] m m' run typed_mrsw_length [OF typed] by auto
qed

text \<open>The same table, with its fields.\<close>

lemma small_one: "one_mrsw small_mrsw zero_slot" "usedslots (shm small_mrsw) = 0"
  by (simp_all add: small_mrsw_def MrswHashtable_init_def MrswHashtable_def Let_def fresh_services qhasharr_def
      qhasharr_calculate_memsize_def to_int32_def one_mrsw_def one_slot_def zero_slot_def uint_div)

lemma encode_two: "encodeValueStr True [a, b] = [2, 0, 0, 0, a, b, a, b]"
proof -
  have "to_le 4 (2 :: u32) = [2, 0, 0, 0]" by code_simp
  then show ?thesis by (simp add: encode_value value_code_def)
qed

text \<open>
  C18: The verification code does not detect every mixture of two values: a reader whose copy
  falls between the stores of a process that deletes a key and stores it again can return,
  with success, a value that was never stored, the first byte of the old one and the second
  of the new one.
\<close>

theorem torn_value_accepted:
  "let m = snd (setValue sample_host [1] [a, 0] small_mrsw);
       log = writer_log sample_host [Delete_key [1], Set_value [1] [c, 1]] m
   in \<exists>f. mono f \<and> racy_getValue sample_host (seen log (slots (shm m)) f) 1 0 [1] [] = Some (kOk, [a, 1])"
proof -
  define m where "m = snd (setValue sample_host [1] [a, 0] small_mrsw)"
  let ?S = "filled [1] [2, 0, 0, 0, a, 0, a, 0] zero_slot"
  have data: "length (s_data zero_slot) = DATASIZE" by (simp add: zero_slot_def)
  have m: "one_mrsw m ?S" "usedslots (shm m) = 1"
    using one_set(1,2) [OF small_one(1), of "[1]" sample_host "[a, 0]"] by (simp_all add: encode_two small_one(2) m_def)
  define d where "d = snd (deleteKey [1] m)"
  have d: "one_mrsw d (?S\<lparr>s_count := 0\<rparr>)" "usedslots (shm d) = 0" "deleteKey_log [1] m = [St_count 0 0]"
    using one_delete [OF m(1) data] m(2) by (simp_all add: d_def)
  have "setValue_log sample_host [1] [c, 1] d =
      put_key_log 0 0 [1] 1 @ bytes_log 0 0 [2, 0, 0, 0, c, 1, c, 1] @ [St_size 0 8]"
    using one_set(3) [OF d(1), of "[1]" sample_host "[c, 1]"] d(2) by (simp add: encode_two)
  then have log: "writer_log sample_host [Delete_key [1], Set_value [1] [c, 1]] m = renew_log [1] [2, 0, 0, 0, c, 1, c, 1]"
    using d(3) by (simp add: renew_log_def d_def)
  have slots: "slots (shm m) = [?S]" using m(1) by (simp add: one_mrsw_def one_slot_def)
  obtain f n where f: "mono f" "racy_get (\<lambda>_. True) (\<lambda>k. replay (take (f k) (renew_log [1] [2, 0, 0, 0, c, 1, c, 1])) [?S]) 1 0 [1] =
      Some (Some [2, 0, 0, 0, a, 1, a, 1], n)"
    using torn_copy [OF data, of "[1]" "[2, 0, 0, 0, a, 0, a, 0]" "[2, 0, 0, 0, c, 1, c, 1]" "\<lambda>_. True"] by auto
  have "verifyShmValue True [2, 0, 0, 0, a, 1, a, 1] = (kOk, [a, 1])"
    using verify_encode_rest [of "[a, 1]" True "[]"] by (simp add: encode_two)
  then have "racy_getValue sample_host (seen (renew_log [1] [2, 0, 0, 0, c, 1, c, 1]) [?S] f) 1 0 [1] [] = Some (kOk, [a, 1])"
    using f(2) by (simp add: racy_getValue_def seen_def)
  then show ?thesis using f(1) unfolding Let_def m_def [symmetric] log slots by blast
qed

end
