(* ===== verification/Atomic.thy ===== *)
theory Atomic
  imports Shm_Prelude
begin

text \<open>
  \<^verbatim>\<open>shmutil/atomic.h\<close>: the atomic integers, each operation one atomic step on the value. An
  operation returns its result and the new value; the builtins of gcc wrap around.
\<close>

definition atomic_get :: "'a::len word \<Rightarrow> 'a word \<times> 'a word" where
  "atomic_get v = (v, if v = 0 then 0 else v)"

definition getAndAdd :: "'a::len word \<Rightarrow> 'a word \<Rightarrow> 'a word \<times> 'a word" where
  "getAndAdd x v = (v, v + x)"

definition addAndGet :: "'a::len word \<Rightarrow> 'a word \<Rightarrow> 'a word \<times> 'a word" where
  "addAndGet x v = (case getAndAdd x v of (r, v') \<Rightarrow> (r + x, v'))"

definition incrementAndGet :: "'a::len word \<Rightarrow> 'a word \<times> 'a word" where
  "incrementAndGet v = addAndGet 1 v"

definition decrementAndGet :: "'a::len word \<Rightarrow> 'a word \<times> 'a word" where
  "decrementAndGet v = addAndGet (- 1) v"

definition atomic_add :: "'a::len word \<Rightarrow> 'a word \<Rightarrow> 'a word" where
  "atomic_add x v = snd (getAndAdd x v)"

definition increment :: "'a::len word \<Rightarrow> 'a word" where
  "increment v = snd (incrementAndGet v)"

definition decrement :: "'a::len word \<Rightarrow> 'a word" where
  "decrement v = snd (decrementAndGet v)"

definition getAndSet :: "'a::len word \<Rightarrow> 'a word \<Rightarrow> 'a word \<times> 'a word" where
  "getAndSet x v = (v, x)"

named_theorems atomic_simps "the atomic operations on the value"

lemma atomic_get [simp, atomic_simps]: "atomic_get v = (v, v)"
  by (simp add: atomic_get_def)

lemma addAndGet [simp, atomic_simps]: "addAndGet x v = (v + x, v + x)"
  by (simp add: addAndGet_def getAndAdd_def)

lemma increment [simp, atomic_simps]: "increment v = v + 1"
  by (simp add: increment_def incrementAndGet_def)

lemma decrement [simp, atomic_simps]: "decrement v = v - 1"
  by (simp add: decrement_def decrementAndGet_def)

lemma getAndSet [simp, atomic_simps]: "getAndSet x v = (v, x)"
  by (simp add: getAndSet_def)

end
