(* ===== verification/Mutex.thy ===== *)
theory Mutex
  imports Shm_Prelude
begin

text \<open>
  \<^verbatim>\<open>shmutil/current_thread.h\<close>, \<^verbatim>\<open>shmutil/current_thread.cc\<close> and \<^verbatim>\<open>shmutil/mutex.h\<close>: the
  cached thread id, the mutex that remembers its holder and the guard. The kernel's thread
  id is the field \<open>os_tid\<close>; the pthread mutex is the field \<open>owner\<close>, taken as POSIX
  documents it: locking waits until no thread owns it. The step relation interleaves the
  threads at the granularity of the code, the acquisition and the assignment of the holder
  being two steps.
\<close>

subsection \<open>The current thread\<close>

record thread_vars =
  os_tid :: int
  t_cachedTid :: int
  t_tidString :: bytes
  t_tidStringLength :: int

definition thread_init :: "int \<Rightarrow> thread_vars" where
  "thread_init n = \<lparr>os_tid = n, t_cachedTid = 0, t_tidString = [], t_tidStringLength = 6\<rparr>"

text \<open>\<^verbatim>\<open>"%5d "\<close>: right aligned in five columns and a space, cut to the buffer of 32.\<close>

definition print_tid :: "int \<Rightarrow> bytes" where
  "print_tid n = (let s = print_int n in replicate (5 - length s) 32 @ s @ [32])"

definition cacheTid :: "thread_vars \<Rightarrow> thread_vars" where
  "cacheTid t =
     (if t_cachedTid t = 0
      then t\<lparr>t_cachedTid := os_tid t, t_tidString := take 31 (print_tid (os_tid t)),
             t_tidStringLength := int (length (print_tid (os_tid t)))\<rparr>
      else t)"

definition tid :: "thread_vars \<Rightarrow> int \<times> thread_vars" where
  "tid t = (let t = (if t_cachedTid t = 0 then cacheTid t else t) in (t_cachedTid t, t))"

definition tidString :: "thread_vars \<Rightarrow> bytes" where
  "tidString t = t_tidString t"

definition tidStringLength :: "thread_vars \<Rightarrow> int" where
  "tidStringLength t = t_tidStringLength t"

definition isMainThread :: "int \<Rightarrow> thread_vars \<Rightarrow> bool \<times> thread_vars" where
  "isMainThread pid t = (case tid t of (n, t') \<Rightarrow> (n = pid, t'))"

text \<open>The cache is empty or holds the kernel's id.\<close>

definition cached_ok :: "thread_vars \<Rightarrow> bool" where
  "cached_ok t \<longleftrightarrow> t_cachedTid t = 0 \<or> t_cachedTid t = os_tid t"

lemma tid_cached:
  "cached_ok t \<Longrightarrow> fst (tid t) = os_tid t \<and> os_tid (snd (tid t)) = os_tid t \<and> cached_ok (snd (tid t))"
  by (auto simp: tid_def cacheTid_def cached_ok_def Let_def)

subsection \<open>The mutex\<close>

text \<open>Where a thread is: outside, inside \<^verbatim>\<open>lock\<close>, in its section, inside \<^verbatim>\<open>unlock\<close>.\<close>

datatype position = Outside | Acquired | Inside | Releasing

record mutex_sys =
  owner :: "nat option"
  holder :: int
  threads :: "nat \<Rightarrow> thread_vars"
  at :: "nat \<Rightarrow> position"

definition mutex_init :: "(nat \<Rightarrow> int) \<Rightarrow> mutex_sys" where
  "mutex_init ids = \<lparr>owner = None, holder = 0, threads = (\<lambda>i. thread_init (ids i)), at = (\<lambda>_. Outside)\<rparr>"

definition isLockedByThisThread :: "nat \<Rightarrow> mutex_sys \<Rightarrow> bool \<times> mutex_sys" where
  "isLockedByThisThread i s =
     (case tid (threads s i) of (n, t) \<Rightarrow> (holder s = n, s\<lparr>threads := (threads s)(i := t)\<rparr>))"

definition assignHolder :: "nat \<Rightarrow> mutex_sys \<Rightarrow> mutex_sys" where
  "assignHolder i s =
     (case tid (threads s i) of (n, t) \<Rightarrow> s\<lparr>holder := n, threads := (threads s)(i := t)\<rparr>)"

definition unassignHolder :: "mutex_sys \<Rightarrow> mutex_sys" where
  "unassignHolder s = s\<lparr>holder := 0\<rparr>"

definition goes :: "nat \<Rightarrow> position \<Rightarrow> mutex_sys \<Rightarrow> mutex_sys" where
  "goes i p s = s\<lparr>at := (at s)(i := p)\<rparr>"

text \<open>
  The two halves of \<^verbatim>\<open>lock\<close> and \<^verbatim>\<open>unlock\<close>; a guard runs \<^verbatim>\<open>lock\<close> in its constructor and
  \<^verbatim>\<open>unlock\<close> in its destructor. The constructor of an \<^verbatim>\<open>UnassignGuard\<close> is the step \<open>give_up\<close>,
  its destructor the step \<open>assign\<close>.
\<close>

inductive mutex_step :: "mutex_sys \<Rightarrow> mutex_sys \<Rightarrow> bool" where
  pthread_lock: "at s i = Outside \<Longrightarrow> owner s = None \<Longrightarrow>
     mutex_step s (goes i Acquired (s\<lparr>owner := Some i\<rparr>))"
| assign: "at s i = Acquired \<Longrightarrow> mutex_step s (goes i Inside (assignHolder i s))"
| ask: "at s i = Outside \<or> at s i = Inside \<Longrightarrow> mutex_step s (snd (isLockedByThisThread i s))"
| give_up: "at s i = Inside \<Longrightarrow> mutex_step s (goes i Acquired (unassignHolder s))"
| unassign: "at s i = Inside \<Longrightarrow> mutex_step s (goes i Releasing (unassignHolder s))"
| pthread_unlock: "at s i = Releasing \<Longrightarrow> mutex_step s (goes i Outside (s\<lparr>owner := None\<rparr>))"

inductive_cases mutex_stepE: "mutex_step s t"

text \<open>One call of \<^verbatim>\<open>lock\<close> or \<^verbatim>\<open>unlock\<close> that no other thread interrupts; \<open>None\<close> if it waits.\<close>

definition mutex_lock :: "nat \<Rightarrow> mutex_sys \<Rightarrow> mutex_sys option" where
  "mutex_lock i s =
     (if owner s = None then Some (goes i Inside (assignHolder i (s\<lparr>owner := Some i\<rparr>))) else None)"

definition mutex_unlock :: "nat \<Rightarrow> mutex_sys \<Rightarrow> mutex_sys" where
  "mutex_unlock i s = goes i Outside ((unassignHolder s)\<lparr>owner := None\<rparr>)"

definition guarded :: "nat \<Rightarrow> (mutex_sys \<Rightarrow> 'r \<times> mutex_sys) \<Rightarrow> mutex_sys \<Rightarrow> ('r \<times> mutex_sys) option" where
  "guarded i f s =
     (case mutex_lock i s of
        None \<Rightarrow> None
      | Some s \<Rightarrow> (case f s of (r, s) \<Rightarrow> Some (r, mutex_unlock i s)))"

text \<open>The assertion of a locked mutex and of the destructor; \<open>None\<close> if they abort.\<close>

definition assertLocked :: "nat \<Rightarrow> mutex_sys \<Rightarrow> mutex_sys option" where
  "assertLocked i s = (case isLockedByThisThread i s of (b, s) \<Rightarrow> if b then Some s else None)"

definition mutex_fini :: "mutex_sys \<Rightarrow> mutex_sys option" where
  "mutex_fini s = (if holder s = 0 then Some s else None)"

text \<open>What runs while an \<^verbatim>\<open>UnassignGuard\<close> lives: the thread owns the mutex without being its holder.\<close>

definition UnassignGuard :: "nat \<Rightarrow> (mutex_sys \<Rightarrow> 'r \<times> mutex_sys) \<Rightarrow> mutex_sys \<Rightarrow> 'r \<times> mutex_sys" where
  "UnassignGuard i f s =
     (case f (goes i Acquired (unassignHolder s)) of (r, s) \<Rightarrow> (r, goes i Inside (assignHolder i s)))"

subsection \<open>Invariant\<close>

definition mutex_inv :: "(nat \<Rightarrow> int) \<Rightarrow> mutex_sys \<Rightarrow> bool" where
  "mutex_inv ids s \<longleftrightarrow>
     (\<forall>i. os_tid (threads s i) = ids i \<and> cached_ok (threads s i)) \<and>
     (\<forall>i. owner s = Some i \<longleftrightarrow> at s i \<noteq> Outside) \<and>
     holder s = (case owner s of Some i \<Rightarrow> if at s i = Inside then ids i else 0 | None \<Rightarrow> 0)"

lemma mutex_inv_init: "mutex_inv ids (mutex_init ids)"
  by (simp add: mutex_inv_def mutex_init_def thread_init_def cached_ok_def)

lemma mutex_invD:
  assumes "mutex_inv ids s"
  shows "os_tid (threads s i) = ids i" "cached_ok (threads s i)"
    "owner s = Some i \<longleftrightarrow> at s i \<noteq> Outside"
    "holder s = (case owner s of Some i \<Rightarrow> if at s i = Inside then ids i else 0 | None \<Rightarrow> 0)"
  using assms unfolding mutex_inv_def by blast+

lemma mutex_inv_tid:
  assumes "mutex_inv ids s" "tid (threads s i) = (n, t')"
  shows "n = ids i" "os_tid t' = ids i" "cached_ok t'"
  using tid_cached [OF mutex_invD(2) [OF assms(1), of i]] mutex_invD(1) [OF assms(1), of i] assms(2)
  by auto

lemma mutex_invI:
  assumes "\<And>i. os_tid (threads s i) = ids i \<and> cached_ok (threads s i)"
    "\<And>i. owner s = Some i \<longleftrightarrow> at s i \<noteq> Outside"
    "holder s = (case owner s of Some i \<Rightarrow> if at s i = Inside then ids i else 0 | None \<Rightarrow> 0)"
  shows "mutex_inv ids s"
  using assms unfolding mutex_inv_def by blast

lemma mutex_inv_step:
  assumes inv: "mutex_inv ids s" and step: "mutex_step s t"
  shows "mutex_inv ids t"
  using step
proof cases
  case (pthread_lock i)
  then show ?thesis
    using mutex_invD [OF inv] by (intro mutex_invI) (simp_all add: goes_def)
next
  case (assign i)
  have own: "owner s = Some i" using mutex_invD(3) [OF inv, of i] assign by simp
  obtain n t' where t': "tid (threads s i) = (n, t')" by (cases "tid (threads s i)")
  have t: "t = goes i Inside (s\<lparr>holder := n, threads := (threads s)(i := t')\<rparr>)"
    by (simp add: assign(1) assignHolder_def t')
  show ?thesis
  proof (rule mutex_invI)
    show "os_tid (threads t j) = ids j \<and> cached_ok (threads t j)" for j
      using mutex_inv_tid [OF inv t'] mutex_invD(1,2) [OF inv, of j] by (simp add: t goes_def)
    show "owner t = Some j \<longleftrightarrow> at t j \<noteq> Outside" for j
      using own mutex_invD(3) [OF inv, of j] by (auto simp: t goes_def)
  qed (simp add: t goes_def own mutex_inv_tid(1) [OF inv t'])
next
  case (ask i)
  obtain n t' where t': "tid (threads s i) = (n, t')" by (cases "tid (threads s i)")
  have t: "t = s\<lparr>threads := (threads s)(i := t')\<rparr>"
    by (simp add: ask(1) isLockedByThisThread_def t')
  show ?thesis
  proof (rule mutex_invI)
    show "os_tid (threads t j) = ids j \<and> cached_ok (threads t j)" for j
      using mutex_inv_tid [OF inv t'] mutex_invD(1,2) [OF inv, of j] by (simp add: t)
    have fields: "owner t = owner s" "holder t = holder s" "at t = at s" by (simp_all add: t)
    show "owner t = Some j \<longleftrightarrow> at t j \<noteq> Outside" for j
      unfolding fields by (rule mutex_invD(3) [OF inv])
    show "holder t = (case owner t of Some i \<Rightarrow> if at t i = Inside then ids i else 0 | None \<Rightarrow> 0)"
      unfolding fields by (rule mutex_invD(4) [OF inv])
  qed
next
  case (give_up i)
  have own: "owner s = Some i" using mutex_invD(3) [OF inv, of i] give_up by simp
  show ?thesis
  proof (rule mutex_invI)
    show "owner t = Some j \<longleftrightarrow> at t j \<noteq> Outside" for j
      using own mutex_invD(3) [OF inv, of j] by (auto simp: give_up(1) goes_def unassignHolder_def)
  qed (use mutex_invD(1,2) [OF inv] own in \<open>simp_all add: give_up(1) goes_def unassignHolder_def\<close>)
next
  case (unassign i)
  have own: "owner s = Some i" using mutex_invD(3) [OF inv, of i] unassign by simp
  show ?thesis
  proof (rule mutex_invI)
    show "owner t = Some j \<longleftrightarrow> at t j \<noteq> Outside" for j
      using own mutex_invD(3) [OF inv, of j] by (auto simp: unassign(1) goes_def unassignHolder_def)
  qed (use mutex_invD(1,2) [OF inv] own in \<open>simp_all add: unassign(1) goes_def unassignHolder_def\<close>)
next
  case (pthread_unlock i)
  have own: "owner s = Some i" using mutex_invD(3) [OF inv, of i] pthread_unlock by simp
  show ?thesis
  proof (rule mutex_invI)
    show "owner t = Some j \<longleftrightarrow> at t j \<noteq> Outside" for j
      using own mutex_invD(3) [OF inv, of j] by (auto simp: pthread_unlock(1) goes_def)
    show "holder t = (case owner t of Some i \<Rightarrow> if at t i = Inside then ids i else 0 | None \<Rightarrow> 0)"
      using mutex_invD(4) [OF inv] own pthread_unlock(2) by (simp add: pthread_unlock(1) goes_def)
  qed (use mutex_invD(1,2) [OF inv] in \<open>simp_all add: pthread_unlock(1) goes_def\<close>)
qed

text \<open>A section in which the holder is given up for a while is a part of the step relation.\<close>

lemma UnassignGuard_steps:
  assumes "at s i = Inside" "\<And>t. at t i = Acquired \<Longrightarrow> mutex_step\<^sup>*\<^sup>* t (snd (f t)) \<and> at (snd (f t)) i = Acquired"
  shows "mutex_step\<^sup>*\<^sup>* s (snd (UnassignGuard i f s))"
proof -
  let ?t = "goes i Acquired (unassignHolder s)"
  have "mutex_step s ?t" by (rule give_up [OF assms(1)])
  moreover have "mutex_step\<^sup>*\<^sup>* ?t (snd (f ?t))" "at (snd (f ?t)) i = Acquired"
    using assms(2) [of ?t] by (simp_all add: goes_def)
  ultimately have "mutex_step\<^sup>*\<^sup>* s (snd (f ?t))" "mutex_step (snd (f ?t)) (goes i Inside (assignHolder i (snd (f ?t))))"
    by (simp_all add: converse_rtranclp_into_rtranclp assign)
  then have "mutex_step\<^sup>*\<^sup>* s (goes i Inside (assignHolder i (snd (f ?t))))" by (rule rtranclp.rtrancl_into_rtrancl)
  then show ?thesis by (simp add: UnassignGuard_def split_beta)
qed

lemma mutex_inv_reachable:
  "mutex_step\<^sup>*\<^sup>* (mutex_init ids) s \<Longrightarrow> mutex_inv ids s"
  by (induction rule: rtranclp_induct) (auto intro: mutex_inv_init mutex_inv_step)

end
