(* ===== verification/Base_Props.thy ===== *)
theory Base_Props
  imports Codec Lru Atomic Mutex
begin

text \<open>
  The properties of the small components: the length codec of \<^verbatim>\<open>shmutil/common.h\<close>, the
  recency list of \<^verbatim>\<open>shmutil/simple_lru.h\<close>, the mutex of \<^verbatim>\<open>shmutil/mutex.h\<close> with the thread id
  of \<^verbatim>\<open>shmutil/current_thread.h\<close>.
\<close>

text \<open>
  C19: The branches for little-endian and big-endian hosts store the same four bytes and
  read the same length, and a stored length is read back, in a buffer of at least four bytes.
\<close>

theorem codec_branches_agree:
  assumes "4 \<le> length buf"
  shows "encodeValueLen False buf len = encodeValueLen True buf len \<and>
    decodeValueLen False buf = decodeValueLen True buf \<and>
    decodeValueLen e (encodeValueLen e' buf len) = len \<and>
    drop 4 (encodeValueLen e buf len) = drop 4 buf"
  using encode_branches [OF assms] decode_branches [OF assms] decode_encode [OF assms]
    encodeValueLen_bytes [OF assms, of e len] by auto

theorem codec_branches_agree_witness:
  "decodeValueLen False (encodeValueLen True [0, 0, 0, 0, 9] 305419896) = 305419896"
  using codec_branches_agree [of "[0, 0, 0, 0, 9]" 305419896 False True] by simp

subsection \<open>Recency\<close>

lemma rev_remdups_snoc: "rev (remdups (ks @ [k])) = k # remove1 k (rev (remdups ks))"
proof -
  have "remdups (ks @ [k]) = removeAll k (remdups ks) @ [k]"
    by (induction ks) auto
  then show ?thesis
    by (simp add: distinct_remove1_removeAll removeAll_filter_not_eq rev_filter)
qed

lemma visits_recency:
  "lru_ok (fold visitKey ks SimpleLru) \<and> lru_keys (fold visitKey ks SimpleLru) = rev (remdups ks)"
  by (induction ks rule: rev_induct) (simp_all add: lru_init visitKey_ok visitKey_keys rev_remdups_snoc del: remdups.simps)

text \<open>
  C20: After any sequence of visits the list holds every visited key once, the one visited
  last in front; the key offered for removal is the one whose last visit is the oldest, and
  its removal leaves the order of the others.
\<close>

theorem lru_oldest_visit:
  "lru_keys (fold visitKey ks SimpleLru) = rev (remdups ks) \<and>
   getRemoveKey (fold visitKey ks SimpleLru) = (if ks = [] then [] else hd (remdups ks)) \<and>
   (case removeKey (fold visitKey ks SimpleLru) of
      None \<Rightarrow> ks = []
    | Some (k, s) \<Rightarrow> ks \<noteq> [] \<and> k = hd (remdups ks) \<and> lru_keys s = rev (tl (remdups ks)) \<and> lru_ok s)"
proof -
  let ?s = "fold visitKey ks SimpleLru"
  have ok: "lru_ok ?s" and keys: "lru_keys ?s = rev (remdups ks)" using visits_recency [of ks] by auto
  show ?thesis
  proof (cases "ks = []")
    case True
    then show ?thesis using keys
      by (simp add: getRemoveKey_last lru_init removeKey_def SimpleLru_def)
  next
    case False
    then have ne: "lru_keys ?s \<noteq> []" by (simp add: keys)
    have "butlast (rev (remdups ks)) = rev (tl (remdups ks))" by (metis butlast_rev)
    then show ?thesis
      using removeKey_keys [OF ok ne] False by (auto simp: keys getRemoveKey_last last_rev)
  qed
qed

subsection \<open>The mutex\<close>

text \<open>
  C21: In every reachable state at most one thread is between the acquisition and the release
  of the mutex, a thread is told that it holds the lock exactly when it is inside its
  section (its assertion then passes), a free mutex has no holder, and the destructor's
  assertion passes exactly while no thread is inside; the kernel's thread ids are distinct
  and positive.
\<close>

theorem mutex_exclusion:
  assumes "inj ids" "\<And>i. 0 < ids i" "mutex_step\<^sup>*\<^sup>* (mutex_init ids) s"
  shows "(i = j \<or> at s i = Outside \<or> at s j = Outside) \<and>
    (fst (isLockedByThisThread i s) \<longleftrightarrow> at s i = Inside) \<and>
    (assertLocked i s \<noteq> None \<longleftrightarrow> at s i = Inside) \<and> (owner s \<noteq> None \<or> holder s = 0) \<and>
    (mutex_fini s = None \<longleftrightarrow> (\<exists>k. at s k = Inside))"
proof -
  note inv = mutex_inv_reachable [OF assms(3)]
  note D = mutex_invD [OF inv]
  have "i = j \<or> at s i = Outside \<or> at s j = Outside" using D(3) [of i] D(3) [of j] by auto
  moreover have "fst (isLockedByThisThread i s) \<longleftrightarrow> holder s = ids i"
    using mutex_inv_tid(1) [OF inv prod.collapse [symmetric], of i]
    by (cases "tid (threads s i)") (simp add: isLockedByThisThread_def)
  moreover have "holder s = ids i \<longleftrightarrow> at s i = Inside"
  proof (cases "owner s")
    case None
    then show ?thesis using D(3) [of i] D(4) assms(2) [of i] by auto
  next
    case (Some k)
    then show ?thesis
      using D(3) [of i] D(4) assms(2) [of i] injD [OF assms(1), of k i] by (auto split: if_splits)
  qed
  moreover have "owner s \<noteq> None \<or> holder s = 0" using D(4) by (cases "owner s") auto
  moreover have "assertLocked i s \<noteq> None \<longleftrightarrow> fst (isLockedByThisThread i s)"
    by (simp add: assertLocked_def split: prod.split)
  moreover have "holder s = 0 \<longleftrightarrow> \<not> (\<exists>k. at s k = Inside)"
  proof (cases "owner s")
    case None
    then have "at s k = Outside" for k using D(3) [of k] by simp
    then show ?thesis using None D(4) by simp
  next
    case (Some m)
    then have "at s k = Inside \<Longrightarrow> k = m" for k using D(3) [of k] by auto
    then have "(\<exists>k. at s k = Inside) \<longleftrightarrow> at s m = Inside" by blast
    moreover have "ids m \<noteq> 0" using assms(2) [of m] by simp
    ultimately show ?thesis using Some D(4) by simp
  qed
  ultimately show ?thesis by (auto simp: mutex_fini_def)
qed

theorem mutex_exclusion_witness:
  "\<exists>s. mutex_step\<^sup>*\<^sup>* (mutex_init (\<lambda>i. int i + 100)) s \<and> fst (isLockedByThisThread 0 s) \<and>
    \<not> fst (isLockedByThisThread 1 s)"
proof -
  let ?s0 = "mutex_init (\<lambda>i. int i + 100)"
  let ?s1 = "goes 0 Acquired (?s0\<lparr>owner := Some 0\<rparr>)"
  let ?s2 = "goes 0 Inside (assignHolder 0 ?s1)"
  have "mutex_step ?s0 ?s1" by (rule pthread_lock) (simp_all add: mutex_init_def)
  moreover have "mutex_step ?s1 ?s2" by (rule assign) (simp add: goes_def)
  ultimately have r: "mutex_step\<^sup>*\<^sup>* ?s0 ?s2" by simp
  have at: "at ?s2 0 = Inside" "at ?s2 1 \<noteq> Inside"
    by (simp_all add: goes_def assignHolder_def mutex_init_def split: prod.split)
  have "inj (\<lambda>i. int i + 100)" by (rule injI) simp
  then have "fst (isLockedByThisThread i ?s2) \<longleftrightarrow> at ?s2 i = Inside" for i
    using mutex_exclusion [OF _ _ r, of i i] by simp
  with at r show ?thesis by blast
qed

end
