(* ===== verification/Msg_Queue.thy ===== *)
theory Msg_Queue
  imports Codec Atomic "HOL-Library.Monad_Syntax"
begin

text \<open>
  \<^verbatim>\<open>shmutil/shm_msg_queue.cc\<close>: the message queue in a ring buffer in shared memory. \<open>mq_seg\<close> is
  the segment (the counters, the two positions, the process id, the block), \<open>shm_mq\<close> an
  attached object. Accesses behind the end of a buffer are \<open>None\<close>. The bytes of a word are
  those of a little-endian host, which the split \<^verbatim>\<open>SPPX\<close> of the code supposes. System calls are
  parameters: \<^verbatim>\<open>getpid\<close> and \<^verbatim>\<open>kill\<close> in \<open>proc_env\<close>, \<^verbatim>\<open>shmget\<close> and \<^verbatim>\<open>shmat\<close> in \<open>mq_services\<close>.
\<close>

abbreviation MSG_HEAD_SIZE :: u32 where "MSG_HEAD_SIZE \<equiv> 4"
abbreviation MSG_MAGIC_NUM_LEN :: u32 where "MSG_MAGIC_NUM_LEN \<equiv> 4"

definition MSG_MAGIC_NUM :: u32 where "MSG_MAGIC_NUM = 0x58505053"

subsection \<open>Checked memory accesses\<close>

definition mem_write :: "nat \<Rightarrow> bytes \<Rightarrow> bytes \<Rightarrow> bytes option" where
  "mem_write off src dst = (if off + length src \<le> length dst then Some (blit off src dst) else None)"

definition mem_load :: "nat \<Rightarrow> nat \<Rightarrow> bytes \<Rightarrow> bytes option" where
  "mem_load off n src = (if off + n \<le> length src then Some (mem_read off n src) else None)"

subsection \<open>State\<close>

record mq_seg =
  msgCount :: u32
  processCount :: u32
  q_head :: u32
  q_tail :: u32
  q_pid :: u32
  block :: bytes

record shm_mq =
  shmKey :: u32
  shmSize :: u32
  shmId :: u32
  pstat :: ptr
  blockSize :: u32
  isInit :: bool
  seg :: mq_seg

record MQStat =
  usedLen :: u32
  freeLen :: u32
  totalLen :: u32
  st_shmKey :: u32
  st_shmId :: u32
  st_shmSize :: u32

record proc_env =
  getpid :: u32
  kill0 :: "u32 \<Rightarrow> errno option"

record mq_services =
  mq_create :: "u32 \<Rightarrow> u32 \<Rightarrow> errno + u32"
  mq_open :: "u32 \<Rightarrow> u32 option"
  mq_attach :: "u32 \<Rightarrow> mq_seg option"

text \<open>While no segment is attached, \<open>seg\<close> is not used.\<close>

definition ShmMQ :: shm_mq where
  "ShmMQ = \<lparr>shmKey = 0, shmSize = 0, shmId = 0, pstat = NULL, blockSize = 0, isInit = False,
     seg = \<lparr>msgCount = 0, processCount = 0, q_head = 0, q_tail = 0, q_pid = 0, block = []\<rparr>\<rparr>"

abbreviation upd_seg :: "(mq_seg \<Rightarrow> mq_seg) \<Rightarrow> shm_mq \<Rightarrow> shm_mq" where
  "upd_seg f q \<equiv> q\<lparr>seg := f (seg q)\<rparr>"

subsection \<open>Opening\<close>

text \<open>The segment attached, or \<^verbatim>\<open>shmat\<close> failed.\<close>

definition attach_id :: "mq_services \<Rightarrow> u32 \<Rightarrow> shm_mq \<Rightarrow> ErrorCode \<times> shm_mq" where
  "attach_id svc i q =
     (let q = q\<lparr>shmId := i\<rparr>
      in case mq_attach svc i of
           Some s \<Rightarrow> (kOk, q\<lparr>pstat := Ptr, seg := s\<rparr>)
         | None \<Rightarrow> (kErrShmAt, q))"

definition getmemory :: "mq_services \<Rightarrow> u32 \<Rightarrow> u32 \<Rightarrow> shm_mq \<Rightarrow> ErrorCode \<times> bool \<times> shm_mq" where
  "getmemory svc key sz q =
     (case mq_create svc key (sz + 8) of
        Inl e \<Rightarrow>
          if e = EEXIST
          then case mq_open svc key of
                 None \<Rightarrow> (kErrShmGet, False, q\<lparr>shmId := - 1\<rparr>)
               | Some i \<Rightarrow> (case attach_id svc i q of (ret, q) \<Rightarrow> (ret, False, q))
          else (kErrShmGet, False, q\<lparr>shmId := - 1\<rparr>)
      | Inr i \<Rightarrow> (case attach_id svc i q of (ret, q) \<Rightarrow> (ret, True, q)))"

definition mq_fini :: "shm_mq \<Rightarrow> shm_mq" where
  "mq_fini q = (if pstat q = Ptr then q\<lparr>pstat := NULL, isInit := False\<rparr> else q\<lparr>isInit := False\<rparr>)"

definition mq_init :: "mq_services \<Rightarrow> u32 \<Rightarrow> u32 \<Rightarrow> shm_mq \<Rightarrow> ErrorCode \<times> shm_mq" where
  "mq_init svc key sz q =
     (let q = (mq_fini q)\<lparr>shmKey := key, shmSize := sz\<rparr>
      in case getmemory svc (shmKey q) (shmSize q) q of
           (ret, isCreate, q) \<Rightarrow>
             if ret \<noteq> kOk then (ret, q)
             else let q = (if isCreate then upd_seg (\<lambda>s. s\<lparr>q_head := 0, q_tail := 0\<rparr>) q else q);
                      q = q\<lparr>blockSize := shmSize q - 4 * 2 - 4\<rparr>;
                      q = upd_seg (\<lambda>s. s\<lparr>q_pid := 0\<rparr>) q
                  in (kOk, q\<lparr>isInit := True\<rparr>))"

subsection \<open>Statistics\<close>

definition getstat :: "shm_mq \<Rightarrow> ErrorCode \<times> MQStat option" where
  "getstat q =
     (if \<not> isInit q then (kErrShmNotInit, None)
      else let head = q_head (seg q);
               tail = q_tail (seg q)
           in (kOk, Some \<lparr>usedLen = (if tail \<ge> head then tail - head else tail + blockSize q - head),
                          freeLen = (if head > tail then head - tail else head + blockSize q - tail),
                          totalLen = blockSize q, st_shmKey = shmKey q, st_shmId = shmId q,
                          st_shmSize = shmSize q\<rparr>))"

definition isEmpty :: "bool \<Rightarrow> shm_mq \<Rightarrow> ErrorCode \<times> bool" where
  "isEmpty b q =
     (if \<not> isInit q then (kErrShmNotInit, b) else (kOk, fst (atomic_get (msgCount (seg q))) = 0))"

definition getMsgCount :: "int \<Rightarrow> shm_mq \<Rightarrow> ErrorCode \<times> int" where
  "getMsgCount count q =
     (if \<not> isInit q then (kErrShmNotInit, count) else (kOk, sint (fst (atomic_get (msgCount (seg q))))))"

subsection \<open>Clearing and checking\<close>

definition clearMQ :: "proc_env \<Rightarrow> shm_mq \<Rightarrow> ErrorCode \<times> shm_mq" where
  "clearMQ env q =
     (if \<not> isInit q then (kErrShmNotInit, q)
      else let q = upd_seg (\<lambda>s. s\<lparr>q_pid := getpid env\<rparr>) q;
               q = upd_seg (\<lambda>s. s\<lparr>q_head := 0\<rparr>) q;
               q = upd_seg (\<lambda>s. s\<lparr>q_tail := 0\<rparr>) q;
               q = upd_seg (\<lambda>s. s\<lparr>msgCount := snd (getAndSet 0 (msgCount s))\<rparr>) q;
               q = upd_seg (\<lambda>s. s\<lparr>q_pid := 0\<rparr>) q
           in (kOk, q))"

definition mq_check :: "proc_env \<Rightarrow> u32 \<Rightarrow> u32 \<Rightarrow> shm_mq \<Rightarrow> bool \<times> shm_mq" where
  "mq_check env head tail q =
     (if head \<le> blockSize q \<and> tail \<le> blockSize q then (True, q)
      else let isNeedClear = q_pid (seg q) = 0 \<or> \<not> checkProcExist (kill0 env) (q_pid (seg q))
           in (False, if isNeedClear then snd (clearMQ env q) else q))"

subsection \<open>enqueue\<close>

text \<open>The eight bytes in front of the data.\<close>

definition msg_head :: "u32 \<Rightarrow> bytes" where
  "msg_head msgLen = to_le 4 MSG_MAGIC_NUM @ to_le 4 msgLen"

text \<open>The trailing magic number split by hand over the end of the block.\<close>

definition split_magic :: "u32 \<Rightarrow> u64 \<Rightarrow> bytes \<Rightarrow> bytes option" where
  "split_magic bs secondLen b =
     (if secondLen = 3 then do {
        b \<leftarrow> mem_write (unat (bs - 1)) [0x53] b;
        b \<leftarrow> mem_write 0 [0x50] b;
        b \<leftarrow> mem_write 1 [0x50] b;
        mem_write 2 [0x58] b
      }
      else if secondLen = 2 then do {
        b \<leftarrow> mem_write (unat (bs - 2)) [0x53] b;
        b \<leftarrow> mem_write (unat (bs - 1)) [0x50] b;
        b \<leftarrow> mem_write 0 [0x50] b;
        mem_write 1 [0x58] b
      }
      else if secondLen = 1 then do {
        b \<leftarrow> mem_write (unat (bs - 3)) [0x53] b;
        b \<leftarrow> mem_write (unat (bs - 2)) [0x50] b;
        b \<leftarrow> mem_write (unat (bs - 1)) [0x50] b;
        mem_write 0 [0x58] b
      }
      else Some b)"

text \<open>
  The three placements of a message: in one piece, with the data split, with the head split.
  The result is the block and the new position of the tail. The signed computation of the
  new tail in the second placement has the bits of the unsigned one.
\<close>

definition place_msg :: "bytes \<Rightarrow> u32 \<Rightarrow> u32 \<Rightarrow> u32 \<Rightarrow> bytes \<Rightarrow> (bytes \<times> u32) option" where
  "place_msg data dataLen bs tail b =
     (let tailLen = bs - tail;
          msgLen = dataLen + MSG_HEAD_SIZE + 2 * MSG_MAGIC_NUM_LEN;
          sHead = msg_head msgLen
      in if tailLen \<ge> msgLen then do {
           b \<leftarrow> mem_write (unat tail) sHead b;
           d \<leftarrow> mem_load 0 (unat dataLen) data;
           b \<leftarrow> mem_write (unat tail + 8) d b;
           b \<leftarrow> mem_write (unat tail + 8 + unat dataLen) (to_le 4 MSG_MAGIC_NUM) b;
           Some (b, tail + (dataLen + MSG_HEAD_SIZE + MSG_MAGIC_NUM_LEN * 2))
         }
         else if tailLen \<ge> MSG_HEAD_SIZE + MSG_MAGIC_NUM_LEN \<and>
           tailLen < MSG_HEAD_SIZE + 2 * MSG_MAGIC_NUM_LEN + dataLen then do {
           b \<leftarrow> mem_write (unat tail) sHead b;
           let firstLen = (ucast (tailLen - MSG_MAGIC_NUM_LEN - MSG_HEAD_SIZE) :: u64);
           let secondLen = ucast (dataLen + MSG_MAGIC_NUM_LEN) - firstLen;
           b \<leftarrow> (if secondLen \<ge> 4 then do {
                   d \<leftarrow> mem_load 0 (unat firstLen) data;
                   b \<leftarrow> mem_write (unat tail + 8) d b;
                   d \<leftarrow> mem_load (unat firstLen) (unat (secondLen - 4)) data;
                   b \<leftarrow> mem_write 0 d b;
                   mem_write (unat (secondLen - 4)) (to_le 4 MSG_MAGIC_NUM) b
                 }
                 else do {
                   d \<leftarrow> mem_load 0 (unat (firstLen - 4 + secondLen)) data;
                   b \<leftarrow> mem_write (unat tail + 8) d b;
                   split_magic bs secondLen b
                 });
           Some (b, tail + (msgLen - bs))
         }
         else do {
           d \<leftarrow> mem_load 0 (unat tailLen) sHead;
           b \<leftarrow> mem_write (unat tail) d b;
           let secondLen = MSG_MAGIC_NUM_LEN + MSG_HEAD_SIZE - tailLen;
           d \<leftarrow> mem_load (unat tailLen) (unat secondLen) sHead;
           b \<leftarrow> mem_write 0 d b;
           d \<leftarrow> mem_load 0 (unat dataLen) data;
           b \<leftarrow> mem_write (unat secondLen) d b;
           b \<leftarrow> mem_write (unat secondLen + unat dataLen) (to_le 4 MSG_MAGIC_NUM) b;
           Some (b, secondLen + dataLen + MSG_MAGIC_NUM_LEN)
         })"

text \<open>The free bytes between the tail and the head.\<close>

definition free_len :: "u32 \<Rightarrow> u32 \<Rightarrow> u32 \<Rightarrow> u32" where
  "free_len bs head tail = (if head > tail then head - tail else head + bs - tail)"

definition enqueue :: "proc_env \<Rightarrow> bytes \<Rightarrow> u32 \<Rightarrow> shm_mq \<Rightarrow> (ErrorCode \<times> shm_mq) option" where
  "enqueue env data dataLen q =
     (if \<not> isInit q then Some (kErrShmNotInit, q)
      else let head = q_head (seg q);
               tail = q_tail (seg q)
           in case mq_check env head tail q of
                (False, q) \<Rightarrow> Some (kErrDataMess, q)
              | (True, q) \<Rightarrow>
                  let msgLen = dataLen + MSG_HEAD_SIZE + 2 * MSG_MAGIC_NUM_LEN
                  in if free_len (blockSize q) head tail \<le> msgLen then Some (kErrNotEnoughSpace, q)
                     else do {
                       (b, tail) \<leftarrow> place_msg data dataLen (blockSize q) tail (block (seg q));
                       let q = upd_seg (\<lambda>s. s\<lparr>block := b, q_tail := tail\<rparr>) q;
                       Some (kOk, upd_seg (\<lambda>s. s\<lparr>msgCount := increment (msgCount s)\<rparr>) q)
                     })"

subsection \<open>dequeue\<close>

text \<open>The eight bytes at the head, and the position behind them.\<close>

definition take_head :: "u32 \<Rightarrow> u32 \<Rightarrow> bytes \<Rightarrow> (bytes \<times> u32) option" where
  "take_head bs head b =
     (if head + MSG_MAGIC_NUM_LEN + MSG_HEAD_SIZE > bs then do {
        let firstSize = bs - head;
        let secondSize = MSG_MAGIC_NUM_LEN + MSG_HEAD_SIZE - firstSize;
        h1 \<leftarrow> mem_load (unat head) (unat firstSize) b;
        h2 \<leftarrow> mem_load 0 (unat secondSize) b;
        Some (h1 @ h2, secondSize)
      }
      else do {
        h \<leftarrow> mem_load (unat head) 8 b;
        Some (h, head + (MSG_HEAD_SIZE + MSG_MAGIC_NUM_LEN))
      })"

text \<open>The data and the trailing magic number copied to the buffer, and the new head.\<close>

definition take_data :: "u32 \<Rightarrow> u32 \<Rightarrow> u32 \<Rightarrow> bytes \<Rightarrow> bytes \<Rightarrow> (bytes \<times> u32) option" where
  "take_data bs head dataLen b buf =
     (if head + dataLen > bs then do {
        let firstSize = bs - head;
        let secondSize = dataLen - firstSize;
        d \<leftarrow> mem_load (unat head) (unat firstSize) b;
        buf \<leftarrow> mem_write 0 d buf;
        d \<leftarrow> mem_load 0 (unat secondSize) b;
        buf \<leftarrow> mem_write (unat firstSize) d buf;
        Some (buf, secondSize)
      }
      else do {
        d \<leftarrow> mem_load (unat head) (unat dataLen) b;
        buf \<leftarrow> mem_write 0 d buf;
        Some (buf, head + dataLen)
      })"

text \<open>A damaged queue is cleared, by the check or here.\<close>

definition drop_all :: "proc_env \<Rightarrow> shm_mq \<Rightarrow> shm_mq" where
  "drop_all env q =
     (case mq_check env (q_head (seg q)) (q_tail (seg q)) q of
        (True, q) \<Rightarrow> snd (clearMQ env q)
      | (False, q) \<Rightarrow> q)"

definition used_len :: "u32 \<Rightarrow> u32 \<Rightarrow> u32 \<Rightarrow> u32" where
  "used_len bs head tail = (if tail > head then tail - head else tail + bs - head)"

definition dequeue ::
    "proc_env \<Rightarrow> bytes \<Rightarrow> u32 \<Rightarrow> u32 \<Rightarrow> shm_mq \<Rightarrow> (ErrorCode \<times> u32 \<times> bytes \<times> shm_mq) option" where
  "dequeue env buf bufSize dataLen q =
     (if \<not> isInit q then Some (kErrShmNotInit, dataLen, buf, q)
      else let head = q_head (seg q);
               tail = q_tail (seg q)
           in case mq_check env head tail q of
                (False, q) \<Rightarrow> Some (kErrDataMess, 0, buf, q)
              | (True, q) \<Rightarrow>
                  if head = tail then Some (kErrShmMQEmpty, 0, buf, q)
                  else do {
                    let q = upd_seg (\<lambda>s. s\<lparr>msgCount := decrement (msgCount s)\<rparr>) q;
                    let used = used_len (blockSize q) head tail;
                    (sHead, head) \<leftarrow> take_head (blockSize q) head (block (seg q));
                    let msgLen = (of_le (mem_read 4 4 sHead) :: u32);
                    if of_le (mem_read 0 4 sHead) \<noteq> MSG_MAGIC_NUM
                    then Some (kErrDataMess, 0, buf, drop_all env q)
                    else if msgLen > used then Some (kErrDataMess, 0, buf, drop_all env q)
                    else do {
                      let dataLen = msgLen - MSG_HEAD_SIZE - MSG_MAGIC_NUM_LEN;
                      if dataLen > bufSize then Some (kErrInputBufNotEnoughSpace, dataLen, buf, q)
                      else do {
                        (buf, head) \<leftarrow> take_data (blockSize q) head dataLen (block (seg q)) buf;
                        let q = upd_seg (\<lambda>s. s\<lparr>q_head := head\<rparr>) q;
                        let dataLen = dataLen - MSG_MAGIC_NUM_LEN;
                        magic \<leftarrow> mem_load (unat dataLen) 4 buf;
                        if of_le magic \<noteq> MSG_MAGIC_NUM
                        then Some (kErrDataMess, 0, buf, drop_all env q)
                        else Some (kOk, dataLen, buf,
                          upd_seg (\<lambda>s. s\<lparr>processCount := increment (processCount s)\<rparr>) q)
                      }
                    }
                  })"

end
