(* ===== verification/Msg_Ring.thy ===== *)
theory Msg_Ring
  imports Msg_Queue
begin

text \<open>
  The ring behind the message queue: writing a byte string at a position wraps around at the
  end of the block, reading likewise. The three placements of the code, the hand-split magic
  number included, are one such write, and the two copies of \<^verbatim>\<open>dequeue\<close> are such reads.
\<close>

subsection \<open>Reference operations\<close>

definition ring_write :: "nat \<Rightarrow> 'a list \<Rightarrow> 'a list \<Rightarrow> 'a list" where
  "ring_write t d b = blit 0 (drop (length b - t) d) (blit t (take (length b - t) d) b)"

definition ring_read :: "nat \<Rightarrow> nat \<Rightarrow> 'a list \<Rightarrow> 'a list" where
  "ring_read h n b = take n (drop h b) @ take (n - (length b - h)) b"

definition ring_pos :: "nat \<Rightarrow> nat \<Rightarrow> nat \<Rightarrow> nat" where
  "ring_pos bs h n = (if h + n > bs then h + n - bs else h + n)"

definition frame :: "bytes \<Rightarrow> bytes" where
  "frame d = msg_head (of_nat (length d + 12)) @ d @ to_le 4 MSG_MAGIC_NUM"

lemma length_msg_head [simp]: "length (msg_head n) = 8"
  by (simp add: msg_head_def)

lemma length_frame [simp]: "length (frame d) = length d + 12"
  by (simp add: frame_def)

lemma length_ring_write [simp]:
  assumes "t \<le> length b" "length d \<le> length b"
  shows "length (ring_write t d b) = length b"
proof -
  have "length (blit t (take (length b - t) d) b) = length b" using assms by (intro length_blit) simp
  then show ?thesis using assms by (simp add: ring_write_def)
qed

lemma length_ring_read [simp]:
  "h \<le> length b \<Longrightarrow> n \<le> length b \<Longrightarrow> length (ring_read h n b) = n"
  by (auto simp: ring_read_def min_def)

lemma ring_pos_le: "h \<le> bs \<Longrightarrow> n \<le> bs \<Longrightarrow> ring_pos bs h n \<le> bs"
  by (auto simp: ring_pos_def)

lemma ring_pos_add:
  "h \<le> bs \<Longrightarrow> m + n \<le> bs \<Longrightarrow> ring_pos bs (ring_pos bs h m) n = ring_pos bs h (m + n)"
  by (auto simp: ring_pos_def)

text \<open>The place in the block of the byte \<open>i\<close> places behind \<open>h\<close>.\<close>

definition ring_index :: "nat \<Rightarrow> nat \<Rightarrow> nat \<Rightarrow> nat" where
  "ring_index bs h i = (if h + i < bs then h + i else h + i - bs)"

lemma nth_ring_read:
  "h \<le> length b \<Longrightarrow> n \<le> length b \<Longrightarrow> i < n \<Longrightarrow> ring_read h n b ! i = b ! ring_index (length b) h i"
  by (auto simp: ring_read_def ring_index_def nth_append min_def add.commute)

lemma nth_ring_write:
  assumes "t \<le> length b" "length d \<le> length b" "j < length b"
  shows "ring_write t d b ! j =
    (if j < t + length d - length b then d ! (j + (length b - t))
     else if t \<le> j \<and> j < t + length d then d ! (j - t) else b ! j)"
proof -
  have "length (take (length b - t) d) = min (length b - t) (length d)" by simp
  then have w: "t + length (take (length b - t) d) \<le> length b" using assms by simp
  have "ring_write t d b ! j =
      (if j < length d - (length b - t) then drop (length b - t) d ! j
       else blit t (take (length b - t) d) b ! j)"
    unfolding ring_write_def
    using assms w nth_blit [of 0 "drop (length b - t) d" "blit t (take (length b - t) d) b" j] by simp
  moreover have "length d - (length b - t) = t + length d - length b" using assms(1) by simp
  moreover have "drop (length b - t) d ! j = d ! (j + (length b - t))" if "j < length d - (length b - t)"
    using that by (simp add: add.commute)
  moreover have "blit t (take (length b - t) d) b ! j = (if t \<le> j \<and> j < t + length d then d ! (j - t) else b ! j)"
    using nth_blit [OF w assms(3)] assms by auto
  ultimately show ?thesis by simp
qed

text \<open>A write behind the content extends what is read; a read of a prefix is a prefix.\<close>

lemma ring_read_write:
  assumes "h \<le> length b" "n + length d \<le> length b" "t = ring_pos (length b) h n"
  shows "ring_read h (n + length d) (ring_write t d b) = ring_read h n b @ d"
proof (rule nth_equalityI)
  have t: "t \<le> length b" unfolding assms(3) by (rule ring_pos_le) (use assms in simp_all)
  have len: "length (ring_write t d b) = length b" using t assms(2) by simp
  show "length (ring_read h (n + length d) (ring_write t d b)) = length (ring_read h n b @ d)"
    using assms len by simp
  fix i assume "i < length (ring_read h (n + length d) (ring_write t d b))"
  then have i: "i < n + length d" using assms len by simp
  define j where "j = ring_index (length b) h i"
  have j: "j < length b" using i assms(1,2) by (auto simp: j_def ring_index_def)
  have lhs: "ring_read h (n + length d) (ring_write t d b) ! i = ring_write t d b ! j"
    using nth_ring_read [of h "ring_write t d b" "n + length d" i] assms(1,2) i len by (simp add: j_def)
  have w: "ring_write t d b ! j =
    (if j < t + length d - length b then d ! (j + (length b - t))
     else if t \<le> j \<and> j < t + length d then d ! (j - t) else b ! j)"
    by (rule nth_ring_write [OF t _ j]) (use assms(2) in simp)
  show "ring_read h (n + length d) (ring_write t d b) ! i = (ring_read h n b @ d) ! i"
  proof (cases "i < n")
    case True
    then have "\<not> j < t + length d - length b" "\<not> (t \<le> j \<and> j < t + length d)"
      using assms by (auto simp: j_def ring_index_def ring_pos_def split: if_splits)
    then have "ring_write t d b ! j = b ! j" using w by (simp only: if_False)
    then show ?thesis
      using True assms(1,2) lhs nth_ring_read [of h b n i] by (simp add: nth_append j_def)
  next
    case False
    have "ring_write t d b ! j = d ! (i - n)"
    proof (cases "j < t + length d - length b")
      case True
      have "j + (length b - t) = i - n"
        using True False i assms by (auto simp: j_def ring_index_def ring_pos_def split: if_splits)
      with True show ?thesis by (simp add: w)
    next
      case nw: False
      have "t \<le> j" "j < t + length d" "j - t = i - n"
        using nw False i assms by (auto simp: j_def ring_index_def ring_pos_def split: if_splits)
      with nw show ?thesis by (simp add: w)
    qed
    then show ?thesis using False assms(1,2) lhs by (simp add: nth_append)
  qed
qed

lemma ring_read_prefix:
  assumes "h \<le> length b" "n \<le> length b" "m \<le> n"
  shows "ring_read h m b = take m (ring_read h n b)"
  by (rule nth_equalityI) (use assms in \<open>simp_all add: nth_ring_read\<close>)

lemma ring_read_suffix:
  assumes "h \<le> length b" "m + n \<le> length b"
  shows "ring_read (ring_pos (length b) h m) n b = drop m (ring_read h (m + n) b)"
proof (rule nth_equalityI)
  have p: "ring_pos (length b) h m \<le> length b" by (rule ring_pos_le) (use assms in simp_all)
  then show "length (ring_read (ring_pos (length b) h m) n b) = length (drop m (ring_read h (m + n) b))"
    using assms by simp
  fix i assume "i < length (ring_read (ring_pos (length b) h m) n b)"
  then have i: "i < n" using p assms by simp
  have "ring_index (length b) (ring_pos (length b) h m) i = ring_index (length b) h (m + i)"
    using assms i by (auto simp: ring_index_def ring_pos_def)
  then show "ring_read (ring_pos (length b) h m) n b ! i = drop m (ring_read h (m + n) b) ! i"
    using i p assms by (simp add: nth_ring_read)
qed

subsection \<open>Writes in pieces\<close>

text \<open>A sequence of checked writes side by side is one checked write.\<close>

lemma mem_write_append:
  assumes "off + length x + length y \<le> length b" "off' = off + length x"
  shows "Option.bind (mem_write off x b) (\<lambda>b. Option.bind (mem_write off' y b) f) =
    Option.bind (mem_write off (x @ y) b) f"
  using assms blit_append [OF assms(1)] by (simp add: mem_write_def)

lemma mem_write_append2:
  assumes "off + length x + length y \<le> length b" "off' = off + length x"
  shows "Option.bind (mem_write off x b) (mem_write off' y) = mem_write off (x @ y) b"
  using mem_write_append [OF assms, of Some] by simp

lemma mem_write_ok: "off + length x \<le> length b \<Longrightarrow> mem_write off x b = Some (blit off x b)"
  by (simp add: mem_write_def)

lemma mem_load_ok: "off + n \<le> length b \<Longrightarrow> mem_load off n b = Some (take n (drop off b))"
  by (simp add: mem_load_def mem_read_def)

lemma magic_bytes: "to_le 4 MSG_MAGIC_NUM = [0x53, 0x50, 0x50, 0x58]"
  by code_simp

end
