(* ===== verification/Msg_Place.thy ===== *)
theory Msg_Place
  imports Msg_Ring
begin

text \<open>
  The placement of a message by \<^verbatim>\<open>enqueue\<close>: in one piece, with the head split, with the data or
  the trailing magic number split. Each is the same single write around the ring.
\<close>

subsection \<open>Word arithmetic of the positions\<close>

lemma msg_len_word:
  "dataLen + MSG_HEAD_SIZE + 2 * MSG_MAGIC_NUM_LEN = dataLen + 12"
  "MSG_HEAD_SIZE + 2 * MSG_MAGIC_NUM_LEN + dataLen = dataLen + 12"
  "dataLen + (MSG_HEAD_SIZE + MSG_MAGIC_NUM_LEN * 2) = dataLen + 12"
  "dataLen + MSG_HEAD_SIZE + MSG_MAGIC_NUM_LEN * 2 = dataLen + 12"
  by simp_all

lemma unat_plus: "unat x + unat y < 2 ^ 32 \<Longrightarrow> unat (x + y :: u32) = unat x + unat y"
  by (simp add: unat_word_ariths)

lemma unat_minus: "y \<le> x \<Longrightarrow> unat (x - y :: u32) = unat x - unat y"
  by (simp add: unat_sub)

lemma unat_u64: "unat (ucast (x :: u32) :: u64) = unat x"
proof -
  have "unat x < 2 ^ 64" using unsigned_less [of x] by (rule less_le_trans) simp
  then show ?thesis by (simp add: unsigned_ucast_eq take_bit_nat_eq_self)
qed

lemma unat_minus64: "y \<le> x \<Longrightarrow> unat (x - y :: u64) = unat x - unat y"
  by (simp add: unat_sub)

lemma unat_plus64: "unat x + unat y < 2 ^ 64 \<Longrightarrow> unat (x + y :: u64) = unat x + unat y"
  by (simp add: unat_word_ariths)

lemma place_one:
  assumes d: "length data = unat dataLen" and b: "length b = unat bs" and t: "unat tail + (unat dataLen + 12) \<le> unat bs"
    "unat bs < 2 ^ 31"
  shows "place_msg data dataLen bs tail b = Some (ring_write (unat tail) (frame data) b, tail + (dataLen + 12))"
proof -
  have m: "unat (dataLen + 12) = unat dataLen + 12" using t by (subst unat_plus) simp_all
  have le: "tail \<le> bs" using t by (simp add: word_le_nat_alt)
  have c: "bs - tail \<ge> dataLen + 12" using t m unat_minus [OF le] by (simp add: word_le_nat_alt)
  have f: "frame data = msg_head (dataLen + 12) @ data @ to_le 4 MSG_MAGIC_NUM"
    using d by (simp add: frame_def)
  have w: "ring_write (unat tail) (frame data) b = blit (unat tail) (frame data) b"
    using t b d by (simp add: ring_write_def)
  have "place_msg data dataLen bs tail b = Option.bind (mem_write (unat tail) (frame data) b)
      (\<lambda>b. Some (b, tail + (dataLen + 12)))"
    unfolding place_msg_def msg_len_word Let_def if_P [OF c]
    using t b d by (simp add: mem_load_ok mem_write_append f del: Option.bind_eq_Some_conv)
  then show ?thesis using t b d by (simp add: mem_write_ok w)
qed

lemma place_head:
  assumes d: "length data = unat dataLen" and b: "length b = unat bs" and t: "tail \<le> bs" "unat bs < unat tail + 8"
    "unat bs < unat tail + (unat dataLen + 12)"
    "unat dataLen + 12 \<le> unat bs" "unat bs < 2 ^ 31"
  shows "place_msg data dataLen bs tail b = Some (ring_write (unat tail) (frame data) b, tail + (dataLen + 12) - bs)"
proof -
  define room where "room = unat bs - unat tail"
  have room: "unat (bs - tail) = room" "room < 8" "unat tail + room = length b"
    using t unat_minus [OF t(1)] b by (simp_all add: room_def word_le_nat_alt)
  have m: "unat (dataLen + 12) = unat dataLen + 12" using t by (subst unat_plus) simp_all
  have c: "\<not> bs - tail \<ge> dataLen + 12" "\<not> (bs - tail \<ge> MSG_HEAD_SIZE + MSG_MAGIC_NUM_LEN \<and> bs - tail < dataLen + 12)"
    using room t m by (simp_all add: word_le_nat_alt room_def)
  have s: "unat (8 - (bs - tail)) = 8 - room"
    using room by (subst unat_minus) (simp_all add: word_le_nat_alt)
  have s': "MSG_MAGIC_NUM_LEN + MSG_HEAD_SIZE - (bs - tail) = 8 - (bs - tail)" by simp
  define sHead where "sHead = msg_head (dataLen + 12)"
  have f: "frame data = sHead @ data @ to_le 4 MSG_MAGIC_NUM"
    using d by (simp add: frame_def sHead_def)
  have len: "length sHead = 8" by (simp add: sHead_def)
  let ?b = "blit (unat tail) (take room sHead) b"
  have lb: "length ?b = length b" using room len by (intro length_blit) simp
  have w: "ring_write (unat tail) (frame data) b = blit 0 (drop room sHead @ data @ to_le 4 MSG_MAGIC_NUM) ?b"
    using room b len by (simp add: ring_write_def f room_def)
  have "place_msg data dataLen bs tail b =
      Option.bind (mem_write (unat tail) (take room sHead) b) (\<lambda>b.
      Option.bind (mem_write 0 (drop room sHead) b) (\<lambda>b.
      Option.bind (mem_write (8 - room) data b) (\<lambda>b.
      Option.bind (mem_write (8 - room + unat dataLen) (to_le 4 MSG_MAGIC_NUM) b) (\<lambda>b.
      Some (b, 8 - (bs - tail) + dataLen + MSG_MAGIC_NUM_LEN)))))"
    unfolding place_msg_def msg_len_word Let_def if_not_P [OF c(1)] if_not_P [OF c(2)] s' s room(1)
      sHead_def [symmetric]
    using room(2) len d by (simp add: mem_load_ok)
  also have "mem_write (unat tail) (take room sHead) b = Some ?b"
    using room len by (intro mem_write_ok) simp
  also have "Option.bind (Some ?b) (\<lambda>b.
      Option.bind (mem_write 0 (drop room sHead) b) (\<lambda>b.
      Option.bind (mem_write (8 - room) data b) (\<lambda>b.
      Option.bind (mem_write (8 - room + unat dataLen) (to_le 4 MSG_MAGIC_NUM) b) (\<lambda>b.
      Some (b, 8 - (bs - tail) + dataLen + MSG_MAGIC_NUM_LEN))))) =
      Option.bind (mem_write 0 (drop room sHead @ data @ to_le 4 MSG_MAGIC_NUM) ?b)
        (\<lambda>b. Some (b, 8 - (bs - tail) + dataLen + MSG_MAGIC_NUM_LEN))"
    unfolding Option.bind.bind_lunit using room len d t b by (simp add: mem_write_append lb)
  also have "\<dots> = Some (ring_write (unat tail) (frame data) b, tail + (dataLen + 12) - bs)"
    using t b d len room by (simp add: mem_write_ok lb w algebra_simps)
  finally show ?thesis .
qed

text \<open>The hand-split magic number is the magic number.\<close>

lemma split_magic_ring:
  assumes k: "unat secondLen = k" "1 \<le> k" "k \<le> 3" and b: "length b = unat bs" "4 \<le> unat bs" "p = unat bs - (4 - k)"
  shows "Option.bind (mem_write off d b) (split_magic bs secondLen) =
    Option.bind (mem_write off d b) (\<lambda>b. Option.bind (mem_write p (take (4 - k) (to_le 4 MSG_MAGIC_NUM)) b)
      (mem_write 0 (drop (4 - k) (to_le 4 MSG_MAGIC_NUM))))"
proof (rule Option.bind_cong [OF refl])
  fix b' assume "mem_write off d b = Some b'"
  then have b': "length b' = unat bs" using b(1) by (auto simp: mem_write_def split: if_splits)
  have sub: "unat (bs - i) = unat bs - unat i" if "unat i \<le> 3" for i :: u32
    using that b(2) by (intro unat_minus) (simp add: word_le_nat_alt)
  note two = blit_append [of 0 "[80]" "[88]"] blit_append [of 0 "[80]" "[80]"]
    blit_append [of _ "[83]" "[80]"] blit_append [of _ "[83, 80]" "[80]"]
  note three = blit_append [of 0 "[80, 80]" "[88]", simplified, folded numeral_2_eq_2]
  obtain q where q: "unat bs = q + 3" using b(2) that [of "unat bs - 3"] by simp
  consider "k = 1" | "k = 2" | "k = 3" using k by linarith
  then show "split_magic bs secondLen b' = Option.bind (mem_write p (take (4 - k) (to_le 4 MSG_MAGIC_NUM)) b')
      (mem_write 0 (drop (4 - k) (to_le 4 MSG_MAGIC_NUM)))"
  proof cases
    case 1
    then have "secondLen = 1" using k(1) by (simp add: word_unat_eq_iff)
    then show ?thesis
      using 1 b b' by (simp add: split_magic_def sub magic_bytes mem_write_def q two [simplified] three)
  next
    case 2
    then have "secondLen = 2" using k(1) by (simp add: word_unat_eq_iff)
    then show ?thesis
      using 2 b b' by (simp add: split_magic_def sub magic_bytes mem_write_def q two [simplified] three)
  next
    case 3
    then have "secondLen = 3" using k(1) by (simp add: word_unat_eq_iff)
    then show ?thesis
      using 3 b b' by (simp add: split_magic_def sub magic_bytes mem_write_def q two [simplified] three)
  qed
qed

text \<open>The data split with the whole magic number behind it, or the magic number itself split.\<close>

abbreviation magic :: bytes where
  "magic \<equiv> to_le 4 MSG_MAGIC_NUM"

lemma split_far:
  assumes len: "length sHead = 8" "length data = n" and room: "8 \<le> room" "room \<le> n + 8" "t + room = length b" "n + 12 \<le> length b"
  shows "Option.bind (mem_write t sHead b) (\<lambda>b. Option.bind (mem_write (t + 8) (take (room - 8) data) b)
      (\<lambda>b. Option.bind (mem_write 0 (drop (room - 8) data) b) (mem_write (n + 12 - room - 4) magic))) =
    Option.bind (mem_write t (take room (sHead @ data @ magic)) b) (mem_write 0 (drop room (sHead @ data @ magic)))"
proof -
  have k: "n + 12 - room - 4 = 0 + length (drop (room - 8) data)" using room len by simp
  have parts: "take room (sHead @ data @ magic) = sHead @ take (room - 8) data"
    "drop room (sHead @ data @ magic) = drop (room - 8) data @ magic"
    using room len by simp_all
  have "Option.bind (mem_write t sHead b) (\<lambda>b. Option.bind (mem_write (t + 8) (take (room - 8) data) b)
      (\<lambda>b. Option.bind (mem_write 0 (drop (room - 8) data) b) (mem_write (n + 12 - room - 4) magic))) =
    Option.bind (mem_write t (sHead @ take (room - 8) data) b)
      (\<lambda>b. Option.bind (mem_write 0 (drop (room - 8) data) b) (mem_write (n + 12 - room - 4) magic))"
    using len room by (intro mem_write_append) simp_all
  also have "\<dots> = Option.bind (mem_write t (sHead @ take (room - 8) data) b) (mem_write 0 (drop (room - 8) data @ magic))"
  proof (rule Option.bind_cong [OF refl])
    fix b' assume "mem_write t (sHead @ take (room - 8) data) b = Some b'"
    then have "length b' = length b" by (auto simp: mem_write_def split: if_splits)
    then show "Option.bind (mem_write 0 (drop (room - 8) data) b') (mem_write (n + 12 - room - 4) magic) =
        mem_write 0 (drop (room - 8) data @ magic) b'"
      using len room k by (intro mem_write_append2) simp_all
  qed
  finally show ?thesis unfolding parts .
qed

lemma split_near:
  assumes len: "length sHead = 8" "length data = n" and k: "unat sl = k" "1 \<le> k" "k \<le> 3" "t + (n + 12 - k) = length b"
    and b: "n + 12 \<le> length b" "length b = unat bs"
  shows "Option.bind (mem_write t sHead b) (\<lambda>b. Option.bind (mem_write (t + 8) data b) (split_magic bs sl)) =
    Option.bind (mem_write t (take (n + 12 - k) (sHead @ data @ magic)) b)
      (mem_write 0 (drop (n + 12 - k) (sHead @ data @ magic)))"
proof -
  have parts: "take (n + 12 - k) (sHead @ data @ magic) = (sHead @ data) @ take (4 - k) magic"
    "drop (n + 12 - k) (sHead @ data @ magic) = drop (4 - k) magic"
    using k len by simp_all
  have "Option.bind (mem_write t sHead b) (\<lambda>b. Option.bind (mem_write (t + 8) data b) (split_magic bs sl)) =
      Option.bind (mem_write t (sHead @ data) b) (split_magic bs sl)"
    using len k by (intro mem_write_append) simp_all
  also have "\<dots> = Option.bind (mem_write t (sHead @ data) b) (\<lambda>b.
      Option.bind (mem_write (unat bs - (4 - k)) (take (4 - k) magic) b) (mem_write 0 (drop (4 - k) magic)))"
    using b by (intro split_magic_ring [OF k(1-3)]) simp_all
  also have "\<dots> = Option.bind (mem_write t ((sHead @ data) @ take (4 - k) magic) b) (mem_write 0 (drop (4 - k) magic))"
    using len k b by (intro mem_write_append) simp_all
  finally show ?thesis unfolding parts .
qed

lemma place_data:
  assumes d: "length data = unat dataLen" and b: "length b = unat bs" and t: "tail \<le> bs" "unat tail + 8 \<le> unat bs"
    "unat bs < unat tail + (unat dataLen + 12)"
    "unat dataLen + 12 \<le> unat bs" "unat bs < 2 ^ 31"
  shows "place_msg data dataLen bs tail b = Some (ring_write (unat tail) (frame data) b, tail + (dataLen + 12) - bs)"
proof -
  define room where "room = unat bs - unat tail"
  define n where "n = unat dataLen"
  have room: "unat (bs - tail) = room" "8 \<le> room" "unat tail + room = length b" "room < n + 12" "n + 12 \<le> length b"
    using t unat_minus [OF t(1)] b by (simp_all add: room_def word_le_nat_alt n_def)
  have m: "unat (dataLen + 12) = n + 12" using t by (subst unat_plus) (simp_all add: n_def)
  have c: "\<not> bs - tail \<ge> dataLen + 12" "bs - tail \<ge> MSG_HEAD_SIZE + MSG_MAGIC_NUM_LEN \<and> bs - tail < dataLen + 12"
    using room m by (simp_all add: word_le_nat_alt word_less_nat_alt)
  define fl :: u64 where "fl = ucast (bs - tail - MSG_MAGIC_NUM_LEN - MSG_HEAD_SIZE)"
  define sl :: u64 where "sl = ucast (dataLen + MSG_MAGIC_NUM_LEN) - fl"
  have "unat (bs - tail - MSG_MAGIC_NUM_LEN) = room - 4"
    using room by (subst unat_minus) (simp_all add: word_le_nat_alt)
  then have "unat (bs - tail - MSG_MAGIC_NUM_LEN - MSG_HEAD_SIZE) = room - 8"
    using room by (subst unat_minus) (simp_all add: word_le_nat_alt)
  then have fl: "unat fl = room - 8" by (simp add: fl_def unat_u64)
  have "unat (dataLen + MSG_MAGIC_NUM_LEN) = n + 4" using t by (subst unat_plus) (simp_all add: n_def)
  then have sl: "unat sl = n + 12 - room"
    unfolding sl_def using room fl by (subst unat_minus64) (simp_all add: word_le_nat_alt unat_u64)
  have sl4: "unat (sl - 4) = n + 12 - room - 4" if "sl \<ge> 4"
    using that sl by (subst unat_minus64) (simp_all add: word_le_nat_alt)
  define sHead where "sHead = msg_head (dataLen + 12)"
  have f: "frame data = sHead @ data @ to_le 4 MSG_MAGIC_NUM"
    using d by (simp add: frame_def sHead_def)
  have len: "length sHead = 8" "length data = n" by (simp_all add: sHead_def d n_def)
  define body where "body b = (if sl \<ge> 4 then do {
                   d \<leftarrow> mem_load 0 (unat fl) data;
                   b \<leftarrow> mem_write (unat tail + 8) d b;
                   d \<leftarrow> mem_load (unat fl) (unat (sl - 4)) data;
                   b \<leftarrow> mem_write 0 d b;
                   mem_write (unat (sl - 4)) (to_le 4 MSG_MAGIC_NUM) b
                 }
                 else do {
                   d \<leftarrow> mem_load 0 (unat (fl - 4 + sl)) data;
                   b \<leftarrow> mem_write (unat tail + 8) d b;
                   split_magic bs sl b
                 })" for b
  have code: "place_msg data dataLen bs tail b =
      Option.bind (mem_write (unat tail) sHead b) (\<lambda>b. Option.bind (body b) (\<lambda>b. Some (b, tail + (dataLen + 12 - bs))))"
    unfolding place_msg_def msg_len_word Let_def if_not_P [OF c(1)] if_P [OF c(2)]
      sHead_def [symmetric] fl_def [symmetric] sl_def [symmetric] body_def ..
  let ?F = "frame data"
  have "Option.bind (mem_write (unat tail) sHead b) body =
      Option.bind (mem_write (unat tail) (take room ?F) b) (mem_write 0 (drop room ?F))"
  proof (cases "sl \<ge> 4")
    case True
    then have k: "room - 8 + (n + 12 - room - 4) = n" "room \<le> n + 8" using sl room by (simp_all add: word_le_nat_alt)
    have "body = (\<lambda>b. Option.bind (mem_write (unat tail + 8) (take (room - 8) data) b)
        (\<lambda>b. Option.bind (mem_write 0 (drop (room - 8) data) b) (mem_write (n + 12 - room - 4) magic)))"
      using True k len by (simp add: body_def [abs_def] fl sl4 mem_load_ok)
    then show ?thesis unfolding f using split_far [OF len room(2) k(2) room(3,5)] by simp
  next
    case False
    then have k: "1 \<le> n + 12 - room" "n + 12 - room \<le> 3" "n + 12 - (n + 12 - room) = room"
      using sl room by (simp_all add: word_le_nat_alt)
    have e: "fl - 4 + sl = (sl + fl) - 4" by simp
    have "unat (sl + fl) = n + 4" using sl fl room b t by (subst unat_plus64) (simp_all add: n_def)
    moreover from this have "(4 :: u64) \<le> sl + fl" by (simp add: word_le_nat_alt)
    then have "unat (sl + fl - 4) = unat (sl + fl) - 4" by (subst unat_minus64) simp_all
    ultimately have fs: "unat (fl - 4 + sl) = n" unfolding e by linarith
    have "body = (\<lambda>b. Option.bind (mem_write (unat tail + 8) data b) (split_magic bs sl))"
      using False len by (simp add: body_def [abs_def] fs mem_load_ok)
    then show ?thesis
      unfolding f using split_near [OF len sl k(1,2) _ room(5) b, of "unat tail"] k(3) room(3) by simp
  qed
  moreover have "Option.bind (mem_write (unat tail) (take room ?F) b) (mem_write 0 (drop room ?F)) =
      Some (ring_write (unat tail) ?F b)"
  proof -
    have "length (blit (unat tail) (take room ?F) b) = length b" using room len by (intro length_blit) simp
    then show ?thesis
      using room b len by (simp add: mem_write_def ring_write_def room_def)
  qed
  ultimately have "Option.bind (Option.bind (mem_write (unat tail) sHead b) body)
      (\<lambda>b. Some (b, tail + (dataLen + 12 - bs))) = Some (ring_write (unat tail) ?F b, tail + (dataLen + 12 - bs))"
    by simp
  then show ?thesis unfolding code by (simp add: Option.bind_assoc algebra_simps)
qed

text \<open>Every placement is one write around the ring.\<close>

lemma place_msg_ring:
  assumes "length data = unat dataLen" "length b = unat bs" "tail \<le> bs"
    "unat dataLen + 12 \<le> unat bs" "unat bs < 2 ^ 31"
  shows "place_msg data dataLen bs tail b = Some (ring_write (unat tail) (frame data) b,
    of_nat (ring_pos (unat bs) (unat tail) (length data + 12)))"
proof -
  let ?n = "unat tail + (unat dataLen + 12)"
  have one: "of_nat ?n = tail + (dataLen + 12)" by simp
  show ?thesis
  proof (cases "?n \<le> unat bs")
    case True
    then show ?thesis
      using place_one [OF assms(1,2) True assms(5)] assms(1) one by (simp add: ring_pos_def)
  next
    case False
    then have "(of_nat (?n - unat bs) :: u32) = of_nat ?n - of_nat (unat bs)" by (intro of_nat_diff) simp
    then have pos: "(of_nat (ring_pos (unat bs) (unat tail) (length data + 12)) :: u32) = tail + (dataLen + 12) - bs"
      using False assms(1) unfolding one by (simp add: ring_pos_def)
    show ?thesis
    proof (cases "unat bs < unat tail + 8")
      case True
      then show ?thesis
        using place_head [OF assms(1-3) True _ assms(4,5)] False pos by simp
    next
      case nh: False
      then show ?thesis
        using place_data [OF assms(1-3) _ _ assms(4,5)] False pos by simp
    qed
  qed
qed

end
