(* ===== verification/Msg_Clients.thy ===== *)
theory Msg_Clients
  imports Msg_Queue
begin

text \<open>
  The producers and consumers of \<^verbatim>\<open>shmutil/shm_msg_queue.cc\<close>, without and with a lock file.
  The derived classes are record extensions. \<open>lock_env\<close> holds the system calls \<^verbatim>\<open>open\<close> (a
  descriptor) and \<^verbatim>\<open>flock(fd, LOCK_EX)\<close> (whether it returned 0); the queue operation between
  the lock and the unlock is one step.
\<close>

record lock_env =
  open_file :: "bytes \<Rightarrow> int"
  flock_ex :: "int \<Rightarrow> bool"

subsection \<open>Without a lock\<close>

record ShmMQProducer =
  p_mq :: "shm_mq option"

record ShmMQComsumer =
  c_mq :: "shm_mq option"

definition producer_new :: ShmMQProducer where "producer_new = \<lparr>p_mq = None\<rparr>"
definition comsumer_new :: ShmMQComsumer where "comsumer_new = \<lparr>c_mq = None\<rparr>"

definition producer_fini :: "'a ShmMQProducer_scheme \<Rightarrow> 'a ShmMQProducer_scheme" where
  "producer_fini p = (if p_mq p \<noteq> None then p\<lparr>p_mq := None\<rparr> else p)"

definition producer_init ::
    "mq_services \<Rightarrow> u32 \<Rightarrow> u32 \<Rightarrow> 'a ShmMQProducer_scheme \<Rightarrow> ErrorCode \<times> 'a ShmMQProducer_scheme" where
  "producer_init svc key sz p =
     (let p = producer_fini p
      in case mq_init svc key sz ShmMQ of (ret, q) \<Rightarrow> (ret, p\<lparr>p_mq := Some q\<rparr>))"

definition producer_clearMQ ::
    "proc_env \<Rightarrow> 'a ShmMQProducer_scheme \<Rightarrow> ErrorCode \<times> 'a ShmMQProducer_scheme" where
  "producer_clearMQ env p =
     (case p_mq p of
        None \<Rightarrow> (kErrShmNotInit, p)
      | Some q \<Rightarrow> (case clearMQ env q of (ret, q) \<Rightarrow> (ret, p\<lparr>p_mq := Some q\<rparr>)))"

definition produce ::
    "proc_env \<Rightarrow> bytes \<Rightarrow> u32 \<Rightarrow> 'a ShmMQProducer_scheme \<Rightarrow> (ErrorCode \<times> 'a ShmMQProducer_scheme) option" where
  "produce env data dataLen p =
     (case p_mq p of
        None \<Rightarrow> Some (kErrShmNotInit, p)
      | Some q \<Rightarrow> do {
          (ret, q) \<leftarrow> enqueue env data dataLen q;
          Some (ret, p\<lparr>p_mq := Some q\<rparr>)
        })"

definition producer_getstat :: "'a ShmMQProducer_scheme \<Rightarrow> ErrorCode \<times> MQStat option" where
  "producer_getstat p = (case p_mq p of None \<Rightarrow> (kErrShmNotInit, None) | Some q \<Rightarrow> getstat q)"

definition comsumer_fini :: "'a ShmMQComsumer_scheme \<Rightarrow> 'a ShmMQComsumer_scheme" where
  "comsumer_fini c = (if c_mq c \<noteq> None then c\<lparr>c_mq := None\<rparr> else c)"

definition comsumer_init ::
    "mq_services \<Rightarrow> u32 \<Rightarrow> u32 \<Rightarrow> 'a ShmMQComsumer_scheme \<Rightarrow> ErrorCode \<times> 'a ShmMQComsumer_scheme" where
  "comsumer_init svc key sz c =
     (let c = comsumer_fini c
      in case mq_init svc key sz ShmMQ of (ret, q) \<Rightarrow> (ret, c\<lparr>c_mq := Some q\<rparr>))"

definition comsumer_clearMQ ::
    "proc_env \<Rightarrow> 'a ShmMQComsumer_scheme \<Rightarrow> ErrorCode \<times> 'a ShmMQComsumer_scheme" where
  "comsumer_clearMQ env c =
     (case c_mq c of
        None \<Rightarrow> (kErrShmNotInit, c)
      | Some q \<Rightarrow> (case clearMQ env q of (ret, q) \<Rightarrow> (ret, c\<lparr>c_mq := Some q\<rparr>)))"

definition comsume ::
    "proc_env \<Rightarrow> bytes \<Rightarrow> u32 \<Rightarrow> u32 \<Rightarrow> 'a ShmMQComsumer_scheme \<Rightarrow>
     (ErrorCode \<times> u32 \<times> bytes \<times> 'a ShmMQComsumer_scheme) option" where
  "comsume env buf bufSize dataLen c =
     (case c_mq c of
        None \<Rightarrow> Some (kErrShmNotInit, dataLen, buf, c)
      | Some q \<Rightarrow>
          (case isEmpty False q of
             (ret, isE) \<Rightarrow>
               if ret = kOk \<and> isE then Some (kErrShmMQEmpty, dataLen, buf, c)
               else do {
                 (ret, dataLen, buf, q) \<leftarrow> dequeue env buf bufSize dataLen q;
                 Some (ret, dataLen, buf, c\<lparr>c_mq := Some q\<rparr>)
               }))"

definition comsumer_getstat :: "'a ShmMQComsumer_scheme \<Rightarrow> ErrorCode \<times> MQStat option" where
  "comsumer_getstat c = (case c_mq c of None \<Rightarrow> (kErrShmNotInit, None) | Some q \<Rightarrow> getstat q)"

subsection \<open>With a lock file\<close>

record ShmMQLockProducer = ShmMQProducer +
  p_mfd :: int

record ShmMQLockComsumer = ShmMQComsumer +
  c_mfd :: int

definition lock_producer_new :: ShmMQLockProducer where "lock_producer_new = \<lparr>p_mq = None, p_mfd = 0\<rparr>"
definition lock_comsumer_new :: ShmMQLockComsumer where "lock_comsumer_new = \<lparr>c_mq = None, c_mfd = 0\<rparr>"

text \<open>\<^verbatim>\<open>%x\<close> of the C library, and the name of the lock file cut to the 126 bytes of its buffer.\<close>

fun print_hex :: "nat \<Rightarrow> bytes" where
  "print_hex n =
     (let d = [if n mod 16 < 10 then of_nat (48 + n mod 16) else of_nat (87 + n mod 16)]
      in if n < 16 then d else print_hex (n div 16) @ d)"

declare print_hex.simps [simp del]

definition ascii :: "string \<Rightarrow> bytes" where
  "ascii s = map of_char s"

definition lock_file :: "bytes \<Rightarrow> string \<Rightarrow> u32 \<Rightarrow> bytes" where
  "lock_file dir role key =
     take 126 (dir @ ascii ''/.mq_'' @ ascii role @ [95] @ print_hex (unat key) @ ascii ''.lock'')"

text \<open>The finalisers return the descriptor they close; they keep its number.\<close>

definition lock_producer_fini :: "ShmMQLockProducer \<Rightarrow> int option \<times> ShmMQLockProducer" where
  "lock_producer_fini p =
     (let p = producer_fini p in (if p_mfd p > 0 then Some (p_mfd p) else None, p))"

text \<open>
  \<^verbatim>\<open>ShmMQProducer::init\<close> calls \<^verbatim>\<open>fini\<close> again, which is virtual in the producer (and not in the consumer):
  an object with a lock file runs its own finaliser twice.
\<close>

definition lock_producer_init ::
    "lock_env \<Rightarrow> mq_services \<Rightarrow> u32 \<Rightarrow> u32 \<Rightarrow> bytes \<Rightarrow> ShmMQLockProducer \<Rightarrow> ErrorCode \<times> ShmMQLockProducer" where
  "lock_producer_init le svc key sz path p =
     (case producer_init svc key sz (snd (lock_producer_fini (snd (lock_producer_fini p)))) of
        (ret, p) \<Rightarrow>
          if ret \<noteq> kOk then (ret, p)
          else let p = p\<lparr>p_mfd := open_file le (lock_file path ''producer'' key)\<rparr>
               in (if p_mfd p < 0 then kErrOpenLockFileFailed else kOk, p))"

definition lock_producer_clearMQ ::
    "lock_env \<Rightarrow> proc_env \<Rightarrow> ShmMQLockProducer \<Rightarrow> ErrorCode \<times> ShmMQLockProducer" where
  "lock_producer_clearMQ le env p =
     (if \<not> flock_ex le (p_mfd p) then (kErrLockFileFailed, p) else producer_clearMQ env p)"

definition lock_produce ::
    "lock_env \<Rightarrow> proc_env \<Rightarrow> bytes \<Rightarrow> u32 \<Rightarrow> ShmMQLockProducer \<Rightarrow> (ErrorCode \<times> ShmMQLockProducer) option" where
  "lock_produce le env data dataLen p =
     (if flock_ex le (p_mfd p) then produce env data dataLen p else Some (kErrLockFileFailed, p))"

definition lock_comsumer_fini :: "ShmMQLockComsumer \<Rightarrow> int option \<times> ShmMQLockComsumer" where
  "lock_comsumer_fini c =
     (let c = comsumer_fini c in (if c_mfd c > 0 then Some (c_mfd c) else None, c))"

definition lock_comsumer_init ::
    "lock_env \<Rightarrow> mq_services \<Rightarrow> u32 \<Rightarrow> u32 \<Rightarrow> bytes \<Rightarrow> ShmMQLockComsumer \<Rightarrow> ErrorCode \<times> ShmMQLockComsumer" where
  "lock_comsumer_init le svc key sz path c =
     (case comsumer_init svc key sz (snd (lock_comsumer_fini c)) of
        (ret, c) \<Rightarrow>
          if ret \<noteq> kOk then (ret, c)
          else let c = c\<lparr>c_mfd := open_file le (lock_file path ''comsumer'' key)\<rparr>
               in (if c_mfd c < 0 then kErrOpenLockFileFailed else kOk, c))"

definition lock_comsumer_clearMQ ::
    "lock_env \<Rightarrow> proc_env \<Rightarrow> ShmMQLockComsumer \<Rightarrow> ErrorCode \<times> ShmMQLockComsumer" where
  "lock_comsumer_clearMQ le env c =
     (if \<not> flock_ex le (c_mfd c) then (kErrLockFileFailed, c) else comsumer_clearMQ env c)"

definition lock_comsume ::
    "lock_env \<Rightarrow> proc_env \<Rightarrow> bytes \<Rightarrow> u32 \<Rightarrow> u32 \<Rightarrow> ShmMQLockComsumer \<Rightarrow>
     (ErrorCode \<times> u32 \<times> bytes \<times> ShmMQLockComsumer) option" where
  "lock_comsume le env buf bufSize dataLen c =
     (if flock_ex le (c_mfd c) then comsume env buf bufSize dataLen c
      else Some (kErrLockFileFailed, dataLen, buf, c))"

end
