(* ===== verification/Fifo_Queue.thy ===== *)
theory Fifo_Queue
  imports Shm_Prelude
begin

text \<open>
  What a bounded message queue promises its clients: it behaves like a list whose messages
  share a bounded space, the messages leaving in the order they came. The interface is a
  locale over a relation between lists and states; what follows for any sequence of calls
  is proved once inside it.
\<close>

subsection \<open>The list queue\<close>

definition space :: "('m \<Rightarrow> nat) \<Rightarrow> 'm list \<Rightarrow> nat" where
  "space cost ms = sum_list (map cost ms)"

lemma space_simps [simp]:
  "space cost [] = 0" "space cost (m # ms) = cost m + space cost ms"
  "space cost (ms @ ns) = space cost ms + space cost ns"
  by (simp_all add: space_def)

datatype 'm qcmd = Send 'm | Receive

datatype 'm qreply = Sent bool | Received "'m option"

fun lq_step :: "('m \<Rightarrow> nat) \<Rightarrow> nat \<Rightarrow> 'm qcmd \<Rightarrow> 'm list \<Rightarrow> 'm qreply \<times> 'm list" where
  "lq_step cost cap (Send m) ms =
     (if space cost ms + cost m < cap then (Sent True, ms @ [m]) else (Sent False, ms))"
| "lq_step cost cap Receive ms = (case ms of [] \<Rightarrow> (Received None, []) | m # ms \<Rightarrow> (Received (Some m), ms))"

fun qcmd_ok :: "('m \<Rightarrow> bool) \<Rightarrow> 'm qcmd \<Rightarrow> bool" where
  "qcmd_ok okm (Send m) \<longleftrightarrow> okm m"
| "qcmd_ok okm Receive \<longleftrightarrow> True"

text \<open>The messages that were accepted and those that were handed out.\<close>

fun accepted :: "'m qcmd list \<Rightarrow> 'm qreply list \<Rightarrow> 'm list" where
  "accepted (Send m # cs) (Sent True # rs) = m # accepted cs rs"
| "accepted (_ # cs) (_ # rs) = accepted cs rs"
| "accepted _ _ = []"

fun received :: "'m qreply list \<Rightarrow> 'm list" where
  "received (Received (Some m) # rs) = m # received rs"
| "received (_ # rs) = received rs"
| "received [] = []"

text \<open>Nothing is lost, duplicated or reordered.\<close>

lemma lq_conservation:
  "run_cmds (lq_step cost cap) cs ms = (rs, ms') \<Longrightarrow> ms @ accepted cs rs = received rs @ ms'"
proof (induction cs arbitrary: ms rs)
  case (Cons c cs)
  obtain r ms1 where step: "lq_step cost cap c ms = (r, ms1)" by (cases "lq_step cost cap c ms")
  obtain rs1 where rs: "rs = r # rs1" "run_cmds (lq_step cost cap) cs ms1 = (rs1, ms')"
    using Cons.prems step by (cases "run_cmds (lq_step cost cap) cs ms1") auto
  note ih = Cons.IH [OF rs(2)]
  show ?case
  proof (cases c)
    case (Send m)
    then show ?thesis using step ih by (auto simp: rs(1) split: if_splits)
  next
    case Receive
    then show ?thesis using step ih by (cases ms) (auto simp: rs(1))
  qed
qed simp

subsection \<open>The interface\<close>

locale fifo_queue =
  fixes holds :: "'m list \<Rightarrow> 's \<Rightarrow> bool" and okm :: "'m \<Rightarrow> bool" and cost :: "'m \<Rightarrow> nat" and cap :: nat
    and enq :: "'m \<Rightarrow> 's \<Rightarrow> bool \<times> 's" and deq :: "'s \<Rightarrow> 'm option \<times> 's"
  assumes enq_room: "holds ms s \<Longrightarrow> okm m \<Longrightarrow> space cost ms + cost m < cap \<Longrightarrow>
      fst (enq m s) \<and> holds (ms @ [m]) (snd (enq m s))"
    and enq_full: "holds ms s \<Longrightarrow> okm m \<Longrightarrow> \<not> space cost ms + cost m < cap \<Longrightarrow>
      \<not> fst (enq m s) \<and> holds ms (snd (enq m s))"
    and deq_empty: "holds [] s \<Longrightarrow> fst (deq s) = None \<and> holds [] (snd (deq s))"
    and deq_first: "holds (m # ms) s \<Longrightarrow> fst (deq s) = Some m \<and> holds ms (snd (deq s))"
begin

definition exec :: "'m qcmd \<Rightarrow> 's \<Rightarrow> 'm qreply \<times> 's" where
  "exec c s = (case c of Send m \<Rightarrow> map_prod Sent id (enq m s) | Receive \<Rightarrow> map_prod Received id (deq s))"

lemma exec_law:
  assumes "holds ms s" "qcmd_ok okm c"
  shows "fst (exec c s) = fst (lq_step cost cap c ms) \<and> holds (snd (lq_step cost cap c ms)) (snd (exec c s))"
proof (cases c)
  case (Send m)
  then show ?thesis using assms enq_room [of ms s m] enq_full [of ms s m] by (auto simp: exec_def)
next
  case Receive
  then show ?thesis using assms deq_empty [of s] deq_first by (cases ms) (auto simp: exec_def)
qed

lemma run_law:
  "holds ms s \<Longrightarrow> \<forall>c\<in>set cs. qcmd_ok okm c \<Longrightarrow>
   fst (run_cmds exec cs s) = fst (run_cmds (lq_step cost cap) cs ms) \<and>
   holds (snd (run_cmds (lq_step cost cap) cs ms)) (snd (run_cmds exec cs s))"
proof (induction cs arbitrary: ms s)
  case (Cons c cs)
  obtain r ms1 where a: "lq_step cost cap c ms = (r, ms1)" by (cases "lq_step cost cap c ms")
  obtain r' s1 where e: "exec c s = (r', s1)" by (cases "exec c s")
  have "r' = r" "holds ms1 s1" using exec_law [OF Cons.prems(1), of c] Cons.prems(2) a e by auto
  moreover from Cons.IH [OF this(2)] Cons.prems(2)
  have "fst (run_cmds exec cs s1) = fst (run_cmds (lq_step cost cap) cs ms1) \<and>
    holds (snd (run_cmds (lq_step cost cap) cs ms1)) (snd (run_cmds exec cs s1))" by simp
  ultimately show ?case by (simp add: a e)
qed simp

text \<open>What was accepted, after what was there, is what was handed out, then what is left.\<close>

lemma conservation:
  assumes "holds ms s" "\<forall>c\<in>set cs. qcmd_ok okm c" "run_cmds exec cs s = (rs, s')"
  shows "\<exists>ms'. holds ms' s' \<and> ms @ accepted cs rs = received rs @ ms'"
proof -
  obtain rs1 ms' where l: "run_cmds (lq_step cost cap) cs ms = (rs1, ms')"
    by (cases "run_cmds (lq_step cost cap) cs ms")
  then have "rs1 = rs" "holds ms' s'" using run_law [OF assms(1,2)] assms(3) by auto
  then show ?thesis using lq_conservation [OF l] by auto
qed

end

end
