(* ===== verification/Msg_Spec.thy ===== *)
theory Msg_Spec
  imports Msg_Place Msg_Clients Fifo_Queue
begin

text \<open>
  The queue of \<^verbatim>\<open>shmutil/shm_msg_queue.cc\<close> seen as a list of messages: the invariant of a
  well-formed object, what each operation does to the messages, and the clients as an
  instance of the interface of bounded queues.
\<close>

subsection \<open>Reading\<close>

lemma take_head_ring:
  assumes "length b = unat bs" "head \<le> bs" "8 \<le> unat bs" "unat bs < 2 ^ 31"
  shows "take_head bs head b = Some (ring_read (unat head) 8 b, of_nat (ring_pos (unat bs) (unat head) 8))"
proof -
  have h: "unat head \<le> unat bs" using assms(2) by (simp add: word_le_nat_alt)
  have sum: "head + MSG_MAGIC_NUM_LEN + MSG_HEAD_SIZE = head + 8" by simp
  have u8: "unat (head + 8) = unat head + 8" using h assms(4) by (subst unat_plus) simp_all
  show ?thesis
  proof (cases "unat head + 8 > unat bs")
    case True
    define fl where "fl = unat bs - unat head"
    have fs: "unat (bs - head) = fl" using unat_minus [OF assms(2)] by (simp add: fl_def)
    have "fl < 8" using True h by (simp add: fl_def)
    then have ss: "unat (8 - (bs - head)) = 8 - fl"
      using fs by (subst unat_minus) (simp_all add: word_le_nat_alt)
    have c: "head + 8 > bs" using True u8 by (simp add: word_less_nat_alt)
    have "(of_nat (unat head + 8 - unat bs) :: u32) = of_nat (unat head + 8) - of_nat (unat bs)"
      using True by (intro of_nat_diff) simp
    then have pos: "(of_nat (ring_pos (unat bs) (unat head) 8) :: u32) = 8 - (bs - head)"
      using True by (simp add: ring_pos_def)
    have eight: "MSG_MAGIC_NUM_LEN + MSG_HEAD_SIZE - (bs - head) = 8 - (bs - head)" by simp
    show ?thesis
      unfolding take_head_def sum if_P [OF c] Let_def eight fs ss pos
      using h assms(1,3) \<open>fl < 8\<close> by (simp add: mem_load_ok ring_read_def fl_def)
  next
    case False
    then have c: "\<not> head + 8 > bs" using u8 by (simp add: word_less_nat_alt)
    have "head + (MSG_HEAD_SIZE + MSG_MAGIC_NUM_LEN) = of_nat (ring_pos (unat bs) (unat head) 8)"
      using False by (simp add: ring_pos_def)
    then show ?thesis
      unfolding take_head_def sum if_not_P [OF c]
      using False assms(1) by (simp add: mem_load_ok ring_read_def)
  qed
qed

lemma take_data_ring:
  assumes "length b = unat bs" "head \<le> bs" "unat n \<le> unat bs" "unat bs < 2 ^ 31" "unat n \<le> length buf"
  shows "take_data bs head n b buf =
    Some (blit 0 (ring_read (unat head) (unat n) b) buf, of_nat (ring_pos (unat bs) (unat head) (unat n)))"
proof -
  have h: "unat head \<le> unat bs" using assms(2) by (simp add: word_le_nat_alt)
  have u: "unat (head + n) = unat head + unat n" using h assms(3,4) by (subst unat_plus) simp_all
  show ?thesis
  proof (cases "unat head + unat n > unat bs")
    case True
    define fl where "fl = unat bs - unat head"
    have fs: "unat (bs - head) = fl" using unat_minus [OF assms(2)] by (simp add: fl_def)
    have fl: "fl < unat n" using True h by (simp add: fl_def)
    then have ss: "unat (n - (bs - head)) = unat n - fl"
      using fs by (subst unat_minus) (simp_all add: word_le_nat_alt)
    have c: "head + n > bs" using True u by (simp add: word_less_nat_alt)
    have "(of_nat (unat head + unat n - unat bs) :: u32) = of_nat (unat head + unat n) - of_nat (unat bs)"
      using True by (intro of_nat_diff) simp
    then have pos: "(of_nat (ring_pos (unat bs) (unat head) (unat n)) :: u32) = n - (bs - head)"
      using True by (simp add: ring_pos_def)
    let ?d = "take fl (drop (unat head) b)" and ?e = "take (unat n - fl) b"
    have len: "length ?d = fl" "length ?e = unat n - fl"
      using h fl assms(1,3) by (simp_all add: fl_def)
    have "ring_read (unat head) (unat n) b = ?d @ ?e"
      using fl h assms(1) by (simp add: ring_read_def fl_def)
    moreover have "blit fl ?e (blit 0 ?d buf) = blit 0 (?d @ ?e) buf"
      using blit_append [of 0 ?d ?e buf] len fl assms(5) by simp
    ultimately show ?thesis
      unfolding take_data_def if_P [OF c] Let_def fs ss pos
      using h fl assms len by (simp add: mem_load_ok mem_write_ok fl_def)
  next
    case False
    then have c: "\<not> head + n > bs" using u by (simp add: word_less_nat_alt)
    have "head + n = of_nat (ring_pos (unat bs) (unat head) (unat n))"
      using False by (simp add: ring_pos_def)
    then show ?thesis
      unfolding take_data_def if_not_P [OF c]
      using False assms(1,5) by (simp add: mem_load_ok mem_write_ok ring_read_def)
  qed
qed

subsection \<open>Well-formed objects\<close>

definition mq_ok :: "shm_mq \<Rightarrow> bool" where
  "mq_ok q \<longleftrightarrow> isInit q \<and> pstat q = Ptr \<and> length (block (seg q)) = unat (blockSize q) \<and>
     unat (blockSize q) < 2 ^ 31 \<and> q_head (seg q) \<le> blockSize q \<and> q_tail (seg q) \<le> blockSize q"

lemma mq_okD:
  assumes "mq_ok q"
  shows "isInit q" "pstat q = Ptr" "length (block (seg q)) = unat (blockSize q)" "unat (blockSize q) < 2 ^ 31"
    "q_head (seg q) \<le> blockSize q" "q_tail (seg q) \<le> blockSize q"
    "unat (q_head (seg q)) \<le> unat (blockSize q)" "unat (q_tail (seg q)) \<le> unat (blockSize q)"
  using assms by (auto simp: mq_ok_def word_le_nat_alt)

lemma mq_check_ok: "mq_ok q \<Longrightarrow> mq_check env (q_head (seg q)) (q_tail (seg q)) q = (True, q)"
  by (simp add: mq_check_def mq_ok_def)

lemma mq_ok_count: "mq_ok (upd_seg (\<lambda>s. s\<lparr>msgCount := f s\<rparr>) q) = mq_ok q"
  "mq_ok (upd_seg (\<lambda>s. s\<lparr>processCount := f s\<rparr>) q) = mq_ok q"
  by (simp_all add: mq_ok_def)

lemma free_len_nat:
  assumes "head \<le> bs" "tail \<le> bs" "unat bs < 2 ^ 31"
  shows "unat (free_len bs head tail) =
    (if unat tail < unat head then unat head - unat tail else unat head + unat bs - unat tail)"
    "unat (used_len bs head tail) =
    (if unat head < unat tail then unat tail - unat head else unat tail + unat bs - unat head)"
proof -
  have h: "unat head \<le> unat bs" "unat tail \<le> unat bs" using assms(1,2) by (simp_all add: word_le_nat_alt)
  have s: "unat (head + bs) = unat head + unat bs" "unat (tail + bs) = unat tail + unat bs"
    using h assms(3) by (simp_all add: unat_plus)
  then have "tail \<le> head + bs" "head \<le> tail + bs" using h by (simp_all add: word_le_nat_alt)
  then show "unat (free_len bs head tail) =
      (if unat tail < unat head then unat head - unat tail else unat head + unat bs - unat tail)"
    "unat (used_len bs head tail) =
      (if unat head < unat tail then unat tail - unat head else unat tail + unat bs - unat head)"
    using s by (simp_all add: free_len_def used_len_def unat_minus word_less_nat_alt word_le_nat_alt)
qed

subsection \<open>Placing a message\<close>

text \<open>The object after a message was placed.\<close>

definition placed :: "bytes \<Rightarrow> shm_mq \<Rightarrow> shm_mq" where
  "placed data q =
     upd_seg (\<lambda>s. s\<lparr>block := ring_write (unat (q_tail s)) (frame data) (block s),
       q_tail := of_nat (ring_pos (unat (blockSize q)) (unat (q_tail s)) (length data + 12)),
       msgCount := msgCount s + 1\<rparr>) q"

text \<open>In any state with valid positions, whatever the block holds.\<close>

lemma enqueue_cases:
  assumes ok: "mq_ok q" and d: "length data = unat dataLen" "unat dataLen + 12 < 2 ^ 32"
  shows "enqueue env data dataLen q =
    (if unat (free_len (blockSize q) (q_head (seg q)) (q_tail (seg q))) \<le> length data + 12
     then Some (kErrNotEnoughSpace, q) else Some (kOk, placed data q))"
proof -
  let ?bs = "blockSize q" and ?h = "q_head (seg q)" and ?t = "q_tail (seg q)"
  note D = mq_okD [OF ok]
  have m: "unat (dataLen + 12) = unat dataLen + 12" using d(2) by (subst unat_plus) simp_all
  have c: "free_len ?bs ?h ?t \<le> dataLen + 12 \<longleftrightarrow> unat (free_len ?bs ?h ?t) \<le> length data + 12"
    using m d(1) by (simp add: word_le_nat_alt)
  have fits: "unat dataLen + 12 \<le> unat ?bs" if "\<not> unat (free_len ?bs ?h ?t) \<le> length data + 12"
  proof -
    have "unat (free_len ?bs ?h ?t) \<le> unat ?bs"
      using D(7,8) unfolding free_len_nat(1) [OF D(5,6,4)] by arith
    then show ?thesis using that d(1) by simp
  qed
  show ?thesis
  proof (cases "unat (free_len ?bs ?h ?t) \<le> length data + 12")
    case True
    then show ?thesis
      unfolding enqueue_def Let_def mq_check_ok [OF ok] msg_len_word using D(1) c by simp
  next
    case False
    from place_msg_ring [OF d(1) D(3,6) fits [OF False] D(4)] show ?thesis
      unfolding enqueue_def Let_def mq_check_ok [OF ok] msg_len_word
      using D(1) c False by (simp add: placed_def)
  qed
qed

lemma placed_ok:
  assumes ok: "mq_ok q" and fits: "length data + 12 \<le> unat (blockSize q)"
  shows "mq_ok (placed data q)"
proof -
  note D = mq_okD [OF ok]
  have p: "ring_pos (unat (blockSize q)) (unat (q_tail (seg q))) (length data + 12) \<le> unat (blockSize q)"
    by (rule ring_pos_le [OF D(8) fits])
  then have "unat (of_nat (ring_pos (unat (blockSize q)) (unat (q_tail (seg q))) (length data + 12)) :: u32) =
      ring_pos (unat (blockSize q)) (unat (q_tail (seg q))) (length data + 12)"
    using D(4) by (simp add: unsigned_of_nat take_bit_nat_eq_self)
  then show ?thesis using D p fits by (simp add: mq_ok_def placed_def word_le_nat_alt)
qed

subsection \<open>The messages\<close>

definition frames :: "bytes list \<Rightarrow> bytes" where
  "frames ms = concat (map frame ms)"

lemma frames_simps [simp]:
  "frames [] = []" "frames (m # ms) = frame m @ frames ms" "frames (ms @ ns) = frames ms @ frames ns"
  by (simp_all add: frames_def)

definition msg_cost :: "bytes \<Rightarrow> nat" where
  "msg_cost m = length m + 12"

lemma length_frames: "length (frames ms) = space msg_cost ms"
  by (induction ms) (simp_all add: msg_cost_def)

text \<open>The object \<open>q\<close> holds the messages \<open>ms\<close>; the counter is a separate matter.\<close>

definition holds :: "bytes list \<Rightarrow> shm_mq \<Rightarrow> bool" where
  "holds ms q \<longleftrightarrow> mq_ok q \<and> space msg_cost ms < unat (blockSize q) \<and>
     unat (q_tail (seg q)) = ring_pos (unat (blockSize q)) (unat (q_head (seg q))) (space msg_cost ms) \<and>
     ring_read (unat (q_head (seg q))) (space msg_cost ms) (block (seg q)) = frames ms"

definition counted :: "bytes list \<Rightarrow> shm_mq \<Rightarrow> bool" where
  "counted ms q \<longleftrightarrow> msgCount (seg q) = of_nat (length ms)"

lemma holdsD:
  assumes "holds ms q"
  shows "mq_ok q" "space msg_cost ms < unat (blockSize q)"
    "unat (q_tail (seg q)) = ring_pos (unat (blockSize q)) (unat (q_head (seg q))) (space msg_cost ms)"
    "ring_read (unat (q_head (seg q))) (space msg_cost ms) (block (seg q)) = frames ms"
  using assms by (auto simp: holds_def)

lemma holds_lens:
  assumes "holds ms q"
  shows "unat (free_len (blockSize q) (q_head (seg q)) (q_tail (seg q))) = unat (blockSize q) - space msg_cost ms"
    "q_head (seg q) = q_tail (seg q) \<longleftrightarrow> ms = []"
    "ms \<noteq> [] \<Longrightarrow> unat (used_len (blockSize q) (q_head (seg q)) (q_tail (seg q))) = space msg_cost ms"
proof -
  note H = holdsD [OF assms]
  note D = mq_okD [OF H(1)]
  note L = free_len_nat [OF D(5,6,4)]
  have zero: "space msg_cost ms = 0 \<longleftrightarrow> ms = []" by (cases ms) (simp_all add: msg_cost_def)
  show "unat (free_len (blockSize q) (q_head (seg q)) (q_tail (seg q))) = unat (blockSize q) - space msg_cost ms"
    unfolding L(1) H(3) using D(7) H(2) by (auto simp: ring_pos_def)
  have "q_head (seg q) = q_tail (seg q) \<longleftrightarrow> unat (q_head (seg q)) = unat (q_tail (seg q))"
    by (simp add: word_unat_eq_iff)
  also have "\<dots> \<longleftrightarrow> space msg_cost ms = 0"
    unfolding H(3) using D(7) H(2) by (auto simp: ring_pos_def)
  finally show "q_head (seg q) = q_tail (seg q) \<longleftrightarrow> ms = []" using zero by simp
  show "unat (used_len (blockSize q) (q_head (seg q)) (q_tail (seg q))) = space msg_cost ms" if "ms \<noteq> []"
  proof -
    have "0 < space msg_cost ms" using that zero by simp
    then show ?thesis unfolding L(2) H(3) using D(7) H(2) by (auto simp: ring_pos_def)
  qed
qed

lemma holds_enqueue:
  assumes h: "holds ms q" and d: "length data = unat dataLen" "unat dataLen + 12 < 2 ^ 32"
  shows "enqueue env data dataLen q =
    (if space msg_cost ms + msg_cost data < unat (blockSize q) then Some (kOk, placed data q)
     else Some (kErrNotEnoughSpace, q))"
  using holds_lens(1) [OF h] holdsD(2) [OF h]
  unfolding enqueue_cases [OF holdsD(1) [OF h] d] by (auto simp: msg_cost_def)

lemma holds_placed:
  assumes h: "holds ms q" and fits: "space msg_cost ms + msg_cost data < unat (blockSize q)"
  shows "holds (ms @ [data]) (placed data q)"
proof -
  note H = holdsD [OF h]
  note D = mq_okD [OF H(1)]
  let ?bs = "unat (blockSize q)" and ?h = "unat (q_head (seg q))" and ?t = "unat (q_tail (seg q))"
  have fit: "length data + 12 \<le> ?bs" using fits by (simp add: msg_cost_def)
  have tp: "unat (of_nat (ring_pos ?bs ?t (length data + 12)) :: u32) = ring_pos ?bs ?t (length data + 12)"
    using ring_pos_le [OF D(8) fit] D(4) by (simp add: unsigned_of_nat take_bit_nat_eq_self)
  have "ring_pos ?bs ?t (length data + 12) = ring_pos ?bs ?h (space msg_cost ms + msg_cost data)"
    unfolding H(3) msg_cost_def [of data] using fits by (intro ring_pos_add [OF D(7)]) (simp add: msg_cost_def)
  moreover have "ring_read ?h (space msg_cost ms + length (frame data)) (ring_write ?t (frame data) (block (seg q))) =
      ring_read ?h (space msg_cost ms) (block (seg q)) @ frame data"
    using D(3,7) fits H(3) by (intro ring_read_write) (simp_all add: msg_cost_def)
  ultimately show ?thesis
    using placed_ok [OF H(1) fit] fits H(4) tp by (simp add: holds_def placed_def msg_cost_def)
qed

subsection \<open>Taking a message\<close>

lemma unat_minus_wrap: "x < y \<Longrightarrow> unat (x - y :: u32) = 2 ^ 32 + unat x - unat y"
  by (simp add: unat_sub_if' word_less_nat_alt word_le_nat_alt)

lemma of_le_magic: "length x = 4 \<Longrightarrow> of_le x = MSG_MAGIC_NUM \<longleftrightarrow> x = magic"
proof -
  assume "length x = 4"
  then have "to_le 4 (of_le x :: u32) = x" by (intro to_le_of_le) simp_all
  moreover have "of_le magic = MSG_MAGIC_NUM" by simp
  ultimately show ?thesis by metis
qed

text \<open>The states the operation passes through.\<close>

definition counted_down :: "shm_mq \<Rightarrow> shm_mq" where
  "counted_down q = upd_seg (\<lambda>s. s\<lparr>msgCount := msgCount s - 1\<rparr>) q"

definition cleared :: "shm_mq \<Rightarrow> shm_mq" where
  "cleared q = upd_seg (\<lambda>s. s\<lparr>q_head := 0, q_tail := 0, msgCount := 0, q_pid := 0\<rparr>) q"

definition moved_head :: "nat \<Rightarrow> shm_mq \<Rightarrow> shm_mq" where
  "moved_head n q =
     upd_seg (\<lambda>s. s\<lparr>q_head := of_nat (ring_pos (unat (blockSize q)) (unat (q_head s)) n)\<rparr>) q"

definition processed :: "shm_mq \<Rightarrow> shm_mq" where
  "processed q = upd_seg (\<lambda>s. s\<lparr>processCount := processCount s + 1\<rparr>) q"

lemmas passes = counted_down_def cleared_def moved_head_def processed_def

lemma clearMQ_cleared: "isInit q \<Longrightarrow> clearMQ env q = (kOk, cleared q)"
  by (simp add: clearMQ_def Let_def cleared_def)

lemma passes_ok:
  assumes "mq_ok q"
  shows "mq_ok (counted_down q)" "mq_ok (cleared q)" "n \<le> unat (blockSize q) \<Longrightarrow> mq_ok (moved_head n q)"
    "mq_ok (processed q)"
proof -
  note D = mq_okD [OF assms]
  show "mq_ok (counted_down q)" "mq_ok (cleared q)" "mq_ok (processed q)"
    using assms by (simp_all add: mq_ok_def passes)
  assume n: "n \<le> unat (blockSize q)"
  have p: "ring_pos (unat (blockSize q)) (unat (q_head (seg q))) n \<le> unat (blockSize q)"
    by (rule ring_pos_le [OF D(7) n])
  then show "mq_ok (moved_head n q)"
    using assms D(4) by (simp add: mq_ok_def passes word_le_nat_alt unsigned_of_nat take_bit_nat_eq_self)
qed

lemma drop_all_cleared: "mq_ok q \<Longrightarrow> drop_all env q = cleared q"
  by (simp add: drop_all_def mq_check_ok clearMQ_cleared mq_okD(1))

text \<open>The eight bytes at the head, as the code reads them.\<close>

definition stored_magic :: "shm_mq \<Rightarrow> u32" where
  "stored_magic q = of_le (take 4 (ring_read (unat (q_head (seg q))) 8 (block (seg q))))"

definition stored_len :: "shm_mq \<Rightarrow> u32" where
  "stored_len q = of_le (drop 4 (ring_read (unat (q_head (seg q))) 8 (block (seg q))))"

definition stored_body :: "shm_mq \<Rightarrow> bytes" where
  "stored_body q =
     drop 8 (ring_read (unat (q_head (seg q))) (unat (stored_len q)) (block (seg q)))"

text \<open>The whole operation, for any contents of the block.\<close>

definition taken :: "bytes \<Rightarrow> nat \<Rightarrow> shm_mq \<Rightarrow> (ErrorCode \<times> u32 \<times> bytes \<times> shm_mq) option" where
  "taken buf cap q =
     (if q_head (seg q) = q_tail (seg q) then Some (kErrShmMQEmpty, 0, buf, q)
      else if stored_magic q \<noteq> MSG_MAGIC_NUM \<or>
        stored_len q > used_len (blockSize q) (q_head (seg q)) (q_tail (seg q))
      then Some (kErrDataMess, 0, buf, cleared (counted_down q))
      else if unat (stored_len q) < 8 \<or> cap + 8 < unat (stored_len q)
      then Some (kErrInputBufNotEnoughSpace, stored_len q - 8, buf, counted_down q)
      else if unat (stored_len q) < 12 then None
      else let n = unat (stored_len q) - 12;
               buf' = blit 0 (stored_body q) buf;
               q' = moved_head (unat (stored_len q)) (counted_down q)
           in if drop n (stored_body q) = magic then Some (kOk, of_nat n, buf', processed q')
              else Some (kErrDataMess, 0, buf', cleared q'))"

text \<open>The size check in modular arithmetic.\<close>

lemma buffer_too_small:
  assumes "unat bufSize + 8 < 2 ^ 32"
  shows "(bufSize :: u32) < l - 8 \<longleftrightarrow> unat l < 8 \<or> unat bufSize + 8 < unat l"
proof (cases "unat l < 8")
  case True
  then have "l < 8" by (simp add: word_less_nat_alt)
  then show ?thesis using True unat_minus_wrap [of l 8] assms by (simp add: word_less_nat_alt)
next
  case False
  then show ?thesis by (auto simp: word_less_nat_alt word_le_nat_alt unat_minus)
qed

lemma read_body:
  assumes ok: "mq_ok q" and L: "8 \<le> unat (stored_len q)" "unat (stored_len q) \<le> unat (blockSize q)"
    "unat (stored_len q) - 8 \<le> length buf"
  shows "take_data (blockSize q) (of_nat (ring_pos (unat (blockSize q)) (unat (q_head (seg q))) 8))
      (stored_len q - 8) (block (seg q)) buf =
    Some (blit 0 (stored_body q) buf,
      of_nat (ring_pos (unat (blockSize q)) (unat (q_head (seg q))) (unat (stored_len q))))"
    "length (stored_body q) = unat (stored_len q) - 8"
proof -
  let ?bs = "blockSize q" and ?h = "q_head (seg q)" and ?b = "block (seg q)" and ?L = "stored_len q"
  let ?h8 = "of_nat (ring_pos (unat ?bs) (unat ?h) 8) :: u32"
  note D = mq_okD [OF ok]
  have bs: "8 \<le> unat ?bs" using L by simp
  have L8: "unat (?L - 8) = unat ?L - 8" using L(1) by (simp add: word_le_nat_alt unat_minus)
  have p8: "unat ?h8 = ring_pos (unat ?bs) (unat ?h) 8" "?h8 \<le> ?bs"
    using ring_pos_le [OF D(7) bs] D(4) by (simp_all add: unsigned_of_nat take_bit_nat_eq_self word_le_nat_alt)
  have "ring_read (unat ?h8) (unat ?L - 8) ?b = stored_body q"
    using ring_read_suffix [of "unat ?h" ?b 8 "unat ?L - 8"] D(3,7) L p8 by (simp add: stored_body_def)
  moreover have "ring_pos (unat ?bs) (unat ?h8) (unat ?L - 8) = ring_pos (unat ?bs) (unat ?h) (unat ?L)"
    using ring_pos_add [OF D(7), of 8 "unat ?L - 8"] L p8 by simp
  ultimately show "take_data ?bs ?h8 (?L - 8) ?b buf =
      Some (blit 0 (stored_body q) buf, of_nat (ring_pos (unat ?bs) (unat ?h) (unat ?L)))"
    using take_data_ring [OF D(3) p8(2) _ D(4), of "?L - 8" buf] L8 L by simp
  show "length (stored_body q) = unat (stored_len q) - 8" using D(3,7) L by (simp add: stored_body_def)
qed

text \<open>A length below 12 sends the read of the trailing number out of the buffer.\<close>

lemma read_trailer:
  assumes d: "length d = unat l - 8" and l: "8 \<le> unat l" "unat l - 8 \<le> length buf" "length buf + 8 < 2 ^ 32"
  shows "mem_load (unat (l - 8 - 4 :: u32)) 4 (blit 0 d buf) = (if unat l < 12 then None else Some (drop (unat l - 12) d))"
    "12 \<le> unat l \<Longrightarrow> l - 8 - 4 = of_nat (unat l - 12)"
proof -
  have l8: "unat (l - 8) = unat l - 8" using l(1) by (simp add: word_le_nat_alt unat_minus)
  have lb: "length (blit 0 d buf) = length buf" using d l by simp
  have n: "unat (l - 8 - 4) = unat l - 12" if "12 \<le> unat l"
    using l8 that by (subst unat_minus) (simp_all add: word_le_nat_alt)
  show "mem_load (unat (l - 8 - 4)) 4 (blit 0 d buf) = (if unat l < 12 then None else Some (drop (unat l - 12) d))"
  proof (cases "unat l < 12")
    case True
    then have "l - 8 < 4" using l8 l by (simp add: word_less_nat_alt)
    then have "unat (l - 8 - 4) = 2 ^ 32 + (unat l - 8) - 4" using unat_minus_wrap [of "l - 8" 4] l8 by simp
    then show ?thesis using lb l True by (simp add: mem_load_def)
  next
    case False
    then show ?thesis using n d l lb by (simp add: mem_load_ok blit_def)
  qed
  show "l - 8 - 4 = of_nat (unat l - 12)" if "12 \<le> unat l"
    unfolding n [OF that, symmetric] by simp
qed

text \<open>The body of the operation once a message is seen.\<close>

lemma dequeue_steps:
  assumes ok: "mq_ok q" and bs: "8 \<le> unat (blockSize q)" and ne: "q_head (seg q) \<noteq> q_tail (seg q)"
  shows "dequeue env buf bufSize dl q =
    (if stored_magic q \<noteq> MSG_MAGIC_NUM then Some (kErrDataMess, 0, buf, cleared (counted_down q))
     else if stored_len q > used_len (blockSize q) (q_head (seg q)) (q_tail (seg q))
     then Some (kErrDataMess, 0, buf, cleared (counted_down q))
     else if stored_len q - 8 > bufSize
     then Some (kErrInputBufNotEnoughSpace, stored_len q - 8, buf, counted_down q)
     else do {
       (buf, head) \<leftarrow> take_data (blockSize q) (of_nat (ring_pos (unat (blockSize q)) (unat (q_head (seg q))) 8))
         (stored_len q - 8) (block (seg q)) buf;
       let q' = upd_seg (\<lambda>s. s\<lparr>q_head := head\<rparr>) (counted_down q);
       m \<leftarrow> mem_load (unat (stored_len q - 8 - 4)) 4 buf;
       if of_le m \<noteq> MSG_MAGIC_NUM then Some (kErrDataMess, 0, buf, drop_all env q')
       else Some (kOk, stored_len q - 8 - 4, buf, processed q')
     })"
proof -
  let ?hd = "ring_read (unat (q_head (seg q))) 8 (block (seg q))"
  note D = mq_okD [OF ok]
  note th = take_head_ring [OF D(3,5) bs D(4)]
  have hd: "of_le (mem_read 0 4 ?hd) = stored_magic q" "of_le (mem_read 4 4 ?hd) = stored_len q"
    using D(3,7) bs by (simp_all add: mem_read_def stored_magic_def stored_len_def)
  have dl: "stored_len q - MSG_HEAD_SIZE - MSG_MAGIC_NUM_LEN = stored_len q - 8" by simp
  have c1: "upd_seg (\<lambda>s. s\<lparr>msgCount := decrement (msgCount s)\<rparr>) q = counted_down q"
    and c2: "upd_seg (\<lambda>s. s\<lparr>processCount := increment (processCount s)\<rparr>) r = processed r"
    and f1: "blockSize (counted_down q) = blockSize q" "block (seg (counted_down q)) = block (seg q)" for r
    by (simp_all add: passes)
  show ?thesis
    unfolding dequeue_def Let_def mq_check_ok [OF ok] prod.case bool.case if_not_P [OF ne] c1 c2 f1 th
      Option.bind.bind_lunit hd dl drop_all_cleared [OF passes_ok(1) [OF ok]]
    using D(1) by simp
qed

lemma dequeue_taken:
  assumes ok: "mq_ok q" and bs: "8 \<le> unat (blockSize q)"
    and buf: "length buf = unat bufSize" "unat bufSize + 8 < 2 ^ 32"
  shows "dequeue env buf bufSize dl q = taken buf (unat bufSize) q"
proof (cases "q_head (seg q) = q_tail (seg q)")
  case True
  then show ?thesis
    unfolding dequeue_def Let_def mq_check_ok [OF ok] using mq_okD(1) [OF ok] by (simp add: taken_def)
next
  case ne: False
  let ?L = "stored_len q" and ?used = "used_len (blockSize q) (q_head (seg q)) (q_tail (seg q))"
  note D = mq_okD [OF ok]
  note small = buffer_too_small [OF buf(2), of ?L]
  have used: "unat ?used \<le> unat (blockSize q)"
    using D(7,8) unfolding free_len_nat(2) [OF D(5,6,4)] by arith
  show ?thesis
  proof (cases "stored_magic q \<noteq> MSG_MAGIC_NUM \<or> ?L > ?used \<or> bufSize < ?L - 8")
    case True
    then show ?thesis
      unfolding dequeue_steps [OF ok bs ne] taken_def small [symmetric] using ne by auto
  next
    case False
    then have L: "8 \<le> unat ?L" "unat ?L \<le> unat (blockSize q)" "unat ?L - 8 \<le> length buf"
      using used buf(1) small by (simp_all add: word_le_nat_alt word_less_nat_alt) arith
    note body = read_body [OF ok L]
    have blen: "length buf + 8 < 2 ^ 32" using buf by simp
    note trailer = read_trailer [OF body(2) L(1,3) blen]
    have q': "upd_seg (\<lambda>s. s\<lparr>q_head := of_nat (ring_pos (unat (blockSize q)) (unat (q_head (seg q))) (unat ?L))\<rparr>)
        (counted_down q) = moved_head (unat ?L) (counted_down q)"
      by (simp add: passes)
    have ok': "mq_ok (moved_head (unat ?L) (counted_down q))"
      using passes_ok(3) [OF passes_ok(1) [OF ok], of "unat ?L"] L(2) by (simp add: passes)
    have mg: "of_le (drop (unat ?L - 12) (stored_body q)) = MSG_MAGIC_NUM \<longleftrightarrow> drop (unat ?L - 12) (stored_body q) = magic"
      if "12 \<le> unat ?L" using body(2) that by (intro of_le_magic) simp
    show ?thesis
      unfolding dequeue_steps [OF ok bs ne] taken_def body(1) Option.bind.bind_lunit prod.case Let_def q'
        drop_all_cleared [OF ok'] trailer(1) small
      using False ne small mg trailer(2) by auto
  qed
qed

subsection \<open>The first message\<close>

lemma holds_first:
  assumes h: "holds (m # ms) q"
  shows "stored_magic q = MSG_MAGIC_NUM" "unat (stored_len q) = length m + 12" "stored_body q = m @ magic"
    "length m + 12 < unat (blockSize q)"
proof -
  note H = holdsD [OF h]
  note D = mq_okD [OF H(1)]
  let ?h = "unat (q_head (seg q))" and ?b = "block (seg q)" and ?S = "space msg_cost (m # ms)"
  show small: "length m + 12 < unat (blockSize q)" using H(2) by (simp add: msg_cost_def)
  have prefix: "ring_read ?h n ?b = take n (frames (m # ms))" if "n \<le> ?S" for n
    using ring_read_prefix [of ?h ?b ?S n] D(3,7) H(2,4) that by simp
  have S: "8 \<le> ?S" "length m + 12 \<le> ?S" by (simp_all add: msg_cost_def)
  have "ring_read ?h 8 ?b = msg_head (of_nat (length m + 12))"
    unfolding prefix [OF S(1)] by (simp add: frame_def)
  then show "stored_magic q = MSG_MAGIC_NUM" and len: "unat (stored_len q) = length m + 12"
    using small D(4)
    by (simp_all add: stored_magic_def stored_len_def msg_head_def unsigned_of_nat take_bit_nat_eq_self del: of_nat_add)
  show "stored_body q = m @ magic"
    unfolding stored_body_def len prefix [OF S(2)] by (simp add: frame_def)
qed

lemma holds_moved:
  assumes h: "holds (m # ms) q"
  shows "holds ms (moved_head (length m + 12) q)"
proof -
  note H = holdsD [OF h]
  note D = mq_okD [OF H(1)]
  let ?bs = "unat (blockSize q)" and ?h = "unat (q_head (seg q))" and ?b = "block (seg q)"
  let ?n = "length m + 12" and ?S = "space msg_cost ms"
  have S: "space msg_cost (m # ms) = ?n + ?S" by (simp add: msg_cost_def)
  have fit: "?n + ?S < ?bs" using H(2) by (simp add: msg_cost_def)
  have hp: "unat (of_nat (ring_pos ?bs ?h ?n) :: u32) = ring_pos ?bs ?h ?n"
    using ring_pos_le [OF D(7), of ?n] fit D(4) by (simp add: unsigned_of_nat take_bit_nat_eq_self)
  have "ring_read (ring_pos ?bs ?h ?n) ?S ?b = drop ?n (frames (m # ms))"
    using ring_read_suffix [of ?h ?b ?n ?S] D(3,7) fit H(4) [unfolded S] by simp
  moreover have "unat (q_tail (seg q)) = ring_pos ?bs (ring_pos ?bs ?h ?n) ?S"
    unfolding H(3) S using fit by (intro ring_pos_add [OF D(7), symmetric]) simp
  ultimately show ?thesis
    using passes_ok(3) [OF H(1), of ?n] fit by (simp add: holds_def hp moved_head_def)
qed

lemma holds_counters [simp]:
  "holds ms (counted_down q) = holds ms q" "holds ms (processed q) = holds ms q"
  by (simp_all add: holds_def mq_ok_def passes)

lemma passes_fields [simp]:
  "blockSize (counted_down q) = blockSize q" "blockSize (cleared q) = blockSize q"
  "blockSize (moved_head n q) = blockSize q" "blockSize (processed q) = blockSize q"
  "blockSize (placed d q) = blockSize q"
  "msgCount (seg (counted_down q)) = msgCount (seg q) - 1" "msgCount (seg (cleared q)) = 0"
  "msgCount (seg (moved_head n q)) = msgCount (seg q)" "msgCount (seg (processed q)) = msgCount (seg q)"
  "msgCount (seg (placed d q)) = msgCount (seg q) + 1"
  "processCount (seg (processed q)) = processCount (seg q) + 1"
  "processCount (seg (counted_down q)) = processCount (seg q)"
  "processCount (seg (moved_head n q)) = processCount (seg q)"
  by (simp_all add: passes placed_def)

text \<open>What one call does to a queue that holds messages.\<close>

definition after_first :: "bytes \<Rightarrow> shm_mq \<Rightarrow> shm_mq" where
  "after_first m q = processed (moved_head (length m + 12) (counted_down q))"

lemma holds_after_first: "holds (m # ms) q \<Longrightarrow> holds ms (after_first m q)"
  using holds_moved [of m ms "counted_down q"] by (simp add: after_first_def)

lemma holds_dequeue:
  assumes h: "holds (m # ms) q" and buf: "length buf = unat bufSize" "unat bufSize + 8 < 2 ^ 32"
  shows "dequeue env buf bufSize dl q =
    (if unat bufSize < length m + 4 then Some (kErrInputBufNotEnoughSpace, of_nat (length m + 4), buf, counted_down q)
     else Some (kOk, of_nat (length m), blit 0 (m @ magic) buf, after_first m q))"
proof -
  note F = holds_first [OF h]
  have ne: "q_head (seg q) \<noteq> q_tail (seg q)" using holds_lens(2) [OF h] by simp
  have used: "\<not> stored_len q > used_len (blockSize q) (q_head (seg q)) (q_tail (seg q))"
    using holds_lens(3) [OF h] F(2) by (simp add: word_less_nat_alt msg_cost_def)
  have len: "stored_len q = of_nat (length m + 12)" unfolding F(2) [symmetric] by simp
  have bs: "8 \<le> unat (blockSize q)" using F(4) by simp
  show ?thesis
    unfolding dequeue_taken [OF holdsD(1) [OF h] bs buf] taken_def after_first_def
    using ne used F by (auto simp: len Let_def)
qed

lemma dequeue_empty:
  assumes "holds [] q"
  shows "dequeue env buf bufSize dl q = Some (kErrShmMQEmpty, 0, buf, q)"
  using holds_lens(2) [OF assms] mq_okD(1) [OF holdsD(1) [OF assms]] mq_check_ok [OF holdsD(1) [OF assms]]
  unfolding dequeue_def Let_def by simp

end
