(* ===== verification/Msg_Fifo.thy ===== *)
theory Msg_Fifo
  imports Msg_Spec
begin

text \<open>
  Opening and clearing a queue, the repair of a queue with impossible positions, and the
  producers and consumers as an instance of the interface of bounded first-in first-out
  queues.
\<close>

subsection \<open>Opening, clearing, repairing\<close>

lemma init_creates_queue:
  assumes "mq_create svc key (sz + 8) = Inr i" "mq_attach svc i = Some s"
    and "12 < unat sz" "unat sz < 2 ^ 31" "length (block s) = unat sz - 12" "msgCount s = 0"
  shows "\<exists>q. mq_init svc key sz q0 = (kOk, q) \<and> holds [] q \<and> counted [] q \<and> unat (blockSize q) = unat sz - 12"
proof -
  have "unat (sz - 4 * 2 - 4) = unat sz - 12" using assms(3) unat_minus [of 12 sz] by (simp add: word_le_nat_alt)
  then show ?thesis
    using assms
    by (auto simp: mq_init_def getmemory_def attach_id_def mq_fini_def Let_def holds_def mq_ok_def counted_def
        ring_pos_def ring_read_def)
qed

text \<open>Another process that opens the segment of a queue sees its messages.\<close>

lemma init_opens_queue:
  assumes "mq_create svc key (sz + 8) = Inl EEXIST" "mq_open svc key = Some i" "mq_attach svc i = Some (seg q1)"
    and "holds ms q1" "sz = blockSize q1 + 12"
  shows "\<exists>q. mq_init svc key sz q0 = (kOk, q) \<and> holds ms q \<and> seg q = (seg q1)\<lparr>q_pid := 0\<rparr> \<and>
    blockSize q = blockSize q1"
  using assms
  by (auto simp: mq_init_def getmemory_def attach_id_def mq_fini_def Let_def holds_def mq_ok_def)

lemma cleared_holds: "mq_ok q \<Longrightarrow> 0 < unat (blockSize q) \<Longrightarrow> holds [] (cleared q) \<and> counted [] (cleared q)"
  by (simp add: holds_def mq_ok_def counted_def cleared_def ring_pos_def ring_read_def)

text \<open>
  Positions outside of the block: the call fails, and the queue is emptied unless another
  process that is alive says it is emptying it.
\<close>

definition repaired :: "proc_env \<Rightarrow> shm_mq \<Rightarrow> shm_mq" where
  "repaired env q =
     (if q_pid (seg q) = 0 \<or> \<not> checkProcExist (kill0 env) (q_pid (seg q)) then cleared q else q)"

lemma check_repairs:
  assumes "isInit q" "blockSize q < q_head (seg q) \<or> blockSize q < q_tail (seg q)"
  shows "enqueue env data dataLen q = Some (kErrDataMess, repaired env q)"
    "dequeue env buf bufSize dl q = Some (kErrDataMess, 0, buf, repaired env q)"
proof -
  have "mq_check env (q_head (seg q)) (q_tail (seg q)) q = (False, repaired env q)"
    using assms by (auto simp: mq_check_def repaired_def Let_def clearMQ_cleared not_le)
  then show "enqueue env data dataLen q = Some (kErrDataMess, repaired env q)"
    "dequeue env buf bufSize dl q = Some (kErrDataMess, 0, buf, repaired env q)"
    using assms(1) by (simp_all add: enqueue_def dequeue_def Let_def)
qed

subsection \<open>The clients\<close>

text \<open>A producer sends whole messages, a consumer receives into a buffer of \<open>n\<close> bytes.\<close>

definition mq_send :: "proc_env \<Rightarrow> bytes \<Rightarrow> shm_mq \<Rightarrow> bool \<times> shm_mq" where
  "mq_send env m q =
     (case produce env m (of_nat (length m)) \<lparr>p_mq = Some q\<rparr> of
        Some (ec, p) \<Rightarrow> (ec = kOk, the (p_mq p))
      | None \<Rightarrow> (False, q))"

definition mq_receive :: "proc_env \<Rightarrow> nat \<Rightarrow> shm_mq \<Rightarrow> bytes option \<times> shm_mq" where
  "mq_receive env n q =
     (case comsume env (replicate n 0) (of_nat n) 0 \<lparr>c_mq = Some q\<rparr> of
        Some (ec, len, buf, c) \<Rightarrow> (if ec = kOk then Some (take (unat len) buf) else None, the (c_mq c))
      | None \<Rightarrow> (None, q))"

lemma counted_zero:
  assumes "holds ms q" "counted ms q"
  shows "msgCount (seg q) = 0 \<longleftrightarrow> ms = []"
proof -
  have "length ms \<le> space msg_cost ms" by (induction ms) (simp_all add: msg_cost_def)
  then have "length ms < 2 ^ 32" using holdsD(2) [OF assms(1)] mq_okD(4) [OF holdsD(1) [OF assms(1)]] by simp
  then have "unat (of_nat (length ms) :: u32) = length ms" by (simp add: unsigned_of_nat take_bit_nat_eq_self)
  then have "(of_nat (length ms) :: u32) = 0 \<longleftrightarrow> length ms = 0"
    using word_unat_eq_iff [of "of_nat (length ms) :: u32" 0] by (simp only: unat_0)
  then show ?thesis using assms(2) by (simp add: counted_def)
qed

text \<open>What the clients see of a queue whose block has \<open>cap\<close> bytes, with buffers of \<open>n\<close> bytes.\<close>

definition client_queue :: "nat \<Rightarrow> nat \<Rightarrow> bytes list \<Rightarrow> shm_mq \<Rightarrow> bool" where
  "client_queue cap n ms q \<longleftrightarrow> holds ms q \<and> counted ms q \<and> unat (blockSize q) = cap \<and> n + 8 < 2 ^ 32 \<and>
     (\<forall>m\<in>set ms. length m + 4 \<le> n)"

lemma client_queueD:
  assumes "client_queue cap n ms q"
  shows "holds ms q" "counted ms q" "unat (blockSize q) = cap" "n + 8 < 2 ^ 32" "m \<in> set ms \<Longrightarrow> length m + 4 \<le> n"
  using assms by (auto simp: client_queue_def)

lemma send_room:
  assumes c: "client_queue cap n ms q" and m: "length m + 4 \<le> n" and fits: "space msg_cost ms + msg_cost m < cap"
  shows "fst (mq_send env m q) \<and> client_queue cap n (ms @ [m]) (snd (mq_send env m q))"
proof -
  note C = client_queueD [OF c]
  have len: "unat (of_nat (length m) :: u32) = length m" "length m + 12 < 2 ^ 32"
    using m C(4) by (simp_all add: unsigned_of_nat take_bit_nat_eq_self)
  have "enqueue env m (of_nat (length m)) q = Some (kOk, placed m q)"
    using holds_enqueue [OF C(1), of m "of_nat (length m)" env] len fits C(3) by simp
  then have "mq_send env m q = (True, placed m q)" by (simp add: mq_send_def produce_def)
  moreover have "holds (ms @ [m]) (placed m q)" using holds_placed [OF C(1)] fits C(3) by simp
  moreover have "counted (ms @ [m]) (placed m q)" using C(2) by (simp add: counted_def)
  ultimately show ?thesis using C(3,4,5) m by (auto simp: client_queue_def)
qed

lemma send_full:
  assumes c: "client_queue cap n ms q" and m: "length m + 4 \<le> n" and full: "\<not> space msg_cost ms + msg_cost m < cap"
  shows "mq_send env m q = (False, q)"
proof -
  note C = client_queueD [OF c]
  have len: "unat (of_nat (length m) :: u32) = length m" "length m + 12 < 2 ^ 32"
    using m C(4) by (simp_all add: unsigned_of_nat take_bit_nat_eq_self)
  have "enqueue env m (of_nat (length m)) q = Some (kErrNotEnoughSpace, q)"
    using holds_enqueue [OF C(1), of m "of_nat (length m)" env] len full C(3) by simp
  then show ?thesis by (simp add: mq_send_def produce_def)
qed

lemma receive_empty:
  assumes c: "client_queue cap n [] q"
  shows "mq_receive env n q = (None, q)"
  using client_queueD(1,2) [OF c] mq_okD(1) [OF holdsD(1) [OF client_queueD(1) [OF c]]]
  by (simp add: mq_receive_def comsume_def isEmpty_def counted_def)

lemma receive_first:
  assumes c: "client_queue cap n (m # ms) q"
  shows "mq_receive env n q = (Some m, after_first m q)" "client_queue cap n ms (after_first m q)"
proof -
  note C = client_queueD [OF c]
  have n: "unat (of_nat n :: u32) = n" "length m + 4 \<le> n"
    using C(4) C(5) [of m] by (simp_all add: unsigned_of_nat take_bit_nat_eq_self)
  then have m: "unat (of_nat (length m) :: u32) = length m"
    using C(4) by (simp add: unsigned_of_nat take_bit_nat_eq_self)
  have ne: "msgCount (seg q) \<noteq> 0" using counted_zero [OF C(1,2)] by simp
  have "dequeue env (replicate n 0) (of_nat n) 0 q =
      Some (kOk, of_nat (length m), blit 0 (m @ magic) (replicate n 0), after_first m q)"
    using holds_dequeue [OF C(1), of "replicate n 0" "of_nat n" env 0] n C(4) by simp
  then show "mq_receive env n q = (Some m, after_first m q)"
    using ne m mq_okD(1) [OF holdsD(1) [OF C(1)]]
    by (simp add: mq_receive_def comsume_def isEmpty_def blit_def)
  have "counted ms (after_first m q)" using C(2) by (simp add: counted_def after_first_def)
  then show "client_queue cap n ms (after_first m q)"
    using holds_after_first [OF C(1)] C(3-5) by (simp add: client_queue_def after_first_def)
qed

interpretation mq: fifo_queue "client_queue cap n" "\<lambda>m. length m + 4 \<le> n" msg_cost cap "mq_send env" "mq_receive env n"
  for cap n env
  by unfold_locales (simp_all add: send_room send_full receive_empty receive_first)

text \<open>A call of a client, and runs of calls.\<close>

fun mq_call :: "proc_env \<Rightarrow> nat \<Rightarrow> bytes qcmd \<Rightarrow> shm_mq \<Rightarrow> bytes qreply \<times> shm_mq" where
  "mq_call env n (Send m) q = map_prod Sent id (mq_send env m q)"
| "mq_call env n Receive q = map_prod Received id (mq_receive env n q)"

lemma mq_call_exec: "mq_call env n = mq.exec env n"
proof (intro ext)
  fix c q
  show "mq_call env n c q = mq.exec env n c q" by (cases c) (simp_all add: mq.exec_def)
qed

end
