(* ===== verification/Msg_Props.thy ===== *)
theory Msg_Props
  imports Msg_Fifo
begin

text \<open>
  The properties of the message queue of \<^verbatim>\<open>shmutil/shm_msg_queue.cc\<close>, each with a witness on a
  queue with a block of 64 bytes that \<^verbatim>\<open>init\<close> creates.
\<close>

subsection \<open>A sample queue\<close>

definition sample_seg :: mq_seg where
  "sample_seg = \<lparr>msgCount = 0, processCount = 0, q_head = 0, q_tail = 0, q_pid = 0, block = replicate 64 0\<rparr>"

definition sample_svc :: mq_services where
  "sample_svc = \<lparr>mq_create = (\<lambda>_ _. Inr 7), mq_open = (\<lambda>_. Some 7), mq_attach = (\<lambda>_. Some sample_seg)\<rparr>"

definition sample_proc :: proc_env where
  "sample_proc = \<lparr>getpid = 42, kill0 = (\<lambda>_. None)\<rparr>"

definition sample_mq :: shm_mq where
  "sample_mq = snd (mq_init sample_svc 1 76 ShmMQ)"

lemma sample_mq_eq:
  "sample_mq = \<lparr>shmKey = 1, shmSize = 76, shmId = 7, pstat = Ptr, blockSize = 64, isInit = True, seg = sample_seg\<rparr>"
  by (simp add: sample_mq_def mq_init_def getmemory_def attach_id_def mq_fini_def ShmMQ_def sample_svc_def
      sample_seg_def Let_def)

lemma sample_queue: "client_queue 64 32 [] sample_mq"
  by (simp add: client_queue_def holds_def mq_ok_def counted_def sample_mq_eq sample_seg_def ring_pos_def ring_read_def)

lemma sample_ok: "mq_ok sample_mq" "holds [] sample_mq"
  using client_queueD(1) [OF sample_queue] holdsD(1) by blast+

text \<open>The sample queue with one message of two bytes.\<close>

definition sample_full :: shm_mq where
  "sample_full = placed [5, 6] sample_mq"

lemma sample_full: "client_queue 64 32 [[5, 6]] sample_full"
proof -
  have "holds [[5, 6]] sample_full"
    using holds_placed [OF sample_ok(2), of "[5, 6]"] by (simp add: sample_full_def msg_cost_def sample_mq_eq)
  then show ?thesis
    by (simp add: client_queue_def counted_def sample_full_def placed_def sample_mq_eq sample_seg_def)
qed

subsection \<open>The ring\<close>

text \<open>
  C22: Whatever the block holds, \<^verbatim>\<open>enqueue\<close> rejects a message that does not leave a byte free,
  and otherwise all its placements, with the head, the data or the magic number split, are
  the same single write of magic, length, data and magic around the ring.
\<close>

theorem mq_enqueue_ring:
  assumes "mq_ok q" "length data = unat dataLen" "unat dataLen + 12 < 2 ^ 32"
  shows "enqueue env data dataLen q =
    (if unat (free_len (blockSize q) (q_head (seg q)) (q_tail (seg q))) \<le> length data + 12
     then Some (kErrNotEnoughSpace, q)
     else Some (kOk, q\<lparr>seg := (seg q)\<lparr>
       block := ring_write (unat (q_tail (seg q))) (frame data) (block (seg q)),
       q_tail := of_nat (ring_pos (unat (blockSize q)) (unat (q_tail (seg q))) (length data + 12)),
       msgCount := msgCount (seg q) + 1\<rparr>\<rparr>))"
  using enqueue_cases [OF assms] by (simp add: placed_def)

theorem mq_enqueue_ring_witness:
  "map_option fst (enqueue sample_proc [5, 6] 2 sample_mq) = Some kOk"
  using mq_enqueue_ring [OF sample_ok(1), of "[5, 6]" 2 sample_proc]
  by (simp add: sample_mq_eq sample_seg_def free_len_def)

text \<open>
  C23: In every state with valid positions, whatever the block holds, \<^verbatim>\<open>dequeue\<close> with a buffer of
  the stated size stays within the block and the buffer, except for a stored length of 8 to
  11: then it reads outside of the buffer. In all other cases the positions stay valid.
\<close>

theorem mq_dequeue_bounds:
  assumes "mq_ok q" "8 \<le> unat (blockSize q)" "length buf = unat bufSize" "unat bufSize + 8 < 2 ^ 32"
  shows "case dequeue env buf bufSize dl q of
      None \<Rightarrow> q_head (seg q) \<noteq> q_tail (seg q) \<and> stored_magic q = MSG_MAGIC_NUM \<and>
        8 \<le> unat (stored_len q) \<and> unat (stored_len q) < 12
    | Some (ec, len, buf', q') \<Rightarrow> mq_ok q' \<and> length buf' = length buf \<and>
        (ec \<noteq> kOk \<or> unat len + 4 \<le> unat bufSize)"
proof -
  let ?used = "used_len (blockSize q) (q_head (seg q)) (q_tail (seg q))"
  note D = mq_okD [OF assms(1)]
  note OK = passes_ok [OF assms(1)] passes_ok [OF passes_ok(1) [OF assms(1)]]
  have used: "unat ?used \<le> unat (blockSize q)"
    using D(7,8) unfolding free_len_nat(2) [OF D(5,6,4)] by arith
  show ?thesis
  proof (cases "q_head (seg q) = q_tail (seg q) \<or> stored_magic q \<noteq> MSG_MAGIC_NUM \<or> stored_len q > ?used \<or>
      unat (stored_len q) < 12 \<or> unat bufSize + 8 < unat (stored_len q)")
    case True
    then show ?thesis
      unfolding dequeue_taken [OF assms] taken_def using assms(1) OK by auto
  next
    case False
    then have L: "8 \<le> unat (stored_len q)" "unat (stored_len q) \<le> unat (blockSize q)"
      "unat (stored_len q) - 8 \<le> length buf" "12 \<le> unat (stored_len q)"
      using used assms(3) by (auto simp: word_le_nat_alt not_less)
    have n: "unat (of_nat (unat (stored_len q) - 12) :: u32) = unat (stored_len q) - 12"
      using L(2) D(4) by (simp add: unsigned_of_nat take_bit_nat_eq_self)
    have q': "mq_ok (moved_head (unat (stored_len q)) (counted_down q))" using OK(7) L(2) by simp
    have "length (blit 0 (stored_body q) buf) = length buf"
      using read_body(2) [OF assms(1) L(1-3)] L by simp
    then show ?thesis
      unfolding dequeue_taken [OF assms] taken_def
      using False L n passes_ok(2,4) [OF q'] assms(3) by (auto simp: Let_def)
  qed
qed

theorem mq_dequeue_bounds_witness:
  "\<exists>len buf q. dequeue sample_proc (replicate 32 0) 32 0 sample_full = Some (kOk, len, buf, q) \<and> unat len + 4 \<le> 32"
proof -
  have "dequeue sample_proc (replicate 32 0) 32 0 sample_full =
      Some (kOk, of_nat (length [5, 6 :: byte]), blit 0 ([5, 6] @ magic) (replicate 32 0), after_first [5, 6] sample_full)"
    using holds_dequeue [OF client_queueD(1) [OF sample_full], of "replicate 32 0" 32 sample_proc 0] by simp
  then show ?thesis
    using mq_dequeue_bounds [of sample_full "replicate 32 0" 32 sample_proc 0]
      holdsD(1) [OF client_queueD(1) [OF sample_full]] client_queueD(3) [OF sample_full] by simp
qed

subsection \<open>First in, first out\<close>

text \<open>
  C24: For every sequence of calls of a producer and a consumer, whose buffer takes every
  message with its magic number, the replies are those of a list queue in which the messages,
  each with 12 bytes, must leave a byte of the block free.
\<close>

theorem mq_refines_list_queue:
  assumes "client_queue cap n ms q" "\<forall>c\<in>set cs. qcmd_ok (\<lambda>m. length m + 4 \<le> n) c"
  shows "fst (run_cmds (mq_call env n) cs q) = fst (run_cmds (lq_step msg_cost cap) cs ms) \<and>
    client_queue cap n (snd (run_cmds (lq_step msg_cost cap) cs ms)) (snd (run_cmds (mq_call env n) cs q))"
  using mq.run_law [OF assms] by (simp add: mq_call_exec)

theorem mq_refines_list_queue_witness:
  "fst (run_cmds (mq_call sample_proc 32) [Send [5, 6], Send [7], Receive, Receive, Receive] sample_mq) =
   [Sent True, Sent True, Received (Some [5, 6]), Received (Some [7]), Received None]"
  using mq_refines_list_queue [OF sample_queue, of "[Send [5, 6], Send [7], Receive, Receive, Receive]" sample_proc]
  by (simp add: msg_cost_def)

text \<open>
  C25: The messages in the queue at the start, then those accepted, are the messages received,
  then those in the queue at the end: none is lost, made up, doubled or reordered.
\<close>

theorem mq_conserves_messages:
  assumes "client_queue cap n ms q" "\<forall>c\<in>set cs. qcmd_ok (\<lambda>m. length m + 4 \<le> n) c"
    and "run_cmds (mq_call env n) cs q = (rs, q')"
  shows "\<exists>ms'. client_queue cap n ms' q' \<and> ms @ accepted cs rs = received rs @ ms'"
  using mq.conservation [OF assms(1,2), of env rs q'] assms(3) by (simp add: mq_call_exec)

theorem mq_conserves_messages_witness:
  "received (fst (run_cmds (mq_call sample_proc 32) [Receive] sample_full)) = [[5, 6]]"
proof -
  obtain rs q' where run: "run_cmds (mq_call sample_proc 32) [Receive] sample_full = (rs, q')"
    by (cases "run_cmds (mq_call sample_proc 32) [Receive] sample_full")
  have "mq_receive sample_proc 32 sample_full = (Some [5, 6], after_first [5, 6] sample_full)"
    by (rule receive_first [OF sample_full])
  then have rs: "rs = [Received (Some [5, 6])]" using run by simp
  then show ?thesis
    using mq_conserves_messages [OF sample_full _ run] run by simp
qed

text \<open>
  The statistics of a queue tell the bytes its messages occupy and the bytes left, which
  add up to the block, and the number of messages.
\<close>

theorem mq_stat_exact:
  assumes "holds ms q" "counted ms q"
  shows "\<exists>st. getstat q = (kOk, Some st) \<and> unat (usedLen st) = space msg_cost ms \<and>
    unat (usedLen st) + unat (freeLen st) = unat (totalLen st) \<and> totalLen st = blockSize q \<and>
    getMsgCount c q = (kOk, int (length ms)) \<and> isEmpty b q = (kOk, ms = [])"
proof -
  note H = holdsD [OF assms(1)]
  note D = mq_okD [OF H(1)]
  have used: "unat (if q_tail (seg q) \<ge> q_head (seg q) then q_tail (seg q) - q_head (seg q)
      else q_tail (seg q) + blockSize q - q_head (seg q)) = space msg_cost ms"
  proof (cases "ms = []")
    case True
    then show ?thesis using holds_lens(2) [OF assms(1)] by simp
  next
    case False
    then have "q_head (seg q) \<noteq> q_tail (seg q)" using holds_lens(2) [OF assms(1)] by simp
    then show ?thesis
      using holds_lens(3) [OF assms(1) False] by (simp add: used_len_def order.strict_iff_order)
  qed
  have "length ms \<le> space msg_cost ms" by (induction ms) (simp_all add: msg_cost_def)
  then have small: "int (length ms) < 2 ^ 31" using H(2) D(4) by simp
  have "sint (of_nat (length ms) :: u32) = int (length ms)"
    using small by (simp add: signed_of_nat signed_take_bit_int_eq_self)
  then show ?thesis
    using D(1) used holds_lens(1) [OF assms(1)] H(2) counted_zero [OF assms] assms(2)
    by (simp add: getstat_def getMsgCount_def isEmpty_def counted_def Let_def free_len_def)
qed

theorem mq_stat_exact_witness: "getMsgCount 0 sample_full = (kOk, 1)"
  using mq_stat_exact [OF client_queueD(1,2) [OF sample_full], of 0 True] by auto

subsection \<open>Errors\<close>

text \<open>
  A receive whose buffer cannot take the message and its magic number leaves the message
  in the queue but has already counted it as taken: if it was the only one, every later
  receive, with any buffer, reports an empty queue although the message is still there.
\<close>

theorem mq_small_buffer_hides_message:
  assumes "client_queue cap n [m] q" "length buf = unat bufSize" "unat bufSize < length m + 4"
  shows "\<exists>q'. comsume env buf bufSize dl \<lparr>c_mq = Some q\<rparr> =
      Some (kErrInputBufNotEnoughSpace, of_nat (length m + 4), buf, \<lparr>c_mq = Some q'\<rparr>) \<and> holds [m] q' \<and>
    comsume env buf2 bufSize2 dl2 \<lparr>c_mq = Some q'\<rparr> = Some (kErrShmMQEmpty, dl2, buf2, \<lparr>c_mq = Some q'\<rparr>)"
proof -
  note C = client_queueD [OF assms(1)]
  have "unat bufSize + 8 < 2 ^ 32" using assms(3) C(4) C(5) [of m] by simp
  then have "dequeue env buf bufSize dl q =
      Some (kErrInputBufNotEnoughSpace, of_nat (length m + 4), buf, counted_down q)"
    using holds_dequeue [OF C(1) assms(2), of env dl] assms(3) by simp
  moreover have "msgCount (seg q) = 1" using C(2) by (simp add: counted_def)
  moreover have "isInit q" "isInit (counted_down q)"
    using mq_okD(1) [OF holdsD(1) [OF C(1)]] by (simp_all add: counted_down_def)
  ultimately show ?thesis
    using C(1) by (intro exI [of _ "counted_down q"]) (simp add: comsume_def isEmpty_def)
qed

theorem mq_small_buffer_hides_message_witness:
  "\<exists>q'. comsume sample_proc [0, 0, 0, 0] 4 0 \<lparr>c_mq = Some sample_full\<rparr> =
      Some (kErrInputBufNotEnoughSpace, 6, [0, 0, 0, 0], \<lparr>c_mq = Some q'\<rparr>) \<and> holds [[5, 6]] q' \<and>
    comsume sample_proc (replicate 32 0) 32 0 \<lparr>c_mq = Some q'\<rparr> =
      Some (kErrShmMQEmpty, 0, replicate 32 0, \<lparr>c_mq = Some q'\<rparr>)"
  using mq_small_buffer_hides_message [OF sample_full, of "[0, 0, 0, 0]" 4 sample_proc 0 "replicate 32 0" 32 0]
  by simp



text \<open>
  C27: When a position lies outside of the block, both operations report it without touching
  the block; the queue is emptied, and usable afterwards, unless the process that is noted
  as emptying it exists.
\<close>

theorem mq_bad_positions_repaired:
  assumes "isInit q" "pstat q = Ptr" "length (block (seg q)) = unat (blockSize q)" "0 < unat (blockSize q)"
    "unat (blockSize q) < 2 ^ 31" "blockSize q < q_head (seg q) \<or> blockSize q < q_tail (seg q)"
  shows "\<exists>q'. enqueue env data dataLen q = Some (kErrDataMess, q') \<and>
    dequeue env buf bufSize dl q = Some (kErrDataMess, 0, buf, q') \<and>
    (if q_pid (seg q) = 0 \<or> kill0 env (q_pid (seg q)) = Some ESRCH then holds [] q' \<and> counted [] q' else q' = q)"
proof -
  have "checkProcExist (kill0 env) p \<longleftrightarrow> kill0 env p \<noteq> Some ESRCH" for p
    by (simp add: checkProcExist_def split: option.split)
  moreover have "holds [] (cleared q) \<and> counted [] (cleared q)"
    using assms(1-5) by (simp add: holds_def mq_ok_def counted_def cleared_def ring_pos_def ring_read_def)
  ultimately show ?thesis
    using check_repairs [OF assms(1,6)] by (intro exI [of _ "repaired env q"]) (simp add: repaired_def)
qed

theorem mq_bad_positions_repaired_witness:
  "\<exists>q. enqueue sample_proc [1] 1 (sample_mq\<lparr>seg := sample_seg\<lparr>q_head := 65\<rparr>\<rparr>) = Some (kErrDataMess, q) \<and> holds [] q"
  using mq_bad_positions_repaired [of "sample_mq\<lparr>seg := sample_seg\<lparr>q_head := 65\<rparr>\<rparr>" sample_proc "[1]" 1 "[]" 0 0]
  by (auto simp: sample_mq_eq sample_seg_def)

text \<open>
  A length within 12 of the range of 32 bits makes the computed total wrap around to less
  than 12: the message is taken for a short one and written far outside of the block.
\<close>

theorem mq_huge_length_overflows:
  assumes "mq_ok q" "2 ^ 32 \<le> unat dataLen + 12"
    "12 \<le> unat (free_len (blockSize q) (q_head (seg q)) (q_tail (seg q)))" "unat (q_tail (seg q)) + 12 \<le> unat (blockSize q)"
  shows "enqueue env data dataLen q = None"
proof -
  let ?t = "q_tail (seg q)"
  note D = mq_okD [OF assms(1)]
  have lt: "unat dataLen < 2 ^ 32" by (rule less_le_trans [OF unsigned_less]) simp
  have "unat (dataLen + 12) = (unat dataLen + 12) mod 2 ^ 32" by (simp add: unat_word_ariths)
  also have "\<dots> = unat dataLen + 12 - 2 ^ 32" using assms(2) lt by (simp add: le_mod_geq)
  finally have m: "unat (dataLen + 12) < 12" using lt by simp
  have c: "\<not> free_len (blockSize q) (q_head (seg q)) ?t \<le> dataLen + 12"
    using m assms(3) by (simp add: word_le_nat_alt)
  have t: "blockSize q - ?t \<ge> dataLen + 12"
    using m assms(4) unat_minus [OF D(6)] by (simp add: word_le_nat_alt)
  have "mem_write (unat ?t + 8) d b = None" if "length d = unat dataLen" "length b = unat (blockSize q)" for d b
    using that assms(2) D(4) by (simp add: mem_write_def)
  moreover have "length b = unat (blockSize q)" if "mem_write (unat ?t) x (block (seg q)) = Some b" for x b
    using that D(3) by (auto simp: mem_write_def split: if_splits)
  moreover have "length d = unat dataLen" if "mem_load 0 (unat dataLen) data = Some d" for d
    using that by (auto simp: mem_load_def split: if_splits)
  ultimately have "place_msg data dataLen (blockSize q) ?t (block (seg q)) = None"
    unfolding place_msg_def msg_len_word Let_def if_P [OF t]
    by (auto simp: bind_eq_None_conv)
  then show ?thesis
    unfolding enqueue_def Let_def mq_check_ok [OF assms(1)] msg_len_word using D(1) c by simp
qed

theorem mq_huge_length_overflows_witness: "enqueue sample_proc [] (- 1) sample_mq = None"
  using mq_huge_length_overflows [OF sample_ok(1), of "- 1" sample_proc "[]"]
  by (simp add: sample_mq_eq sample_seg_def free_len_def unsigned_minus_1_eq_mask mask_eq_exp_minus_1)

subsection \<open>Opening\<close>

text \<open>
  A new segment, which the kernel fills with zeros, becomes an empty queue whose block is
  the size without the positions and the process id.
\<close>

theorem mq_create_empty:
  assumes "12 < unat sz" "unat sz < 2 ^ 31" "mq_create svc key (sz + 8) = Inr i" "mq_attach svc i = Some s"
    "length (block s) = unat sz - 12" "msgCount s = 0" "n + 8 < 2 ^ 32"
  shows "\<exists>q. mq_init svc key sz q0 = (kOk, q) \<and> client_queue (unat sz - 12) n [] q"
  using init_creates_queue [OF assms(3,4,1,2,5,6), of q0] assms(7) by (auto simp: client_queue_def)

theorem mq_create_empty_witness:
  "\<exists>q. mq_init sample_svc 1 76 ShmMQ = (kOk, q) \<and> client_queue 64 32 [] q"
  using mq_create_empty [of 76 sample_svc 1 7 sample_seg 32 ShmMQ] by (simp add: sample_svc_def sample_seg_def)

text \<open>
  A process that opens the segment of a queue with the size it was created with sees the
  messages in it.
\<close>

theorem mq_open_shares:
  assumes "client_queue cap n ms q1" "sz = blockSize q1 + 12"
    and "mq_create svc key (sz + 8) = Inl EEXIST" "mq_open svc key = Some i" "mq_attach svc i = Some (seg q1)"
  shows "\<exists>q. mq_init svc key sz q0 = (kOk, q) \<and> client_queue cap n ms q"
  using init_opens_queue [OF assms(3-5) client_queueD(1) [OF assms(1)] assms(2), of q0] assms(1)
  by (auto simp: client_queue_def counted_def)

theorem mq_open_shares_witness:
  "\<exists>q. mq_init \<lparr>mq_create = (\<lambda>_ _. Inl EEXIST), mq_open = (\<lambda>_. Some 7), mq_attach = (\<lambda>_. Some (seg sample_full))\<rparr>
      1 76 ShmMQ = (kOk, q) \<and> client_queue 64 32 [[5, 6]] q"
proof -
  have "blockSize sample_full = 64" by (simp add: sample_full_def sample_mq_eq)
  then show ?thesis by (intro mq_open_shares [OF sample_full]) simp_all
qed

text \<open>
  A producer with a lock file that is initialised again closes the descriptor it had twice, by its own
  finaliser and by the virtual one that \<^verbatim>\<open>ShmMQProducer::init\<close> calls; and when opening the queue
  fails, it keeps the number of the closed descriptor, and its finaliser closes it once more.
\<close>

theorem lock_producer_closes_twice:
  assumes "0 < p_mfd p" "fst (mq_init svc key sz ShmMQ) \<noteq> kOk"
  shows "fst (lock_producer_fini p) = Some (p_mfd p) \<and>
    fst (lock_producer_fini (snd (lock_producer_fini p))) = Some (p_mfd p) \<and>
    fst (lock_producer_init le svc key sz path p) \<noteq> kOk \<and>
    fst (lock_producer_fini (snd (lock_producer_init le svc key sz path p))) = Some (p_mfd p)"
  using assms
  by (cases "mq_init svc key sz ShmMQ")
    (simp add: lock_producer_fini_def lock_producer_init_def producer_init_def producer_fini_def Let_def)

theorem lock_producer_closes_twice_witness:
  "fst (lock_producer_fini (snd (lock_producer_init \<lparr>open_file = (\<lambda>_. 3), flock_ex = (\<lambda>_. True)\<rparr>
      \<lparr>mq_create = (\<lambda>_ _. Inl EINVAL), mq_open = (\<lambda>_. None), mq_attach = (\<lambda>_. None)\<rparr> 1 76 []
      \<lparr>p_mq = None, p_mfd = 5\<rparr>))) = Some 5"
  using lock_producer_closes_twice [of "\<lparr>p_mq = None, p_mfd = 5\<rparr>"
      "\<lparr>mq_create = (\<lambda>_ _. Inl EINVAL), mq_open = (\<lambda>_. None), mq_attach = (\<lambda>_. None)\<rparr>" 1 76
      "\<lparr>open_file = (\<lambda>_. 3), flock_ex = (\<lambda>_. True)\<rparr>" "[]"]
  by (simp add: mq_init_def getmemory_def mq_fini_def ShmMQ_def Let_def)

end
