(* ===== verification/Msg_Spsc.thy ===== *)
theory Msg_Spsc
  imports Msg_Fifo
begin

text \<open>
  One producer and one consumer of the message queue running at the same time, each shared
  access of \<^verbatim>\<open>enqueue\<close> and \<^verbatim>\<open>dequeue\<close> being a step of its own, in the order of the code; between
  two steps of one process the other may run. The bytes of a message may be written in any
  order and with any values in between, as long as they are in place before the tail moves.
  Memory is sequentially consistent. The fields \<open>sent\<close> and \<open>got\<close> record the messages whose
  tail was published and those handed out.
\<close>

subsection \<open>Steps\<close>

text \<open>Where the producer is, with its local variables; \<open>P_failed\<close> stands for the error return of \<^verbatim>\<open>check\<close>.\<close>

datatype prod_pc =
    P_idle
  | P_head bytes u32
  | P_tail bytes u32 u32
  | P_writing bytes u32
  | P_placed bytes u32
  | P_published
  | P_failed

text \<open>Where the consumer is; \<open>C_failed\<close> stands for the error return of \<^verbatim>\<open>check\<close>
  and for every error return behind the counting.\<close>

datatype cons_pc =
    C_idle
  | C_head u32
  | C_tail u32 u32
  | C_counted u32 u32
  | C_sized u32 u32
  | C_copied bytes u32 u32
  | C_moved bytes u32
  | C_failed

record spsc =
  sh :: mq_seg
  prod :: prod_pc
  cons :: cons_pc
  sent :: "bytes list"
  got :: "bytes list"

text \<open>The bytes the placement of a message at \<open>t\<close> may touch.\<close>

definition msg_region :: "nat \<Rightarrow> nat \<Rightarrow> bytes \<Rightarrow> nat set" where
  "msg_region bs t d = ring_index bs t ` {..<length d + 12}"

inductive spsc_step :: "u32 \<Rightarrow> nat \<Rightarrow> spsc \<Rightarrow> spsc \<Rightarrow> bool" for bs n where
  p_head: "prod s = P_idle \<Longrightarrow> length d + 4 \<le> n \<Longrightarrow>
    spsc_step bs n s (s\<lparr>prod := P_head d (q_head (sh s))\<rparr>)"
| p_tail: "prod s = P_head d h \<Longrightarrow> spsc_step bs n s (s\<lparr>prod := P_tail d h (q_tail (sh s))\<rparr>)"
| p_full: "prod s = P_tail d h t \<Longrightarrow>
    free_len bs h t \<le> of_nat (length d) + MSG_HEAD_SIZE + 2 * MSG_MAGIC_NUM_LEN \<Longrightarrow>
    h \<le> bs \<Longrightarrow> t \<le> bs \<Longrightarrow>
    spsc_step bs n s (s\<lparr>prod := P_idle\<rparr>)"
| p_bad: "prod s = P_tail d h t \<Longrightarrow> bs < h \<or> bs < t \<Longrightarrow> spsc_step bs n s (s\<lparr>prod := P_failed\<rparr>)"
| p_room: "prod s = P_tail d h t \<Longrightarrow>
    \<not> free_len bs h t \<le> of_nat (length d) + MSG_HEAD_SIZE + 2 * MSG_MAGIC_NUM_LEN \<Longrightarrow>
    h \<le> bs \<Longrightarrow> t \<le> bs \<Longrightarrow>
    spsc_step bs n s (s\<lparr>prod := P_writing d t\<rparr>)"
| p_write: "prod s = P_writing d t \<Longrightarrow> length b = length (block (sh s)) \<Longrightarrow>
    (\<And>j. j < length b \<Longrightarrow> j \<notin> msg_region (unat bs) (unat t) d \<Longrightarrow> b ! j = block (sh s) ! j) \<Longrightarrow>
    spsc_step bs n s (s\<lparr>sh := (sh s)\<lparr>block := b\<rparr>\<rparr>)"
| p_place: "prod s = P_writing d t \<Longrightarrow> place_msg d (of_nat (length d)) bs t (block (sh s)) = Some (b, t') \<Longrightarrow>
    spsc_step bs n s (s\<lparr>sh := (sh s)\<lparr>block := b\<rparr>, prod := P_placed d t'\<rparr>)"
| p_publish: "prod s = P_placed d t \<Longrightarrow>
    spsc_step bs n s (s\<lparr>sh := (sh s)\<lparr>q_tail := t\<rparr>, prod := P_published, sent := sent s @ [d]\<rparr>)"
| p_count: "prod s = P_published \<Longrightarrow>
    spsc_step bs n s (s\<lparr>sh := (sh s)\<lparr>msgCount := increment (msgCount (sh s))\<rparr>, prod := P_idle\<rparr>)"
| c_head: "cons s = C_idle \<Longrightarrow> spsc_step bs n s (s\<lparr>cons := C_head (q_head (sh s))\<rparr>)"
| c_tail: "cons s = C_head h \<Longrightarrow> spsc_step bs n s (s\<lparr>cons := C_tail h (q_tail (sh s))\<rparr>)"
| c_bad: "cons s = C_tail h t \<Longrightarrow> bs < h \<or> bs < t \<Longrightarrow> spsc_step bs n s (s\<lparr>cons := C_failed\<rparr>)"
| c_empty: "cons s = C_tail h t \<Longrightarrow> h = t \<Longrightarrow> h \<le> bs \<Longrightarrow> spsc_step bs n s (s\<lparr>cons := C_idle\<rparr>)"
| c_count: "cons s = C_tail h t \<Longrightarrow> h \<noteq> t \<Longrightarrow> h \<le> bs \<Longrightarrow> t \<le> bs \<Longrightarrow>
    spsc_step bs n s (s\<lparr>sh := (sh s)\<lparr>msgCount := decrement (msgCount (sh s))\<rparr>, cons := C_counted h t\<rparr>)"
| c_size: "cons s = C_counted h t \<Longrightarrow> take_head bs h (block (sh s)) = Some (hb, h') \<Longrightarrow>
    of_le (mem_read 0 4 hb) = MSG_MAGIC_NUM \<Longrightarrow> len = of_le (mem_read 4 4 hb) \<Longrightarrow> len \<le> used_len bs h t \<Longrightarrow>
    len - MSG_HEAD_SIZE - MSG_MAGIC_NUM_LEN \<le> of_nat n \<Longrightarrow>
    spsc_step bs n s (s\<lparr>cons := C_sized h' (len - MSG_HEAD_SIZE - MSG_MAGIC_NUM_LEN)\<rparr>)"
| c_size_bad: "cons s = C_counted h t \<Longrightarrow>
    (\<And>hb h'. take_head bs h (block (sh s)) = Some (hb, h') \<Longrightarrow>
      of_le (mem_read 0 4 hb) \<noteq> MSG_MAGIC_NUM \<or> \<not> of_le (mem_read 4 4 hb) \<le> used_len bs h t \<or>
      \<not> of_le (mem_read 4 4 hb) - MSG_HEAD_SIZE - MSG_MAGIC_NUM_LEN \<le> of_nat n) \<Longrightarrow>
    spsc_step bs n s (s\<lparr>cons := C_failed\<rparr>)"
| c_copy: "cons s = C_sized h k \<Longrightarrow> take_data bs h k (block (sh s)) (replicate n 0) = Some (buf, h') \<Longrightarrow>
    spsc_step bs n s (s\<lparr>cons := C_copied buf h' k\<rparr>)"
| c_copy_bad: "cons s = C_sized h k \<Longrightarrow> take_data bs h k (block (sh s)) (replicate n 0) = None \<Longrightarrow>
    spsc_step bs n s (s\<lparr>cons := C_failed\<rparr>)"
| c_move: "cons s = C_copied buf h k \<Longrightarrow>
    spsc_step bs n s (s\<lparr>sh := (sh s)\<lparr>q_head := h\<rparr>, cons := C_moved buf k\<rparr>)"
| c_done: "cons s = C_moved buf k \<Longrightarrow> mem_load (unat (k - MSG_MAGIC_NUM_LEN)) 4 buf = Some m \<Longrightarrow>
    of_le m = MSG_MAGIC_NUM \<Longrightarrow>
    spsc_step bs n s (s\<lparr>sh := (sh s)\<lparr>processCount := increment (processCount (sh s))\<rparr>, cons := C_idle,
      got := got s @ [take (unat (k - MSG_MAGIC_NUM_LEN)) buf]\<rparr>)"
| c_done_bad: "cons s = C_moved buf k \<Longrightarrow>
    (\<And>m. mem_load (unat (k - MSG_MAGIC_NUM_LEN)) 4 buf = Some m \<Longrightarrow> of_le m \<noteq> MSG_MAGIC_NUM) \<Longrightarrow>
    spsc_step bs n s (s\<lparr>cons := C_failed\<rparr>)"

inductive_cases spsc_stepE: "spsc_step bs n s t"

subsection \<open>Invariant\<close>

text \<open>The segment as an attached object.\<close>

definition mq_obj :: "u32 \<Rightarrow> mq_seg \<Rightarrow> shm_mq" where
  "mq_obj bs g = \<lparr>shmKey = 0, shmSize = 0, shmId = 0, pstat = Ptr, blockSize = bs, isInit = True, seg = g\<rparr>"

lemma mq_obj_fields [simp]: "blockSize (mq_obj bs g) = bs" "seg (mq_obj bs g) = g"
  by (simp_all add: mq_obj_def)

text \<open>A head read earlier: the consumer has moved on by \<open>k\<close> bytes since.\<close>

definition stale_head :: "u32 \<Rightarrow> bytes list \<Rightarrow> mq_seg \<Rightarrow> u32 \<Rightarrow> bool" where
  "stale_head bs ms g h \<longleftrightarrow> h \<le> bs \<and>
     (\<exists>k. unat (q_head g) = ring_pos (unat bs) (unat h) k \<and> k + space msg_cost ms < unat bs)"

text \<open>A tail read earlier: it is behind a first part of the messages.\<close>

definition stale_tail :: "u32 \<Rightarrow> bytes list \<Rightarrow> mq_seg \<Rightarrow> u32 \<Rightarrow> bool" where
  "stale_tail bs ms g t \<longleftrightarrow>
     (\<exists>ms1 ms2. ms = ms1 @ ms2 \<and> unat t = ring_pos (unat bs) (unat (q_head g)) (space msg_cost ms1))"

fun prod_inv :: "u32 \<Rightarrow> nat \<Rightarrow> bytes list \<Rightarrow> mq_seg \<Rightarrow> prod_pc \<Rightarrow> bool" where
  "prod_inv bs n ms g P_idle \<longleftrightarrow> True"
| "prod_inv bs n ms g (P_head d h) \<longleftrightarrow> length d + 4 \<le> n \<and> stale_head bs ms g h"
| "prod_inv bs n ms g (P_tail d h t) \<longleftrightarrow> length d + 4 \<le> n \<and> stale_head bs ms g h \<and> t = q_tail g"
| "prod_inv bs n ms g (P_writing d t) \<longleftrightarrow>
     length d + 4 \<le> n \<and> t = q_tail g \<and> space msg_cost ms + msg_cost d < unat bs"
| "prod_inv bs n ms g (P_placed d t) \<longleftrightarrow>
     length d + 4 \<le> n \<and> holds (ms @ [d]) (mq_obj bs (g\<lparr>q_tail := t\<rparr>))"
| "prod_inv bs n ms g P_published \<longleftrightarrow> True"
| "prod_inv bs n ms g P_failed \<longleftrightarrow> False"

definition whole :: "bytes \<Rightarrow> bytes \<Rightarrow> u32 \<Rightarrow> nat \<Rightarrow> bool" where
  "whole m buf k n \<longleftrightarrow> unat k = length m + 4 \<and> length m + 4 \<le> n \<and> length buf = n \<and>
     take (length m + 4) buf = m @ magic"

fun cons_inv :: "u32 \<Rightarrow> nat \<Rightarrow> bytes list \<Rightarrow> mq_seg \<Rightarrow> cons_pc \<Rightarrow> bool" where
  "cons_inv bs n ms g C_idle \<longleftrightarrow> True"
| "cons_inv bs n ms g (C_head h) \<longleftrightarrow> h = q_head g"
| "cons_inv bs n ms g (C_tail h t) \<longleftrightarrow> h = q_head g \<and> stale_tail bs ms g t"
| "cons_inv bs n ms g (C_counted h t) \<longleftrightarrow> h = q_head g \<and> h \<noteq> t \<and> stale_tail bs ms g t"
| "cons_inv bs n ms g (C_sized h k) \<longleftrightarrow>
     (\<exists>m ms'. ms = m # ms' \<and> h = of_nat (ring_pos (unat bs) (unat (q_head g)) 8) \<and> unat k = length m + 4)"
| "cons_inv bs n ms g (C_copied buf h k) \<longleftrightarrow>
     (\<exists>m ms'. ms = m # ms' \<and> h = of_nat (ring_pos (unat bs) (unat (q_head g)) (length m + 12)) \<and> whole m buf k n)"
| "cons_inv bs n ms g (C_moved buf k) \<longleftrightarrow> (\<exists>m. whole m buf k n)"
| "cons_inv bs n ms g C_failed \<longleftrightarrow> False"

text \<open>The message taken off the queue and not yet handed out.\<close>

fun in_hand :: "cons_pc \<Rightarrow> bytes list" where
  "in_hand (C_moved buf k) = [take (unat k - 4) buf]"
| "in_hand _ = []"

text \<open>What the counter lags behind: a message published and not counted, one counted off and not taken.\<close>

definition lag :: "prod_pc \<Rightarrow> cons_pc \<Rightarrow> u32" where
  "lag p c = (if p = P_published then 1 else 0) +
     (case c of C_counted _ _ \<Rightarrow> 1 | C_sized _ _ \<Rightarrow> 1 | C_copied _ _ _ \<Rightarrow> 1 | _ \<Rightarrow> 0)"

definition spsc_inv :: "u32 \<Rightarrow> nat \<Rightarrow> spsc \<Rightarrow> bool" where
  "spsc_inv bs n s \<longleftrightarrow>
     (\<exists>ms. holds ms (mq_obj bs (sh s)) \<and> (\<forall>m\<in>set ms. length m + 4 \<le> n) \<and>
       sent s = got s @ in_hand (cons s) @ ms \<and> prod_inv bs n ms (sh s) (prod s) \<and>
       cons_inv bs n ms (sh s) (cons s) \<and> msgCount (sh s) + lag (prod s) (cons s) = of_nat (length ms))"

subsection \<open>What the steps need\<close>

lemma obj_holds [simp]:
  "holds ms (mq_obj bs (g\<lparr>msgCount := c\<rparr>)) = holds ms (mq_obj bs g)"
  "holds ms (mq_obj bs (g\<lparr>processCount := c\<rparr>)) = holds ms (mq_obj bs g)"
  by (simp_all add: holds_def mq_ok_def mq_obj_def)

lemma objD:
  assumes "holds ms (mq_obj bs g)"
  shows "unat bs < 2 ^ 31" "length (block g) = unat bs" "q_head g \<le> bs" "q_tail g \<le> bs"
    "unat (q_head g) \<le> unat bs" "unat (q_tail g) \<le> unat bs" "space msg_cost ms < unat bs"
    "unat (q_tail g) = ring_pos (unat bs) (unat (q_head g)) (space msg_cost ms)"
    "ring_read (unat (q_head g)) (space msg_cost ms) (block g) = frames ms"
  using holdsD [OF assms] mq_okD [OF holdsD(1) [OF assms]] by simp_all

lemma stale_tail_bound:
  assumes "stale_tail bs ms g t" "holds ms (mq_obj bs g)"
  shows "t \<le> bs"
proof -
  note D = objD [OF assms(2)]
  obtain ms1 ms2 where "ms = ms1 @ ms2" and t: "unat t = ring_pos (unat bs) (unat (q_head g)) (space msg_cost ms1)"
    using assms(1) unfolding stale_tail_def by blast
  then have "space msg_cost ms1 \<le> unat bs" using D(7) by simp
  then show ?thesis unfolding word_le_nat_alt t by (rule ring_pos_le [OF D(5)])
qed

text \<open>With a stale head the free space is underestimated, so that a message that fits does fit.\<close>

lemma stale_room:
  assumes h: "holds ms (mq_obj bs g)" and stale: "stale_head bs ms g h"
    and room: "\<not> free_len bs h (q_tail g) \<le> of_nat (length d) + MSG_HEAD_SIZE + 2 * MSG_MAGIC_NUM_LEN"
    and d: "length d + 12 < 2 ^ 32"
  shows "space msg_cost ms + msg_cost d < unat bs"
proof -
  note D = objD [OF h]
  obtain k where k: "unat (q_head g) = ring_pos (unat bs) (unat h) k" "k + space msg_cost ms < unat bs" and hb: "h \<le> bs"
    using stale unfolding stale_head_def by blast
  have hn: "unat h \<le> unat bs" using hb by (simp add: word_le_nat_alt)
  have "unat (q_tail g) = ring_pos (unat bs) (unat h) (k + space msg_cost ms)"
    unfolding D(8) k(1) using k(2) by (intro ring_pos_add [OF hn]) simp
  then have free: "unat (free_len bs h (q_tail g)) = unat bs - (k + space msg_cost ms)"
    using k(2) hn unfolding free_len_nat(1) [OF hb D(4,1)] by (auto simp: ring_pos_def)
  have "unat (of_nat (length d) + 12 :: u32) = length d + 12"
    using d by (subst unat_plus) (simp_all add: unsigned_of_nat take_bit_nat_eq_self)
  then show ?thesis
    using room free unfolding msg_len_word by (simp add: word_le_nat_alt msg_cost_def)
qed

text \<open>The space behind the tail is not part of the content.\<close>

lemma region_disjoint:
  assumes "h \<le> bs" "l + (length d + 12) < bs" "i < l"
  shows "ring_index bs h i \<notin> msg_region bs (ring_pos bs h l) d"
proof
  assume "ring_index bs h i \<in> msg_region bs (ring_pos bs h l) d"
  then obtain j where "j < length d + 12" "ring_index bs h i = ring_index bs (ring_pos bs h l) j"
    by (auto simp: msg_region_def)
  then show False using assms by (auto simp: ring_index_def ring_pos_def split: if_splits)
qed

lemma holds_scribbled:
  assumes h: "holds ms (mq_obj bs g)" and fits: "space msg_cost ms + msg_cost d < unat bs"
    and b: "length b = length (block g)"
    "\<And>j. j < length b \<Longrightarrow> j \<notin> msg_region (unat bs) (unat (q_tail g)) d \<Longrightarrow> b ! j = block g ! j"
  shows "holds ms (mq_obj bs (g\<lparr>block := b\<rparr>))"
proof -
  note D = objD [OF h]
  let ?h = "unat (q_head g)" and ?L = "space msg_cost ms"
  have "ring_read ?h ?L b = ring_read ?h ?L (block g)"
  proof (rule nth_equalityI)
    show "length (ring_read ?h ?L b) = length (ring_read ?h ?L (block g))" using D(2,5,7) b(1) by simp
    fix i assume "i < length (ring_read ?h ?L b)"
    then have i: "i < ?L" using D(2,5,7) b(1) by simp
    have "ring_index (unat bs) ?h i < unat bs" using i D(5,7) by (auto simp: ring_index_def)
    moreover have "ring_index (unat bs) ?h i \<notin> msg_region (unat bs) (unat (q_tail g)) d"
      unfolding D(8) using fits by (intro region_disjoint [OF D(5) _ i]) (simp add: msg_cost_def)
    ultimately have "b ! ring_index (unat bs) ?h i = block g ! ring_index (unat bs) ?h i"
      using b D(2) by simp
    then show "ring_read ?h ?L b ! i = ring_read ?h ?L (block g) ! i"
      using nth_ring_read [of ?h b ?L i] nth_ring_read [of ?h "block g" ?L i] i D(2,5,7) b(1) by simp
  qed
  then show ?thesis
    using h b(1) by (simp add: holds_def mq_ok_def mq_obj_def)
qed

text \<open>The message placed, before and after the tail moves.\<close>

lemma holds_place:
  assumes h: "holds ms (mq_obj bs g)" and fits: "space msg_cost ms + msg_cost d < unat bs"
    and place: "place_msg d (of_nat (length d)) bs (q_tail g) (block g) = Some (b, t)"
  shows "holds ms (mq_obj bs (g\<lparr>block := b\<rparr>))" "holds (ms @ [d]) (mq_obj bs (g\<lparr>block := b, q_tail := t\<rparr>))"
proof -
  note D = objD [OF h]
  have len: "unat (of_nat (length d) :: u32) = length d"
    using fits D(1) by (simp add: msg_cost_def unsigned_of_nat take_bit_nat_eq_self)
  have "unat (of_nat (length d) :: u32) + 12 \<le> unat bs" using fits len by (simp add: msg_cost_def)
  from place_msg_ring [OF len [symmetric] D(2,4) this D(1)] place
  have b: "b = ring_write (unat (q_tail g)) (frame d) (block g)"
    and t: "t = of_nat (ring_pos (unat bs) (unat (q_tail g)) (length d + 12))" by simp_all
  have "mq_obj bs (g\<lparr>block := b, q_tail := t, msgCount := msgCount g + 1\<rparr>) = placed d (mq_obj bs g)"
    by (simp add: placed_def b t mq_obj_def)
  then have "holds (ms @ [d]) (mq_obj bs (g\<lparr>block := b, q_tail := t, msgCount := msgCount g + 1\<rparr>))"
    using holds_placed [OF h, of d] fits by simp
  then show new: "holds (ms @ [d]) (mq_obj bs (g\<lparr>block := b, q_tail := t\<rparr>))"
    by (simp add: holds_def mq_ok_def mq_obj_def)
  have lb: "length b = unat bs" using fits D by (simp add: b msg_cost_def)
  have "ring_read (unat (q_head g)) (space msg_cost ms) b =
      take (space msg_cost ms) (ring_read (unat (q_head g)) (space msg_cost (ms @ [d])) b)"
    using D(5,7) fits lb by (intro ring_read_prefix) simp_all
  also have "\<dots> = take (space msg_cost ms) (frames (ms @ [d]))" using objD(9) [OF new] by simp
  also have "\<dots> = frames ms" using length_frames [of ms] by simp
  finally show "holds ms (mq_obj bs (g\<lparr>block := b\<rparr>))"
    using h lb by (simp add: holds_def mq_ok_def mq_obj_def)
qed

text \<open>The head of the first message, seen with a tail read earlier.\<close>

lemma counted_head:
  assumes h: "holds ms (mq_obj bs g)" and c: "q_head g \<noteq> t" "stale_tail bs ms g t"
    and n: "\<forall>m\<in>set ms. length m + 4 \<le> n" "n + 8 < 2 ^ 32"
  shows "\<exists>m ms' hb len. ms = m # ms' \<and>
    take_head bs (q_head g) (block g) = Some (hb, of_nat (ring_pos (unat bs) (unat (q_head g)) 8)) \<and>
    of_le (mem_read 0 4 hb) = MSG_MAGIC_NUM \<and> of_le (mem_read 4 4 hb) = (len :: u32) \<and>
    len \<le> used_len bs (q_head g) t \<and> len - MSG_HEAD_SIZE - MSG_MAGIC_NUM_LEN \<le> of_nat n \<and>
    unat (len - MSG_HEAD_SIZE - MSG_MAGIC_NUM_LEN) = length m + 4"
proof -
  note D = objD [OF h]
  let ?h = "unat (q_head g)" and ?q = "mq_obj bs g"
  obtain ms1 ms2 where ms: "ms = ms1 @ ms2" and t: "unat t = ring_pos (unat bs) ?h (space msg_cost ms1)"
    using c(2) unfolding stale_tail_def by blast
  have sp: "space msg_cost ms1 < unat bs" using D(7) by (simp add: ms)
  have "ms1 \<noteq> []"
  proof
    assume "ms1 = []"
    then have "unat t = ?h" using t D(5) by (simp add: ring_pos_def)
    then show False using c(1) by (simp add: word_unat_eq_iff)
  qed
  then obtain m ms1' where m: "ms1 = m # ms1'" by (cases ms1) auto
  then have first: "ms = m # (ms1' @ ms2)" by (simp add: ms)
  note F = holds_first [OF h [unfolded first]]
  have bs: "8 \<le> unat bs" using F(4) by simp
  have th: "take_head bs (q_head g) (block g) =
      Some (ring_read ?h 8 (block g), of_nat (ring_pos (unat bs) ?h 8))"
    by (rule take_head_ring [OF D(2,3) bs D(1)])
  have hb: "of_le (mem_read 0 4 (ring_read ?h 8 (block g))) = MSG_MAGIC_NUM"
    "of_le (mem_read 4 4 (ring_read ?h 8 (block g))) = stored_len ?q"
    using F(1) D(2,5) bs by (simp_all add: mem_read_def stored_magic_def stored_len_def)
  have tb: "t \<le> bs" using ring_pos_le [OF D(5), of "space msg_cost ms1"] sp t by (simp add: word_le_nat_alt)
  have "0 < space msg_cost ms1" by (simp add: m msg_cost_def)
  then have "unat (used_len bs (q_head g) t) = space msg_cost ms1"
    using t D(5) sp unfolding free_len_nat(2) [OF D(3) tb D(1)] by (auto simp: ring_pos_def)
  then have used: "stored_len ?q \<le> used_len bs (q_head g) t"
    using F(2) by (simp add: word_le_nat_alt m msg_cost_def)
  have "stored_len ?q - MSG_HEAD_SIZE - MSG_MAGIC_NUM_LEN = stored_len ?q - 8" by simp
  moreover have "unat (stored_len ?q - 8) = length m + 4"
    using F(2) by (subst unat_minus) (simp_all add: word_le_nat_alt)
  moreover have "length m + 4 \<le> n" using n(1) by (simp add: first)
  moreover have "unat (of_nat n :: u32) = n" using n(2) by (simp add: unsigned_of_nat take_bit_nat_eq_self)
  ultimately show ?thesis using first th hb used by (auto simp: word_le_nat_alt)
qed

lemma copied_first:
  assumes h: "holds (m # ms) (mq_obj bs g)" and k: "unat k = length m + 4" and n: "length m + 4 \<le> n"
  shows "\<exists>buf. take_data bs (of_nat (ring_pos (unat bs) (unat (q_head g)) 8)) k (block g) (replicate n 0) =
      Some (buf, of_nat (ring_pos (unat bs) (unat (q_head g)) (length m + 12))) \<and> whole m buf k n"
proof -
  let ?q = "mq_obj bs g"
  note F = holds_first [OF h]
  have "unat (stored_len ?q - 8) = length m + 4"
    using F(2) by (subst unat_minus) (simp_all add: word_le_nat_alt)
  then have ke: "stored_len ?q - 8 = k" using k by (simp add: word_unat_eq_iff)
  have "take_data bs (of_nat (ring_pos (unat bs) (unat (q_head g)) 8)) k (block g) (replicate n 0) =
      Some (blit 0 (m @ magic) (replicate n 0), of_nat (ring_pos (unat bs) (unat (q_head g)) (length m + 12)))"
    using read_body(1) [OF holdsD(1) [OF h], of "replicate n 0"] F n ke by simp
  moreover have "whole m (blit 0 (m @ magic) (replicate n 0)) k n"
    using k n by (simp add: whole_def blit_def)
  ultimately show ?thesis by blast
qed

lemma whole_trailer:
  assumes "whole m buf k n"
  shows "mem_load (unat (k - MSG_MAGIC_NUM_LEN)) 4 buf = Some magic" "take (unat (k - MSG_MAGIC_NUM_LEN)) buf = m"
    "take (unat k - 4) buf = m"
proof -
  note W = assms [unfolded whole_def]
  have k: "unat (k - MSG_MAGIC_NUM_LEN) = length m"
    using W by (subst unat_minus) (simp_all add: word_le_nat_alt)
  obtain rest where "buf = m @ magic @ rest"
    using W append_take_drop_id [of "length m + 4" buf] by (metis append_assoc)
  then show "mem_load (unat (k - MSG_MAGIC_NUM_LEN)) 4 buf = Some magic"
    "take (unat (k - MSG_MAGIC_NUM_LEN)) buf = m" "take (unat k - 4) buf = m"
    using W by (simp_all add: k mem_load_ok)
qed

subsection \<open>Every step keeps the invariant\<close>

lemma holds_obj_cong:
  "q_head g' = q_head g \<Longrightarrow> q_tail g' = q_tail g \<Longrightarrow> block g' = block g \<Longrightarrow>
   holds ms (mq_obj bs g') = holds ms (mq_obj bs g)"
  by (simp add: holds_def mq_ok_def mq_obj_def)

lemma cons_inv_cong: "q_head g' = q_head g \<Longrightarrow> cons_inv bs n ms g' c = cons_inv bs n ms g c"
  by (cases c) (simp_all add: stale_tail_def)

lemma prod_inv_cong:
  "q_head g' = q_head g \<Longrightarrow> q_tail g' = q_tail g \<Longrightarrow> block g' = block g \<Longrightarrow>
   prod_inv bs n ms g' p = prod_inv bs n ms g p"
  by (cases p) (simp_all add: stale_head_def holds_obj_cong [of "g'\<lparr>q_tail := t\<rparr>" "g\<lparr>q_tail := t\<rparr>" for t])

text \<open>A published message goes behind the others.\<close>

lemma stale_tail_publish:
  assumes "stale_tail bs ms g u"
  shows "stale_tail bs (ms @ [d]) (g\<lparr>q_tail := t\<rparr>) u"
proof -
  obtain ms1 ms2 where "ms = ms1 @ ms2" "unat u = ring_pos (unat bs) (unat (q_head g)) (space msg_cost ms1)"
    using assms unfolding stale_tail_def by blast
  then show ?thesis by (intro stale_tail_def [THEN iffD2] exI [of _ ms1] exI [of _ "ms2 @ [d]"]) simp
qed

lemma cons_inv_publish:
  "cons_inv bs n ms g c \<Longrightarrow> cons_inv bs n (ms @ [d]) (g\<lparr>q_tail := t\<rparr>) c"
  by (cases c) (auto simp: stale_tail_publish)

text \<open>The first message leaves.\<close>

lemma prod_inv_move:
  assumes h: "holds (m # ms) (mq_obj bs g)" and p: "prod_inv bs n (m # ms) g p"
  shows "prod_inv bs n ms (g\<lparr>q_head := of_nat (ring_pos (unat bs) (unat (q_head g)) (length m + 12))\<rparr>) p"
proof -
  note D = objD [OF h]
  let ?p = "ring_pos (unat bs) (unat (q_head g)) (length m + 12)"
  have c: "space msg_cost (m # ms) = length m + 12 + space msg_cost ms" by (simp add: msg_cost_def)
  have "?p \<le> unat bs" by (rule ring_pos_le [OF D(5)]) (use D(7) c in simp)
  then have pw: "unat (of_nat ?p :: u32) = ?p" using D(1) by (simp add: unsigned_of_nat take_bit_nat_eq_self)
  have stale: "stale_head bs ms (g\<lparr>q_head := of_nat ?p\<rparr>) x" if "stale_head bs (m # ms) g x" for x
  proof -
    obtain k where k: "unat (q_head g) = ring_pos (unat bs) (unat x) k" "k + space msg_cost (m # ms) < unat bs"
      and x: "x \<le> bs" using \<open>stale_head bs (m # ms) g x\<close> unfolding stale_head_def by blast
    have "?p = ring_pos (unat bs) (unat x) (k + (length m + 12))"
      unfolding k(1) using x k(2) c by (intro ring_pos_add) (simp_all add: word_le_nat_alt)
    then show ?thesis using x k(2) c pw by (auto simp: stale_head_def intro: exI [of _ "k + (length m + 12)"])
  qed
  show ?thesis
  proof (cases p)
    case (P_placed d t)
    then have "holds (m # (ms @ [d])) (mq_obj bs (g\<lparr>q_tail := t\<rparr>))" "length d + 4 \<le> n" using p by simp_all
    moreover have "moved_head (length m + 12) (mq_obj bs (g\<lparr>q_tail := t\<rparr>)) =
        mq_obj bs (g\<lparr>q_tail := t, q_head := of_nat ?p\<rparr>)"
      by (simp add: moved_head_def mq_obj_def)
    ultimately have "holds (ms @ [d]) (mq_obj bs (g\<lparr>q_tail := t, q_head := of_nat ?p\<rparr>))"
      using holds_moved by metis
    then show ?thesis
      using P_placed \<open>length d + 4 \<le> n\<close>
        holds_obj_cong [of "g\<lparr>q_head := of_nat ?p, q_tail := t\<rparr>" "g\<lparr>q_tail := t, q_head := of_nat ?p\<rparr>"]
      by simp
  qed (use p stale c in auto)
qed

lemma spsc_invI:
  assumes "holds ms (mq_obj bs (sh s))" "\<forall>m\<in>set ms. length m + 4 \<le> n"
    "sent s = got s @ in_hand (cons s) @ ms" "prod_inv bs n ms (sh s) (prod s)"
    "cons_inv bs n ms (sh s) (cons s)" "msgCount (sh s) + lag (prod s) (cons s) = of_nat (length ms)"
  shows "spsc_inv bs n s"
  using assms unfolding spsc_inv_def by blast

lemma spsc_inv_step:
  assumes inv: "spsc_inv bs n s" and step: "spsc_step bs n s u" and n: "n + 8 < 2 ^ 32"
  shows "spsc_inv bs n u"
proof -
  obtain ms where h: "holds ms (mq_obj bs (sh s))" and sz: "\<forall>m\<in>set ms. length m + 4 \<le> n"
    and order: "sent s = got s @ in_hand (cons s) @ ms" and p: "prod_inv bs n ms (sh s) (prod s)"
    and c: "cons_inv bs n ms (sh s) (cons s)"
    and count: "msgCount (sh s) + lag (prod s) (cons s) = of_nat (length ms)"
    using inv unfolding spsc_inv_def by blast
  note D = objD [OF h]
  from step show ?thesis
  proof cases
    case (p_head d)
    have "ring_pos (unat bs) (unat (q_head (sh s))) 0 = unat (q_head (sh s))"
      using D(5) by (simp add: ring_pos_def)
    then have "stale_head bs ms (sh s) (q_head (sh s))" using D(3,7) by (auto simp: stale_head_def intro: exI [of _ 0])
    then show ?thesis
      using p_head h sz order c count by (intro spsc_invI [of ms]) (simp_all add: lag_def)
  next
    case (p_tail d x)
    then show ?thesis
      using h sz order p c count by (intro spsc_invI [of ms]) (simp_all add: lag_def)
  next
    case (p_full d x t)
    then show ?thesis
      using h sz order c count by (intro spsc_invI [of ms]) (simp_all add: lag_def)
  next
    case (p_bad d x t)
    then have "x \<le> bs" "t \<le> bs" using p D(4) by (simp_all add: stale_head_def)
    then have False using p_bad(3) by (auto simp: not_le [symmetric])
    then show ?thesis ..
  next
    case (p_room d x t)
    then have "length d + 4 \<le> n" "stale_head bs ms (sh s) x" "t = q_tail (sh s)" using p by simp_all
    moreover from this have "space msg_cost ms + msg_cost d < unat bs"
      using stale_room [OF h, of x d] p_room(3) n by simp
    ultimately show ?thesis
      using p_room h sz order c count by (intro spsc_invI [of ms]) (simp_all add: lag_def)
  next
    case (p_write d t b)
    then have t: "t = q_tail (sh s)" "space msg_cost ms + msg_cost d < unat bs" using p by simp_all
    have "holds ms (mq_obj bs ((sh s)\<lparr>block := b\<rparr>))"
      using p_write(3,4) t by (intro holds_scribbled [OF h t(2)]) simp_all
    then show ?thesis
      using p_write(1,2) sz order p c count cons_inv_cong [of "(sh s)\<lparr>block := b\<rparr>" "sh s"]
      by (intro spsc_invI [of ms]) simp_all
  next
    case (p_place d t b t')
    then have t: "t = q_tail (sh s)" "space msg_cost ms + msg_cost d < unat bs" "length d + 4 \<le> n" using p by simp_all
    note hp = holds_place [OF h t(2) p_place(3) [unfolded t(1)]]
    show ?thesis
      using p_place(1,2) hp sz order c count t(3) cons_inv_cong [of "(sh s)\<lparr>block := b\<rparr>" "sh s"]
      by (intro spsc_invI [of ms]) (simp_all add: lag_def)
  next
    case (p_publish d t)
    then have "length d + 4 \<le> n" "holds (ms @ [d]) (mq_obj bs ((sh s)\<lparr>q_tail := t\<rparr>))" using p by simp_all
    then show ?thesis
      using p_publish sz order cons_inv_publish [OF c, of d t] count
      by (intro spsc_invI [of "ms @ [d]"]) (auto simp: lag_def add.commute add.left_commute)
  next
    case p_count
    then show ?thesis
      using h sz order c count cons_inv_cong [of "(sh s)\<lparr>msgCount := msgCount (sh s) + 1\<rparr>" "sh s"]
      by (intro spsc_invI [of ms]) (simp_all add: lag_def add_ac)
  next
    case c_head
    then show ?thesis
      using h sz order p count by (intro spsc_invI [of ms]) (simp_all add: lag_def)
  next
    case (c_tail x)
    have "stale_tail bs ms (sh s) (q_tail (sh s))"
      using D(8) by (auto simp: stale_tail_def intro: exI [of _ ms] exI [of _ "[]"])
    then show ?thesis
      using c_tail h sz order p c count by (intro spsc_invI [of ms]) (simp_all add: lag_def)
  next
    case (c_bad x t)
    then have "x \<le> bs" "t \<le> bs" using c D(3) stale_tail_bound [OF _ h] by auto
    then have False using c_bad(3) by (auto simp: not_le [symmetric])
    then show ?thesis ..
  next
    case (c_empty x t)
    then show ?thesis
      using h sz order p count by (intro spsc_invI [of ms]) (simp_all add: lag_def)
  next
    case (c_count x t)
    then show ?thesis
      using h sz order p c count cons_inv_cong [of "(sh s)\<lparr>msgCount := msgCount (sh s) - 1\<rparr>" "sh s"]
        prod_inv_cong [of "(sh s)\<lparr>msgCount := msgCount (sh s) - 1\<rparr>" "sh s"]
      by (intro spsc_invI [of ms]) (simp_all add: lag_def stale_tail_def)
  next
    case (c_size x t hb x' len)
    then have x: "x = q_head (sh s)" "q_head (sh s) \<noteq> t" "stale_tail bs ms (sh s) t" using c by auto
    show ?thesis
      using counted_head [OF h x(2,3) sz n] c_size h sz order p count x(1)
      by (intro spsc_invI [of ms]) (auto simp: lag_def)
  next
    case (c_size_bad x t)
    then have x: "x = q_head (sh s)" "q_head (sh s) \<noteq> t" "stale_tail bs ms (sh s) t" using c by auto
    have False using counted_head [OF h x(2,3) sz n] c_size_bad(3) x(1) by blast
    then show ?thesis ..
  next
    case (c_copy x k buf x')
    then obtain m ms' where m: "ms = m # ms'" "x = of_nat (ring_pos (unat bs) (unat (q_head (sh s))) 8)"
      "unat k = length m + 4" using c by auto
    then show ?thesis
      using copied_first [of m ms' bs "sh s" k n] c_copy h sz order p count
      by (intro spsc_invI [of ms]) (auto simp: lag_def)
  next
    case (c_copy_bad x k)
    then obtain m ms' where m: "ms = m # ms'" "x = of_nat (ring_pos (unat bs) (unat (q_head (sh s))) 8)"
      "unat k = length m + 4" using c by auto
    then have False using copied_first [of m ms' bs "sh s" k n] c_copy_bad(3) h sz by simp
    then show ?thesis ..
  next
    case (c_move buf x k)
    then obtain m ms' where m: "ms = m # ms'" "whole m buf k n"
      and x: "x = of_nat (ring_pos (unat bs) (unat (q_head (sh s))) (length m + 12))" using c by auto
    have "moved_head (length m + 12) (mq_obj bs (sh s)) = mq_obj bs ((sh s)\<lparr>q_head := x\<rparr>)"
      by (simp add: moved_head_def mq_obj_def x)
    then have "holds ms' (mq_obj bs ((sh s)\<lparr>q_head := x\<rparr>))" using holds_moved h unfolding m(1) by metis
    moreover have "prod_inv bs n ms' ((sh s)\<lparr>q_head := x\<rparr>) (prod s)"
      unfolding x by (rule prod_inv_move [OF h [unfolded m(1)] p [unfolded m(1)]])
    ultimately show ?thesis
      using c_move sz order count m whole_trailer(3) [OF m(2)]
      by (intro spsc_invI [of ms']) (auto simp: lag_def algebra_simps)
  next
    case (c_done buf k m)
    then obtain w where w: "whole w buf k n" using c by auto
    show ?thesis
      using c_done(1,2) h sz order p count whole_trailer [OF w]
        prod_inv_cong [of "(sh s)\<lparr>processCount := processCount (sh s) + 1\<rparr>" "sh s"]
      by (intro spsc_invI [of ms]) (simp_all add: lag_def)
  next
    case (c_done_bad buf k)
    then obtain w where w: "whole w buf k n" using c by auto
    have "of_le magic = MSG_MAGIC_NUM" by simp
    then have False using c_done_bad(3) whole_trailer(1) [OF w] by blast
    then show ?thesis ..
  qed
qed

end
