(* ===== verification/Msg_Spsc_Props.thy ===== *)
theory Msg_Spsc_Props
  imports Msg_Spsc Msg_Props
begin

text \<open>
  The properties of a producer and a consumer that run at the same time, and the proof that
  the steps of theory Msg_Spsc, taken without interruption, are the calls of the code.
\<close>

definition spsc_start :: "mq_seg \<Rightarrow> spsc" where
  "spsc_start g = \<lparr>sh = g, prod = P_idle, cons = C_idle, sent = [], got = []\<rparr>"

lemma spsc_inv_start:
  "holds [] (mq_obj bs g) \<Longrightarrow> msgCount g = 0 \<Longrightarrow> spsc_inv bs n (spsc_start g)"
  by (rule spsc_invI [of "[]"]) (simp_all add: spsc_start_def lag_def)

lemma spsc_inv_reachable:
  assumes "(spsc_step bs n)\<^sup>*\<^sup>* s u" "spsc_inv bs n s" "n + 8 < 2 ^ 32"
  shows "spsc_inv bs n u"
  using assms by (induction rule: rtranclp_induct) (auto intro: spsc_inv_step)

text \<open>A call that nothing interrupts is a sequence of steps.\<close>

lemma enqueue_ok_parts:
  assumes "mq_ok (mq_obj bs g)" "enqueue env d (of_nat (length d)) (mq_obj bs g) = Some (kOk, q)"
  shows "\<exists>b t. \<not> free_len bs (q_head g) (q_tail g) \<le> of_nat (length d) + MSG_HEAD_SIZE + 2 * MSG_MAGIC_NUM_LEN \<and>
    place_msg d (of_nat (length d)) bs (q_tail g) (block g) = Some (b, t) \<and>
    seg q = g\<lparr>block := b, q_tail := t, msgCount := increment (msgCount g)\<rparr>"
  using assms(2) mq_check_ok [OF assms(1)] mq_okD(1) [OF assms(1)]
  unfolding enqueue_def Let_def by (auto split: if_splits simp: bind_eq_Some_conv)

lemma enqueue_steps:
  assumes "mq_ok (mq_obj bs (sh s))" "prod s = P_idle" "length d + 4 \<le> n"
    and "enqueue env d (of_nat (length d)) (mq_obj bs (sh s)) = Some (kOk, q)"
  shows "(spsc_step bs n)\<^sup>*\<^sup>* s (s\<lparr>sh := seg q, sent := sent s @ [d]\<rparr>)"
proof -
  let ?g = "sh s"
  obtain b t where room: "\<not> free_len bs (q_head ?g) (q_tail ?g) \<le> of_nat (length d) + MSG_HEAD_SIZE + 2 * MSG_MAGIC_NUM_LEN"
    and place: "place_msg d (of_nat (length d)) bs (q_tail ?g) (block ?g) = Some (b, t)"
    and q: "seg q = ?g\<lparr>block := b, q_tail := t, msgCount := increment (msgCount ?g)\<rparr>"
    using enqueue_ok_parts [OF assms(1,4)] by blast
  define s1 where "s1 = s\<lparr>prod := P_head d (q_head ?g)\<rparr>"
  define s2 where "s2 = s1\<lparr>prod := P_tail d (q_head ?g) (q_tail (sh s1))\<rparr>"
  define s3 where "s3 = s2\<lparr>prod := P_writing d (q_tail ?g)\<rparr>"
  define s4 where "s4 = s3\<lparr>sh := (sh s3)\<lparr>block := b\<rparr>, prod := P_placed d t\<rparr>"
  define s5 where "s5 = s4\<lparr>sh := (sh s4)\<lparr>q_tail := t\<rparr>, prod := P_published, sent := sent s4 @ [d]\<rparr>"
  define s6 where "s6 = s5\<lparr>sh := (sh s5)\<lparr>msgCount := increment (msgCount (sh s5))\<rparr>, prod := P_idle\<rparr>"
  note defs = s1_def s2_def s3_def s4_def s5_def s6_def
  have st1: "spsc_step bs n s s1" unfolding s1_def by (rule p_head [OF assms(2,3)])
  have st2: "spsc_step bs n s1 s2" unfolding s2_def by (rule p_tail) (simp add: s1_def)
  have st3: "spsc_step bs n s2 s3" unfolding s3_def by (rule p_room [OF _ room mq_okD(5,6) [OF assms(1), simplified]]) (simp add: defs)
  have st4: "spsc_step bs n s3 s4" unfolding s4_def by (rule p_place) (use place in \<open>simp_all add: defs\<close>)
  have st5: "spsc_step bs n s4 s5" unfolding s5_def by (rule p_publish) (simp add: defs)
  have st6: "spsc_step bs n s5 s6" unfolding s6_def by (rule p_count) (simp add: defs)
  have fin: "s6 = s\<lparr>sh := seg q, sent := sent s @ [d]\<rparr>" using assms(2) by (simp add: defs q)
  have "(spsc_step bs n)\<^sup>*\<^sup>* s s6"
    by (intro converse_rtranclp_into_rtranclp [where r = "spsc_step bs n", OF st1]
      converse_rtranclp_into_rtranclp [where r = "spsc_step bs n", OF st2]
      converse_rtranclp_into_rtranclp [where r = "spsc_step bs n", OF st3]
      converse_rtranclp_into_rtranclp [where r = "spsc_step bs n", OF st4]
      converse_rtranclp_into_rtranclp [where r = "spsc_step bs n", OF st5]
      converse_rtranclp_into_rtranclp [where r = "spsc_step bs n", OF st6]
      rtranclp.rtrancl_refl)
  then show ?thesis unfolding fin .
qed

lemma dequeue_ok_parts:
  assumes "mq_ok (mq_obj bs g)" "dequeue env (replicate n 0) (of_nat n) dl (mq_obj bs g) = Some (kOk, k, buf, q)"
  shows "\<exists>hb h1 len h2 m. q_head g \<noteq> q_tail g \<and> take_head bs (q_head g) (block g) = Some (hb, h1) \<and>
    of_le (mem_read 0 4 hb) = MSG_MAGIC_NUM \<and> len = of_le (mem_read 4 4 hb) \<and>
    len \<le> used_len bs (q_head g) (q_tail g) \<and> len - MSG_HEAD_SIZE - MSG_MAGIC_NUM_LEN \<le> of_nat n \<and>
    take_data bs h1 (len - MSG_HEAD_SIZE - MSG_MAGIC_NUM_LEN) (block g) (replicate n 0) = Some (buf, h2) \<and>
    k = len - MSG_HEAD_SIZE - MSG_MAGIC_NUM_LEN - MSG_MAGIC_NUM_LEN \<and> mem_load (unat k) 4 buf = Some m \<and>
    of_le m = MSG_MAGIC_NUM \<and>
    seg q = g\<lparr>msgCount := decrement (msgCount g), q_head := h2, processCount := increment (processCount g)\<rparr>"
  using assms(2) mq_check_ok [OF assms(1)] mq_okD(1) [OF assms(1)]
  unfolding dequeue_def Let_def by (auto split: if_splits simp: bind_eq_Some_conv not_less)

lemma dequeue_steps_alone:
  assumes "mq_ok (mq_obj bs (sh s))" "cons s = C_idle"
    and "dequeue env (replicate n 0) (of_nat n) dl (mq_obj bs (sh s)) = Some (kOk, k, buf, q)"
  shows "(spsc_step bs n)\<^sup>*\<^sup>* s (s\<lparr>sh := seg q, got := got s @ [take (unat k) buf]\<rparr>)"
proof -
  let ?g = "sh s"
  obtain hb h1 len h2 m where ne: "q_head ?g \<noteq> q_tail ?g"
    and head: "take_head bs (q_head ?g) (block ?g) = Some (hb, h1)" "of_le (mem_read 0 4 hb) = MSG_MAGIC_NUM"
      "len = of_le (mem_read 4 4 hb)" "len \<le> used_len bs (q_head ?g) (q_tail ?g)"
      "len - MSG_HEAD_SIZE - MSG_MAGIC_NUM_LEN \<le> of_nat n"
    and data: "take_data bs h1 (len - MSG_HEAD_SIZE - MSG_MAGIC_NUM_LEN) (block ?g) (replicate n 0) = Some (buf, h2)"
    and k: "k = len - MSG_HEAD_SIZE - MSG_MAGIC_NUM_LEN - MSG_MAGIC_NUM_LEN"
    and m: "mem_load (unat k) 4 buf = Some m" "of_le m = MSG_MAGIC_NUM"
    and q: "seg q = ?g\<lparr>msgCount := decrement (msgCount ?g), q_head := h2, processCount := increment (processCount ?g)\<rparr>"
    using dequeue_ok_parts [OF assms(1,3)] by blast
  define l where "l = len - MSG_HEAD_SIZE - MSG_MAGIC_NUM_LEN"
  define s1 where "s1 = s\<lparr>cons := C_head (q_head ?g)\<rparr>"
  define s2 where "s2 = s1\<lparr>cons := C_tail (q_head ?g) (q_tail (sh s1))\<rparr>"
  define s3 where "s3 = s2\<lparr>sh := (sh s2)\<lparr>msgCount := decrement (msgCount (sh s2))\<rparr>, cons := C_counted (q_head ?g) (q_tail ?g)\<rparr>"
  define s4 where "s4 = s3\<lparr>cons := C_sized h1 l\<rparr>"
  define s5 where "s5 = s4\<lparr>cons := C_copied buf h2 l\<rparr>"
  define s6 where "s6 = s5\<lparr>sh := (sh s5)\<lparr>q_head := h2\<rparr>, cons := C_moved buf l\<rparr>"
  define s7 where "s7 = s6\<lparr>sh := (sh s6)\<lparr>processCount := increment (processCount (sh s6))\<rparr>, cons := C_idle,
      got := got s6 @ [take (unat (l - MSG_MAGIC_NUM_LEN)) buf]\<rparr>"
  note defs = s1_def s2_def s3_def s4_def s5_def s6_def s7_def
  have kl: "l - MSG_MAGIC_NUM_LEN = k" by (simp only: k l_def)
  have st1: "spsc_step bs n s s1" unfolding s1_def by (rule c_head [OF assms(2)])
  have st2: "spsc_step bs n s1 s2" unfolding s2_def by (rule c_tail) (simp add: s1_def)
  have st3: "spsc_step bs n s2 s3" unfolding s3_def by (rule c_count [OF _ ne mq_okD(5,6) [OF assms(1), simplified]]) (simp add: defs)
  have st4: "spsc_step bs n s3 s4"
    unfolding s4_def l_def by (rule c_size [OF _ _ head(2-5)]) (simp_all add: defs head(1))
  have st5: "spsc_step bs n s4 s5" unfolding s5_def by (rule c_copy) (use data in \<open>simp_all add: defs l_def\<close>)
  have st6: "spsc_step bs n s5 s6" unfolding s6_def by (rule c_move) (simp add: defs)
  have st7: "spsc_step bs n s6 s7" unfolding s7_def by (rule c_done [OF _ _ m(2)]) (simp_all add: s6_def kl m(1))
  have fin: "s7 = s\<lparr>sh := seg q, got := got s @ [take (unat k) buf]\<rparr>"
    using assms(2) kl by (simp add: defs q)
  have "(spsc_step bs n)\<^sup>*\<^sup>* s s7"
    by (intro converse_rtranclp_into_rtranclp [where r = "spsc_step bs n", OF st1]
      converse_rtranclp_into_rtranclp [where r = "spsc_step bs n", OF st2]
      converse_rtranclp_into_rtranclp [where r = "spsc_step bs n", OF st3]
      converse_rtranclp_into_rtranclp [where r = "spsc_step bs n", OF st4]
      converse_rtranclp_into_rtranclp [where r = "spsc_step bs n", OF st5]
      converse_rtranclp_into_rtranclp [where r = "spsc_step bs n", OF st6]
      converse_rtranclp_into_rtranclp [where r = "spsc_step bs n", OF st7]
      rtranclp.rtrancl_refl)
  then show ?thesis unfolding fin .
qed

lemma sample_obj: "holds [] (mq_obj 64 sample_seg)" "msgCount sample_seg = 0"
  by (simp_all add: holds_def mq_ok_def mq_obj_def sample_seg_def ring_pos_def ring_read_def)

text \<open>
  A successful call of \<^verbatim>\<open>enqueue\<close> or \<^verbatim>\<open>dequeue\<close> that nothing interrupts is a sequence of the
  steps of the producer or of the consumer, and leads to the segment the call leaves.
\<close>

theorem spsc_calls_are_steps:
  assumes "mq_ok (mq_obj bs (sh s))" "prod s = P_idle" "cons s = C_idle" "length d + 4 \<le> n"
    and "enqueue env d (of_nat (length d)) (mq_obj bs (sh s)) = Some (kOk, q)"
    and "dequeue env (replicate n 0) (of_nat n) dl (mq_obj bs (sh s)) = Some (kOk, k, buf, q')"
  shows "(spsc_step bs n)\<^sup>*\<^sup>* s (s\<lparr>sh := seg q, sent := sent s @ [d]\<rparr>) \<and>
    (spsc_step bs n)\<^sup>*\<^sup>* s (s\<lparr>sh := seg q', got := got s @ [take (unat k) buf]\<rparr>)"
  using enqueue_steps [OF assms(1,2,4,5)] dequeue_steps_alone [OF assms(1,3,6)] by simp

theorem spsc_calls_are_steps_witness:
  "\<exists>(q :: shm_mq) (q' :: shm_mq). (spsc_step 64 32)\<^sup>*\<^sup>* (spsc_start (seg (placed [5, 6] (mq_obj 64 sample_seg))))
      ((spsc_start (seg (placed [5, 6] (mq_obj 64 sample_seg))))\<lparr>sh := seg q, sent := [[7]]\<rparr>) \<and>
    (spsc_step 64 32)\<^sup>*\<^sup>* (spsc_start (seg (placed [5, 6] (mq_obj 64 sample_seg))))
      ((spsc_start (seg (placed [5, 6] (mq_obj 64 sample_seg))))\<lparr>sh := seg q', got := [[5, 6]]\<rparr>)"
proof -
  let ?g = "seg (placed [5, 6] (mq_obj 64 sample_seg))"
  have obj: "mq_obj 64 ?g = placed [5, 6] (mq_obj 64 sample_seg)" by (simp add: placed_def mq_obj_def)
  have h: "holds [[5, 6]] (mq_obj 64 ?g)"
    using holds_placed [OF sample_obj(1), of "[5, 6]"] unfolding obj by (simp add: msg_cost_def)
  have enq: "enqueue sample_proc [7] (of_nat (length [7 :: byte])) (mq_obj 64 ?g) = Some (kOk, placed [7] (mq_obj 64 ?g))"
    by (rule holds_enqueue [OF h, THEN trans]) (simp_all add: msg_cost_def)
  have deq: "dequeue sample_proc (replicate 32 0) (of_nat 32) 0 (mq_obj 64 ?g) =
      Some (kOk, of_nat (length [5, 6 :: byte]), blit 0 ([5, 6] @ magic) (replicate 32 0), after_first [5, 6] (mq_obj 64 ?g))"
    by (rule holds_dequeue [OF h, THEN trans]) simp_all
  have "take (unat (of_nat (length [5, 6 :: byte]) :: u32)) (blit 0 ([5, 6] @ magic) (replicate 32 (0 :: byte))) = [5, 6]"
    by (simp add: blit_def)
  moreover have "(spsc_step 64 32)\<^sup>*\<^sup>* (spsc_start ?g)
      ((spsc_start ?g)\<lparr>sh := seg (placed [7] (mq_obj 64 ?g)), sent := sent (spsc_start ?g) @ [[7]]\<rparr>) \<and>
    (spsc_step 64 32)\<^sup>*\<^sup>* (spsc_start ?g) ((spsc_start ?g)\<lparr>sh := seg (after_first [5, 6] (mq_obj 64 ?g)),
      got := got (spsc_start ?g) @ [take (unat (of_nat (length [5, 6 :: byte]) :: u32))
        (blit 0 ([5, 6] @ magic) (replicate 32 (0 :: byte)))]\<rparr>)"
    by (rule spsc_calls_are_steps [where env = sample_proc and dl = 0])
      (use holdsD(1) [OF h] enq deq in \<open>simp_all add: spsc_start_def\<close>)
  ultimately show ?thesis
    by (auto simp: spsc_start_def)
qed

lemma sample_enqueue:
  "enqueue sample_proc [5, 6] (of_nat (length [5, 6 :: byte])) (mq_obj 64 sample_seg) =
   Some (kOk, placed [5, 6] (mq_obj 64 sample_seg))"
  by (rule holds_enqueue [OF sample_obj(1), THEN trans]) (simp_all add: msg_cost_def)

text \<open>The consumer reads the head before, the tail after the producer sends a message.\<close>

lemma sample_interleaving:
  "(spsc_step 64 32)\<^sup>*\<^sup>* (spsc_start sample_seg)
   \<lparr>sh = seg (placed [5, 6] (mq_obj 64 sample_seg)), prod = P_idle, cons = C_head 0, sent = [[5, 6]], got = []\<rparr>"
proof -
  let ?s = "(spsc_start sample_seg)\<lparr>cons := C_head (q_head sample_seg)\<rparr>"
  have "spsc_step 64 32 (spsc_start sample_seg) ?s"
    using c_head [of "spsc_start sample_seg" 64 32] by (simp add: spsc_start_def)
  moreover have "(spsc_step 64 32)\<^sup>*\<^sup>* ?s (?s\<lparr>sh := seg (placed [5, 6] (mq_obj 64 sample_seg)), sent := sent ?s @ [[5, 6]]\<rparr>)"
    by (rule enqueue_steps [where env = sample_proc])
      (use holdsD(1) [OF sample_obj(1)] sample_enqueue in \<open>simp_all add: spsc_start_def\<close>)
  ultimately show ?thesis
    using converse_rtranclp_into_rtranclp [of "spsc_step 64 32" "spsc_start sample_seg" ?s]
    by (simp add: spsc_start_def sample_seg_def)
qed

text \<open>
  C28: However the accesses of a producer and a consumer interleave, on a queue that was empty
  and counted right, neither meets impossible
  positions, the consumer never meets a damaged message, the messages it has handed
  out are the first ones sent, in order; and when both rest, the queue holds exactly the
  messages sent and not handed out, and the counter is their number.
\<close>

theorem spsc_concurrent_fifo:
  assumes "holds [] (mq_obj bs g)" "msgCount g = 0" "n + 8 < 2 ^ 32" "(spsc_step bs n)\<^sup>*\<^sup>* (spsc_start g) s"
  shows "prod s \<noteq> P_failed \<and> cons s \<noteq> C_failed \<and> (\<exists>pending. sent s = got s @ pending) \<and>
    (prod s \<noteq> P_idle \<or> cons s \<noteq> C_idle \<or>
     (\<exists>ms. sent s = got s @ ms \<and> holds ms (mq_obj bs (sh s)) \<and> msgCount (sh s) = of_nat (length ms)))"
proof -
  have "spsc_inv bs n s" by (rule spsc_inv_reachable [OF assms(4) spsc_inv_start [OF assms(1,2)] assms(3)])
  then obtain ms where "holds ms (mq_obj bs (sh s))" "sent s = got s @ in_hand (cons s) @ ms"
    "prod_inv bs n ms (sh s) (prod s)" "cons_inv bs n ms (sh s) (cons s)" "msgCount (sh s) + lag (prod s) (cons s) = of_nat (length ms)"
    unfolding spsc_inv_def by blast
  then show ?thesis by (auto simp: lag_def)
qed

theorem spsc_concurrent_fifo_witness:
  "\<exists>s. (spsc_step 64 32)\<^sup>*\<^sup>* (spsc_start sample_seg) s \<and> cons s = C_head 0 \<and> sent s = [[5, 6]] \<and>
    (\<exists>pending. [[5, 6]] = got s @ pending)"
  using sample_interleaving spsc_concurrent_fifo [OF sample_obj _ sample_interleaving]
  by (intro exI [of _ "\<lparr>sh = seg (placed [5, 6] (mq_obj 64 sample_seg)), prod = P_idle, cons = C_head 0,
    sent = [[5, 6]], got = []\<rparr>"]) simp

subsection \<open>Both calls can always be completed\<close>

text \<open>The steps a call still needs at most.\<close>

fun prod_rank :: "prod_pc \<Rightarrow> nat" where
  "prod_rank P_idle = 0"
| "prod_rank (P_head d h) = 5"
| "prod_rank (P_tail d h t) = 4"
| "prod_rank (P_writing d t) = 3"
| "prod_rank (P_placed d t) = 2"
| "prod_rank P_published = 1"
| "prod_rank P_failed = 0"

fun cons_rank :: "cons_pc \<Rightarrow> nat" where
  "cons_rank C_idle = 0"
| "cons_rank (C_head h) = 6"
| "cons_rank (C_tail h t) = 5"
| "cons_rank (C_counted h t) = 4"
| "cons_rank (C_sized h k) = 3"
| "cons_rank (C_copied b h k) = 2"
| "cons_rank (C_moved b k) = 1"
| "cons_rank C_failed = 0"

lemma rank_le: "prod_rank p \<le> 5" "cons_rank c \<le> 6"
  by (cases p; simp) (cases c; simp)

lemma place_exists:
  assumes "holds ms (mq_obj bs g)" "space msg_cost ms + msg_cost d < unat bs"
  shows "\<exists>b t. place_msg d (of_nat (length d)) bs (q_tail g) (block g) = Some (b, t)"
proof -
  note D = objD [OF assms(1)]
  have len: "unat (of_nat (length d) :: u32) = length d"
    using assms(2) D(1) by (simp add: msg_cost_def unsigned_of_nat take_bit_nat_eq_self)
  have "unat (of_nat (length d) :: u32) + 12 \<le> unat bs" using assms(2) len by (simp add: msg_cost_def)
  from place_msg_ring [OF len [symmetric] D(2,4) this D(1)] show ?thesis by simp
qed

lemma prod_next:
  assumes inv: "spsc_inv bs n s" and busy: "prod s \<noteq> P_idle"
  shows "\<exists>u. spsc_step bs n s u \<and> prod_rank (prod u) < prod_rank (prod s) \<and> cons u = cons s"
proof -
  obtain ms where h: "holds ms (mq_obj bs (sh s))" and p: "prod_inv bs n ms (sh s) (prod s)"
    using inv unfolding spsc_inv_def by blast
  show ?thesis
  proof (cases "prod s")
    case (P_tail d x t)
    then have "x \<le> bs" "t \<le> bs" using p objD(4) [OF h] by (simp_all add: stale_head_def)
    then show ?thesis
      using p_full [OF P_tail, of bs n] p_room [OF P_tail, of bs n] P_tail
      by (cases "free_len bs x t \<le> of_nat (length d) + MSG_HEAD_SIZE + 2 * MSG_MAGIC_NUM_LEN") fastforce+
  next
    case (P_writing d t)
    then obtain b t' where "place_msg d (of_nat (length d)) bs t (block (sh s)) = Some (b, t')"
      using place_exists [OF h, of d] p by auto
    from p_place [OF P_writing this, of n] P_writing show ?thesis by fastforce
  qed (use busy p in \<open>fastforce intro: p_tail p_publish p_count\<close>)+
qed

lemma cons_next:
  assumes inv: "spsc_inv bs n s" and n: "n + 8 < 2 ^ 32" and busy: "cons s \<noteq> C_idle"
  shows "\<exists>u. spsc_step bs n s u \<and> cons_rank (cons u) < cons_rank (cons s) \<and> prod u = prod s"
proof -
  obtain ms where h: "holds ms (mq_obj bs (sh s))" and sz: "\<forall>m\<in>set ms. length m + 4 \<le> n"
    and c: "cons_inv bs n ms (sh s) (cons s)"
    using inv unfolding spsc_inv_def by blast
  show ?thesis
  proof (cases "cons s")
    case (C_tail x t)
    then have "x \<le> bs" "t \<le> bs" using c objD(3) [OF h] stale_tail_bound [OF _ h] by auto
    then show ?thesis
      using c_empty [OF C_tail, of bs n] c_count [OF C_tail, of bs n] C_tail by (cases "x = t") fastforce+
  next
    case (C_counted x t)
    then have x: "x = q_head (sh s)" "q_head (sh s) \<noteq> t" "stale_tail bs ms (sh s) t" using c by auto
    show ?thesis
      using counted_head [OF h x(2,3) sz n] c_size [OF C_counted, of bs _ _ _ n] C_counted x(1) by fastforce
  next
    case (C_sized x k)
    then obtain m ms' where "ms = m # ms'" "x = of_nat (ring_pos (unat bs) (unat (q_head (sh s))) 8)"
      "unat k = length m + 4" using c by auto
    then obtain buf x' where "take_data bs x k (block (sh s)) (replicate n 0) = Some (buf, x')"
      using copied_first [of m ms' bs "sh s" k n] h sz by auto
    from c_copy [OF C_sized this] C_sized show ?thesis by fastforce
  next
    case (C_moved buf k)
    then obtain w where w: "whole w buf k n" using c by auto
    have "of_le magic = MSG_MAGIC_NUM" by simp
    from c_done [OF C_moved whole_trailer(1) [OF w] this, of bs n] C_moved show ?thesis by fastforce
  qed (use busy c in \<open>fastforce intro: c_tail c_move\<close>)+
qed

lemma spsc_completes:
  assumes "spsc_inv bs n s" "n + 8 < 2 ^ 32"
  shows "\<exists>k u. k \<le> prod_rank (prod s) + cons_rank (cons s) \<and> (spsc_step bs n ^^ k) s u \<and>
    prod u = P_idle \<and> cons u = C_idle"
  using assms(1)
proof (induction "prod_rank (prod s) + cons_rank (cons s)" arbitrary: s rule: less_induct)
  case less
  show ?case
  proof (cases "prod s = P_idle \<and> cons s = C_idle")
    case True
    then show ?thesis by (intro exI [of _ 0] exI [of _ s]) simp
  next
    case False
    then obtain v where v: "spsc_step bs n s v"
      "prod_rank (prod v) + cons_rank (cons v) < prod_rank (prod s) + cons_rank (cons s)"
      using prod_next [OF less.prems] cons_next [OF less.prems assms(2)]
      by (metis add_strict_right_mono add_strict_left_mono)
    then obtain k u where "k \<le> prod_rank (prod v) + cons_rank (cons v)" "(spsc_step bs n ^^ k) v u"
      "prod u = P_idle" "cons u = C_idle"
      using less.hyps [OF v(2) spsc_inv_step [OF less.prems v(1) assms(2)]] by blast
    then show ?thesis
      using v relpowp_Suc_I2 [of "spsc_step bs n" s v k u] by (intro exI [of _ "Suc k"] exI [of _ u]) simp
  qed
qed

text \<open>
  However the accesses of a producer and a consumer have interleaved, the calls in progress
  can both be completed, by at most eleven further steps: none waits for the other.
\<close>

theorem spsc_calls_complete:
  assumes "holds [] (mq_obj bs g)" "msgCount g = 0" "n + 8 < 2 ^ 32" "(spsc_step bs n)\<^sup>*\<^sup>* (spsc_start g) s"
  shows "\<exists>k u. k \<le> 11 \<and> (spsc_step bs n ^^ k) s u \<and> prod u = P_idle \<and> cons u = C_idle"
proof -
  have "spsc_inv bs n s" by (rule spsc_inv_reachable [OF assms(4) spsc_inv_start [OF assms(1,2)] assms(3)])
  then obtain k u where "k \<le> prod_rank (prod s) + cons_rank (cons s)"
    and u: "(spsc_step bs n ^^ k) s u" "prod u = P_idle" "cons u = C_idle"
    using spsc_completes [OF _ assms(3)] by blast
  then have "k \<le> 11" using rank_le(1) [of "prod s"] rank_le(2) [of "cons s"] by simp
  with u show ?thesis by blast
qed

theorem spsc_calls_complete_witness:
  "\<exists>k u. k \<le> 11 \<and> (spsc_step 64 32 ^^ k)
     \<lparr>sh = seg (placed [5, 6] (mq_obj 64 sample_seg)), prod = P_idle, cons = C_head 0, sent = [[5, 6]], got = []\<rparr> u \<and>
   prod u = P_idle \<and> cons u = C_idle"
  by (rule spsc_calls_complete [OF sample_obj _ sample_interleaving]) simp

end
