(* ===== verification/Flock.thy ===== *)
theory Flock
  imports Main
begin

text \<open>
  The lock files of \<^verbatim>\<open>shmutil/shm_msg_queue.cc\<close>: \<^verbatim>\<open>flock(mfd_, LOCK_EX)\<close> in front of a call and
  \<^verbatim>\<open>flock(mfd_, LOCK_UN)\<close> behind it, for any number of processes that each opened the file. As
  documented, the lock has one holder, and the kernel takes it from a process that dies. A
  process is numbered by a natural number; \<open>'pc\<close> is where it is inside of the locked call.
\<close>

subsection \<open>State and steps\<close>

text \<open>
  \<open>Asking\<close> stands between the lock and the first access of the call, \<open>Leaving\<close> between the
  return of the call and the unlock.
\<close>

datatype 'pc client = Away | Asking | Calling 'pc | Leaving | Dead

record 'pc lock_file_side =
  procs :: "nat \<Rightarrow> 'pc client"
  lock_of :: "nat option"

definition all_away :: "'pc lock_file_side" where
  "all_away = \<lparr>procs = (\<lambda>_. Away), lock_of = None\<rparr>"

definition goto :: "nat \<Rightarrow> 'pc client \<Rightarrow> 'pc lock_file_side \<Rightarrow> 'pc lock_file_side" where
  "goto i c sd = sd\<lparr>procs := (procs sd)(i := c)\<rparr>"

definition lock_ex :: "nat \<Rightarrow> 'pc lock_file_side \<Rightarrow> 'pc lock_file_side" where
  "lock_ex i sd = (goto i Asking sd)\<lparr>lock_of := Some i\<rparr>"

definition lock_un :: "nat \<Rightarrow> 'pc lock_file_side \<Rightarrow> 'pc lock_file_side" where
  "lock_un i sd = (goto i Away sd)\<lparr>lock_of := None\<rparr>"

definition dies :: "nat \<Rightarrow> 'pc lock_file_side \<Rightarrow> 'pc lock_file_side" where
  "dies i sd = (goto i Dead sd)\<lparr>lock_of := (if lock_of sd = Some i then None else lock_of sd)\<rparr>"

text \<open>Where a process is after a step of its call: at the idle position the call has returned.\<close>

definition stepped :: "'pc \<Rightarrow> 'pc \<Rightarrow> 'pc client" where
  "stepped idle pc = (if pc = idle then Leaving else Calling pc)"

subsection \<open>Exclusion\<close>

definition within :: "'pc client \<Rightarrow> bool" where
  "within c \<longleftrightarrow> c \<noteq> Away \<and> c \<noteq> Dead"

definition dead :: "'pc lock_file_side \<Rightarrow> nat set" where
  "dead sd = {i. procs sd i = Dead}"

definition lock_ok :: "'pc lock_file_side \<Rightarrow> bool" where
  "lock_ok sd \<longleftrightarrow> (\<forall>i. within (procs sd i) \<longleftrightarrow> lock_of sd = Some i) \<and> finite (dead sd)"

text \<open>The one position inside of a call.\<close>

definition inside :: "'pc \<Rightarrow> 'pc lock_file_side \<Rightarrow> 'pc" where
  "inside idle sd =
     (case lock_of sd of
        None \<Rightarrow> idle
      | Some i \<Rightarrow> (case procs sd i of Calling pc \<Rightarrow> pc | _ \<Rightarrow> idle))"

definition deaths :: "'pc lock_file_side \<Rightarrow> nat" where
  "deaths sd = card (dead sd)"

lemma within_simps [simp]:
  "\<not> within Away" "\<not> within Dead" "within Asking" "within (Calling pc)" "within Leaving" "within (stepped idle pc)"
  by (simp_all add: within_def stepped_def)

lemma side_fields [simp]:
  "procs (goto i c sd) = (procs sd)(i := c)" "lock_of (goto i c sd) = lock_of sd"
  "procs (lock_ex i sd) = (procs sd)(i := Asking)" "lock_of (lock_ex i sd) = Some i"
  "procs (lock_un i sd) = (procs sd)(i := Away)" "lock_of (lock_un i sd) = None"
  "procs (dies i sd) = (procs sd)(i := Dead)"
  "lock_of (dies i sd) = (if lock_of sd = Some i then None else lock_of sd)"
  "procs all_away i = Away" "lock_of all_away = None"
  by (simp_all add: goto_def lock_ex_def lock_un_def dies_def all_away_def)

lemma lock_okD:
  "lock_ok sd \<Longrightarrow> within (procs sd i) \<Longrightarrow> lock_of sd = Some i"
  "lock_ok sd \<Longrightarrow> lock_of sd = Some i \<Longrightarrow> within (procs sd i)"
  "lock_ok sd \<Longrightarrow> finite (dead sd)"
  by (auto simp: lock_ok_def)

lemma dead_simps:
  "dead (goto i c sd) = (if c = Dead then insert i (dead sd) else dead sd - {i})"
  "dead (lock_ex i sd) = dead sd - {i}" "dead (lock_un i sd) = dead sd - {i}" "dead (dies i sd) = insert i (dead sd)"
  "dead all_away = {}" "i \<in> dead sd \<longleftrightarrow> procs sd i = Dead"
  by (auto simp: dead_def split: if_splits)

lemma lock_ok_away: "lock_ok all_away" "deaths all_away = 0" "inside idle all_away = idle"
  by (simp_all add: lock_ok_def deaths_def inside_def dead_simps)

lemma lock_ok_ex: "lock_ok sd \<Longrightarrow> lock_of sd = None \<Longrightarrow> lock_ok (lock_ex i sd)"
  by (auto simp: lock_ok_def dead_simps)

lemma lock_ok_un: "lock_ok sd \<Longrightarrow> lock_of sd = Some i \<Longrightarrow> lock_ok (lock_un i sd)"
  by (auto simp: lock_ok_def dead_simps)

lemma lock_ok_goto: "lock_ok sd \<Longrightarrow> lock_of sd = Some i \<Longrightarrow> within c \<Longrightarrow> lock_ok (goto i c sd)"
  by (auto simp: lock_ok_def dead_simps)

lemma lock_ok_dies: "lock_ok sd \<Longrightarrow> lock_ok (dies i sd)"
  by (cases "lock_of sd = Some i") (simp_all add: lock_ok_def dead_simps)

lemma deaths_simps:
  "c \<noteq> Dead \<Longrightarrow> procs sd i \<noteq> Dead \<Longrightarrow> deaths (goto i c sd) = deaths sd"
  "procs sd i \<noteq> Dead \<Longrightarrow> deaths (lock_ex i sd) = deaths sd"
  "procs sd i \<noteq> Dead \<Longrightarrow> deaths (lock_un i sd) = deaths sd"
  by (simp_all add: deaths_def dead_simps)

lemma deaths_dies: "lock_ok sd \<Longrightarrow> procs sd i \<noteq> Dead \<Longrightarrow> deaths (dies i sd) = Suc (deaths sd)"
  by (simp add: deaths_def dead_simps lock_okD(3))

lemma inside_simps:
  "inside idle (lock_ex i sd) = idle" "inside idle (lock_un i sd) = idle"
  "lock_of sd = Some i \<Longrightarrow> inside idle (goto i (stepped idle pc) sd) = pc"
  "lock_of sd = Some i \<Longrightarrow> inside idle (goto i (Calling pc) sd) = pc"
  "lock_of sd = Some i \<Longrightarrow> inside idle (goto i Leaving sd) = idle"
  "lock_of sd = Some i \<Longrightarrow> procs sd i = Calling pc \<Longrightarrow> inside idle sd = pc"
  "lock_of sd = Some i \<Longrightarrow> procs sd i = Asking \<or> procs sd i = Leaving \<Longrightarrow> inside idle sd = idle"
  "lock_of sd = None \<Longrightarrow> inside idle sd = idle"
  by (auto simp: inside_def stepped_def)

text \<open>A death outside of the lock changes nothing of the call in progress; one inside ends it.\<close>

lemma inside_dies:
  "lock_of sd = Some i \<Longrightarrow> inside idle (dies i sd) = idle"
  "lock_of sd \<noteq> Some i \<Longrightarrow> inside idle (dies i sd) = inside idle sd"
  by (auto simp: inside_def split: option.split)

end
