(* ===== verification/Msg_Mpmc.thy ===== *)
theory Msg_Mpmc
  imports Msg_Spsc_Props Flock
begin

text \<open>
  Any number of processes with a \<^verbatim>\<open>ShmMQLockProducer\<close> and any number with a \<^verbatim>\<open>ShmMQLockComsumer\<close>
  on one queue: every lock, unlock and shared access of \<^verbatim>\<open>produce\<close> and \<^verbatim>\<open>comsume\<close> is a step of its
  own, and any process may die between two steps. The two sides have different lock files, so
  that a producer and a consumer run at the same time.
\<close>

subsection \<open>Steps\<close>

text \<open>
  One access of a producer or of a consumer, from theory Msg_Spsc: it depends on the segment
  and on the position of its own process only. \<open>ds\<close> is the message it publishes or hands out.
\<close>

definition producer_step ::
    "u32 \<Rightarrow> nat \<Rightarrow> mq_seg \<Rightarrow> prod_pc \<Rightarrow> bytes list \<Rightarrow> mq_seg \<Rightarrow> prod_pc \<Rightarrow> bool" where
  "producer_step bs n g p ds g' p' \<longleftrightarrow>
     spsc_step bs n \<lparr>sh = g, prod = p, cons = C_idle, sent = [], got = []\<rparr>
       \<lparr>sh = g', prod = p', cons = C_idle, sent = ds, got = []\<rparr>"

definition consumer_step ::
    "u32 \<Rightarrow> nat \<Rightarrow> mq_seg \<Rightarrow> cons_pc \<Rightarrow> bytes list \<Rightarrow> mq_seg \<Rightarrow> cons_pc \<Rightarrow> bool" where
  "consumer_step bs n g c ds g' c' \<longleftrightarrow>
     spsc_step bs n \<lparr>sh = g, prod = P_idle, cons = c, sent = [], got = []\<rparr>
       \<lparr>sh = g', prod = P_idle, cons = c', sent = [], got = ds\<rparr>"

text \<open>
  \<open>m_sent\<close> records the published messages with their producer, \<open>m_taken\<close> those taken off the
  queue with their consumer and whether it lived to return them, \<open>uncounted\<close> the increments
  of the counter that a dead producer owes and the messages a dead consumer counted off
  and left in the queue.
\<close>

record mpmc =
  mem :: mq_seg
  psd :: "prod_pc lock_file_side"
  csd :: "cons_pc lock_file_side"
  m_sent :: "(nat \<times> bytes) list"
  m_taken :: "(nat \<times> bytes \<times> bool) list"
  uncounted :: nat

definition mpmc_start :: "mq_seg \<Rightarrow> mpmc" where
  "mpmc_start g = \<lparr>mem = g, psd = all_away, csd = all_away, m_sent = [], m_taken = [], uncounted = 0\<rparr>"

fun p_owes :: "prod_pc client \<Rightarrow> nat" where
  "p_owes (Calling P_published) = 1"
| "p_owes _ = 0"

fun c_owes :: "cons_pc client \<Rightarrow> nat" where
  "c_owes (Calling (C_counted _ _)) = 1"
| "c_owes (Calling (C_sized _ _)) = 1"
| "c_owes (Calling (C_copied _ _ _)) = 1"
| "c_owes _ = 0"

fun held :: "cons_pc client \<Rightarrow> bytes list" where
  "held (Calling c) = in_hand c"
| "held _ = []"

text \<open>
  A producer starts its call right behind the lock; a consumer first asks whether the counter
  is zero and returns if it is. A process that opens the segment resets the process id.
\<close>

inductive mpmc_step :: "u32 \<Rightarrow> nat \<Rightarrow> mpmc \<Rightarrow> mpmc \<Rightarrow> bool" for bs n where
  p_lock: "procs (psd s) i = Away \<Longrightarrow> lock_of (psd s) = None \<Longrightarrow>
    mpmc_step bs n s (s\<lparr>psd := lock_ex i (psd s)\<rparr>)"
| p_call: "procs (psd s) i = Asking \<Longrightarrow>
    mpmc_step bs n s (s\<lparr>psd := goto i (Calling P_idle) (psd s)\<rparr>)"
| p_run: "procs (psd s) i = Calling p \<Longrightarrow> producer_step bs n (mem s) p ds g p' \<Longrightarrow>
    mpmc_step bs n s (s\<lparr>mem := g, psd := goto i (stepped P_idle p') (psd s), m_sent := m_sent s @ map (Pair i) ds\<rparr>)"
| p_unlock: "procs (psd s) i = Leaving \<Longrightarrow> mpmc_step bs n s (s\<lparr>psd := lock_un i (psd s)\<rparr>)"
| p_dies: "procs (psd s) i \<noteq> Dead \<Longrightarrow>
    mpmc_step bs n s (s\<lparr>psd := dies i (psd s), uncounted := uncounted s + p_owes (procs (psd s) i)\<rparr>)"
| c_lock: "procs (csd s) i = Away \<Longrightarrow> lock_of (csd s) = None \<Longrightarrow>
    mpmc_step bs n s (s\<lparr>csd := lock_ex i (csd s)\<rparr>)"
| c_nothing: "procs (csd s) i = Asking \<Longrightarrow> msgCount (mem s) = 0 \<Longrightarrow>
    mpmc_step bs n s (s\<lparr>csd := goto i Leaving (csd s)\<rparr>)"
| c_call: "procs (csd s) i = Asking \<Longrightarrow> msgCount (mem s) \<noteq> 0 \<Longrightarrow>
    mpmc_step bs n s (s\<lparr>csd := goto i (Calling C_idle) (csd s)\<rparr>)"
| c_run: "procs (csd s) i = Calling c \<Longrightarrow> consumer_step bs n (mem s) c ds g c' \<Longrightarrow>
    mpmc_step bs n s (s\<lparr>mem := g, csd := goto i (stepped C_idle c') (csd s),
      m_taken := m_taken s @ map (\<lambda>d. (i, d, True)) ds\<rparr>)"
| c_unlock: "procs (csd s) i = Leaving \<Longrightarrow> mpmc_step bs n s (s\<lparr>csd := lock_un i (csd s)\<rparr>)"
| c_dies: "procs (csd s) i \<noteq> Dead \<Longrightarrow>
    mpmc_step bs n s (s\<lparr>csd := dies i (csd s), uncounted := uncounted s + c_owes (procs (csd s) i),
      m_taken := m_taken s @ map (\<lambda>d. (i, d, False)) (held (procs (csd s) i))\<rparr>)"
| opens: "mpmc_step bs n s (s\<lparr>mem := (mem s)\<lparr>q_pid := 0\<rparr>\<rparr>)"

subsection \<open>A step of one process among the others\<close>

text \<open>A step of the system of two is one of its producer or one of its consumer.\<close>

lemmas producer_step_simps = producer_step_def [unfolded spsc_step.simps, simplified]
lemmas consumer_step_simps = consumer_step_def [unfolded spsc_step.simps, simplified]
lemmas spsc_record_simps =
  spsc_step.simps [of bs n "\<lparr>sh = g, prod = p, cons = c, sent = ds, got = rs\<rparr>" "\<lparr>sh = g', prod = p', cons = c', sent = ds', got = rs'\<rparr>",
    simplified] for bs n g p c ds rs g' p' c' ds' rs'

lemma spsc_step_producer:
  assumes "spsc_step bs n s u" "cons u = cons s"
  shows "\<exists>ds. producer_step bs n (sh s) (prod s) ds (sh u) (prod u) \<and>
    u = s\<lparr>sh := sh u, prod := prod u, sent := sent s @ ds\<rparr>"
  using assms(1)
proof cases
  case (p_publish d t)
  then show ?thesis by (intro exI [of _ "[d]"]) (simp add: producer_step_simps)
next
  case (p_write d t b)
  then show ?thesis by (intro exI [of _ "[]"]) (simp add: producer_step_simps, intro exI [of _ b], simp)
next
  case (p_place d t b t')
  then show ?thesis by (intro exI [of _ "[]"]) (auto simp add: producer_step_simps)
qed (use assms(2) in \<open>simp_all add: producer_step_simps\<close>)

lemma spsc_step_consumer:
  assumes "spsc_step bs n s u" "prod u = prod s" "cons u \<noteq> cons s"
  shows "\<exists>ds. consumer_step bs n (sh s) (cons s) ds (sh u) (cons u) \<and>
    u = s\<lparr>sh := sh u, cons := cons u, got := got s @ ds\<rparr>"
  using assms by (cases s; cases u) (auto simp: spsc_record_simps consumer_step_simps)

lemma producer_step_spsc:
  assumes "producer_step bs n (sh s) (prod s) ds g' p'"
  shows "spsc_step bs n s (s\<lparr>sh := g', prod := p', sent := sent s @ ds\<rparr>)"
  using assms by (cases s) (auto simp: spsc_record_simps producer_step_simps)

lemma consumer_step_spsc:
  assumes "consumer_step bs n (sh s) (cons s) ds g' c'"
  shows "spsc_step bs n s (s\<lparr>sh := g', cons := c', got := got s @ ds\<rparr>)"
  using assms by (cases s) (auto simp: spsc_record_simps consumer_step_simps)

subsection \<open>Invariant\<close>

text \<open>
  The two calls in progress as a producer and a consumer of theory Msg_Spsc, with the counter
  corrected by what the dead owe, and the messages of the dead among those taken.
\<close>

definition counted_seg :: "nat \<Rightarrow> mq_seg \<Rightarrow> mq_seg" where
  "counted_seg k g = g\<lparr>msgCount := msgCount g + of_nat k\<rparr>"

definition two_calls :: "mpmc \<Rightarrow> spsc" where
  "two_calls s = \<lparr>sh = counted_seg (uncounted s) (mem s), prod = inside P_idle (psd s), cons = inside C_idle (csd s),
     sent = map snd (m_sent s), got = map (fst \<circ> snd) (m_taken s)\<rparr>"

definition lost :: "mpmc \<Rightarrow> nat" where
  "lost s = length (filter (\<lambda>(i, d, returned). \<not> returned) (m_taken s))"

definition mpmc_inv :: "u32 \<Rightarrow> nat \<Rightarrow> mpmc \<Rightarrow> bool" where
  "mpmc_inv bs n s \<longleftrightarrow> lock_ok (psd s) \<and> lock_ok (csd s) \<and> spsc_inv bs n (two_calls s) \<and>
     uncounted s + lost s \<le> deaths (psd s) + deaths (csd s)"

text \<open>A counter that is off by a constant changes no step.\<close>

lemma counted_seg_simps [simp]:
  "q_head (counted_seg k g) = q_head g" "q_tail (counted_seg k g) = q_tail g" "block (counted_seg k g) = block g"
  "msgCount (counted_seg k g) = msgCount g + of_nat k" "counted_seg 0 g = g"
  by (simp_all add: counted_seg_def)

lemma producer_step_counted:
  "producer_step bs n g p ds g' p' \<Longrightarrow> producer_step bs n (counted_seg k g) p ds (counted_seg k g') p'"
proof (cases p)
  case (P_writing d t)
  assume "producer_step bs n g p ds g' p'"
  then obtain b where g': "g' = g\<lparr>block := b\<rparr>" and ds: "ds = []"
    and b: "p' = p \<and> length b = length (block g) \<and>
        (\<forall>x<length b. x \<notin> msg_region (unat bs) (unat t) d \<longrightarrow> b ! x = block g ! x) \<or>
      (\<exists>t'. p' = P_placed d t' \<and> place_msg d (of_nat (length d)) bs t (block g) = Some (b, t'))"
    unfolding producer_step_simps by (auto simp: P_writing)
  have "counted_seg k g' = (counted_seg k g)\<lparr>block := b\<rparr>" by (simp add: g' counted_seg_def)
  with b show ?thesis
    by (elim disjE exE conjE) (simp add: producer_step_simps P_writing ds, (intro exI [of _ b], simp)?)+
qed (simp_all add: producer_step_simps counted_seg_def; auto simp: algebra_simps)+

lemma consumer_step_counted:
  "consumer_step bs n g c ds g' c' \<Longrightarrow> consumer_step bs n (counted_seg k g) c ds (counted_seg k g') c'"
  by (cases c; simp add: consumer_step_simps counted_seg_def; auto simp: algebra_simps)

text \<open>The death of a process in the middle of its call.\<close>

lemma prod_inv_counted: "prod_inv bs n ms (g\<lparr>msgCount := c\<rparr>) p = prod_inv bs n ms g p"
  by (rule prod_inv_cong) simp_all

lemma spsc_inv_prod_dies:
  assumes "spsc_inv bs n s" "k = (if prod s = P_published then 1 else 0)"
  shows "spsc_inv bs n (s\<lparr>sh := counted_seg k (sh s), prod := P_idle\<rparr>)"
proof -
  obtain ms where ms: "holds ms (mq_obj bs (sh s))" "\<forall>m\<in>set ms. length m + 4 \<le> n"
    "sent s = got s @ in_hand (cons s) @ ms" "cons_inv bs n ms (sh s) (cons s)"
    and count: "msgCount (sh s) + lag (prod s) (cons s) = of_nat (length ms)"
    using assms(1) unfolding spsc_inv_def by blast
  have "msgCount (sh s) + of_nat k + lag P_idle (cons s) = of_nat (length ms)"
    using count assms(2) by (cases "prod s = P_published") (simp_all add: lag_def add_ac)
  then show ?thesis
    using ms cons_inv_cong [of "counted_seg k (sh s)" "sh s"]
    by (intro spsc_invI [of ms]) (simp_all add: counted_seg_def)
qed

lemma spsc_inv_cons_dies:
  assumes "spsc_inv bs n s" "k = c_owes (Calling (cons s))"
  shows "spsc_inv bs n (s\<lparr>sh := counted_seg k (sh s), cons := C_idle, got := got s @ in_hand (cons s)\<rparr>)"
proof -
  obtain ms where ms: "holds ms (mq_obj bs (sh s))" "\<forall>m\<in>set ms. length m + 4 \<le> n"
    "sent s = got s @ in_hand (cons s) @ ms" "prod_inv bs n ms (sh s) (prod s)"
    and count: "msgCount (sh s) + lag (prod s) (cons s) = of_nat (length ms)"
    using assms(1) unfolding spsc_inv_def by blast
  have "of_nat k + lag (prod s) C_idle = lag (prod s) (cons s)" using assms(2) by (cases "cons s") (simp_all add: lag_def)
  then have "msgCount (sh s) + of_nat k + lag (prod s) C_idle = of_nat (length ms)"
    using count by (simp only: add.assoc)
  then show ?thesis
    using ms by (intro spsc_invI [of ms]) (simp_all add: counted_seg_def prod_inv_counted)
qed

subsection \<open>Every step keeps the invariant\<close>

lemma counted_seg_add: "counted_seg (j + k) g = counted_seg k (counted_seg j g)"
  by (simp add: counted_seg_def add.assoc)

lemma spsc_inv_pid: "spsc_inv bs n (s\<lparr>sh := (sh s)\<lparr>q_pid := x\<rparr>\<rparr>) = spsc_inv bs n s"
  using holds_obj_cong [of "(sh s)\<lparr>q_pid := x\<rparr>" "sh s"] cons_inv_cong [of "(sh s)\<lparr>q_pid := x\<rparr>" "sh s"]
    prod_inv_cong [of "(sh s)\<lparr>q_pid := x\<rparr>" "sh s"]
  by (simp add: spsc_inv_def)

lemma mpmc_inv_run_producer:
  assumes "mpmc_inv bs n s" "procs (psd s) i = Calling p" "producer_step bs n (mem s) p ds g p'" "n + 8 < 2 ^ 32"
  shows "mpmc_inv bs n (s\<lparr>mem := g, psd := goto i (stepped P_idle p') (psd s), m_sent := m_sent s @ map (Pair i) ds\<rparr>)"
proof -
  let ?u = "s\<lparr>mem := g, psd := goto i (stepped P_idle p') (psd s), m_sent := m_sent s @ map (Pair i) ds\<rparr>"
  have ok: "lock_ok (psd s)" and lock: "lock_of (psd s) = Some i"
    using assms(1,2) lock_okD(1) [of "psd s" i] by (auto simp: mpmc_inv_def)
  have "spsc_step bs n (two_calls s) (two_calls ?u)"
    using producer_step_spsc [of bs n "two_calls s" ds "counted_seg (uncounted s) g" p'] producer_step_counted [OF assms(3)]
      inside_simps(3,6) [OF lock] assms(2)
    by (simp add: two_calls_def comp_def)
  then have "spsc_inv bs n (two_calls ?u)" using assms(1,4) by (auto simp: mpmc_inv_def intro: spsc_inv_step)
  then show ?thesis
    using assms(1,2) lock_ok_goto [OF ok lock] by (simp add: mpmc_inv_def lost_def deaths_simps stepped_def)
qed

lemma mpmc_inv_run_consumer:
  assumes "mpmc_inv bs n s" "procs (csd s) i = Calling c" "consumer_step bs n (mem s) c ds g c'" "n + 8 < 2 ^ 32"
  shows "mpmc_inv bs n (s\<lparr>mem := g, csd := goto i (stepped C_idle c') (csd s),
    m_taken := m_taken s @ map (\<lambda>d. (i, d, True)) ds\<rparr>)"
proof -
  let ?u = "s\<lparr>mem := g, csd := goto i (stepped C_idle c') (csd s), m_taken := m_taken s @ map (\<lambda>d. (i, d, True)) ds\<rparr>"
  have ok: "lock_ok (csd s)" and lock: "lock_of (csd s) = Some i"
    using assms(1,2) lock_okD(1) [of "csd s" i] by (auto simp: mpmc_inv_def)
  have "spsc_step bs n (two_calls s) (two_calls ?u)"
    using consumer_step_spsc [of bs n "two_calls s" ds "counted_seg (uncounted s) g" c'] consumer_step_counted [OF assms(3)]
      inside_simps(3,6) [OF lock] assms(2)
    by (simp add: two_calls_def comp_def)
  then have "spsc_inv bs n (two_calls ?u)" using assms(1,4) by (auto simp: mpmc_inv_def intro: spsc_inv_step)
  moreover have "lost ?u = lost s" by (simp add: lost_def filter_map comp_def)
  ultimately show ?thesis
    using assms(1,2) lock_ok_goto [OF ok lock] by (simp add: mpmc_inv_def deaths_simps stepped_def)
qed

lemma mpmc_inv_producer_dies:
  assumes "mpmc_inv bs n s" "procs (psd s) i \<noteq> Dead"
  shows "mpmc_inv bs n (s\<lparr>psd := dies i (psd s), uncounted := uncounted s + p_owes (procs (psd s) i)\<rparr>)"
proof -
  let ?u = "s\<lparr>psd := dies i (psd s), uncounted := uncounted s + p_owes (procs (psd s) i)\<rparr>"
  have ok: "lock_ok (psd s)" and inv: "spsc_inv bs n (two_calls s)" using assms(1) by (simp_all add: mpmc_inv_def)
  have "spsc_inv bs n (two_calls ?u)"
  proof (cases "lock_of (psd s) = Some i")
    case True
    have "p_owes (procs (psd s) i) = (if prod (two_calls s) = P_published then 1 else 0)"
      using True by (cases "procs (psd s) i" rule: p_owes.cases) (auto simp: two_calls_def inside_def)
    then show ?thesis
      using spsc_inv_prod_dies [OF inv] inside_dies(1) [OF True, of P_idle] by (simp add: two_calls_def counted_seg_add)
  next
    case False
    then have "procs (psd s) i = Away" using lock_okD(1) [OF ok, of i] assms(2) by (auto simp: within_def)
    then show ?thesis using inv inside_dies(2) [OF False, of P_idle] by (simp add: two_calls_def)
  qed
  moreover have "p_owes (procs (psd s) i) \<le> 1" by (cases "procs (psd s) i" rule: p_owes.cases) simp_all
  ultimately show ?thesis
    using assms lock_ok_dies [OF ok, of i] deaths_dies [OF ok assms(2)] by (simp add: mpmc_inv_def lost_def)
qed

lemma mpmc_inv_consumer_dies:
  assumes "mpmc_inv bs n s" "procs (csd s) i \<noteq> Dead"
  shows "mpmc_inv bs n (s\<lparr>csd := dies i (csd s), uncounted := uncounted s + c_owes (procs (csd s) i),
    m_taken := m_taken s @ map (\<lambda>d. (i, d, False)) (held (procs (csd s) i))\<rparr>)"
proof -
  let ?u = "s\<lparr>csd := dies i (csd s), uncounted := uncounted s + c_owes (procs (csd s) i),
    m_taken := m_taken s @ map (\<lambda>d. (i, d, False)) (held (procs (csd s) i))\<rparr>"
  have ok: "lock_ok (csd s)" and inv: "spsc_inv bs n (two_calls s)" using assms(1) by (simp_all add: mpmc_inv_def)
  have "spsc_inv bs n (two_calls ?u)"
  proof (cases "lock_of (csd s) = Some i")
    case True
    have "c_owes (procs (csd s) i) = c_owes (Calling (cons (two_calls s)))" "held (procs (csd s) i) = in_hand (cons (two_calls s))"
      using True by (cases "procs (csd s) i"; simp add: two_calls_def inside_def)+
    then show ?thesis
      using spsc_inv_cons_dies [OF inv] inside_dies(1) [OF True, of C_idle]
      by (simp add: two_calls_def counted_seg_add comp_def)
  next
    case False
    then have "procs (csd s) i = Away" using lock_okD(1) [OF ok, of i] assms(2) by (auto simp: within_def)
    then show ?thesis using inv inside_dies(2) [OF False, of C_idle] by (simp add: two_calls_def)
  qed
  moreover have "c_owes (procs (csd s) i) + length (held (procs (csd s) i)) \<le> 1"
  proof (cases "procs (csd s) i")
    case (Calling c)
    then show ?thesis by (cases c) simp_all
  qed simp_all
  moreover have "lost ?u = lost s + length (held (procs (csd s) i))" by (simp add: lost_def filter_map comp_def)
  ultimately show ?thesis
    using assms lock_ok_dies [OF ok, of i] deaths_dies [OF ok assms(2)] by (simp add: mpmc_inv_def)
qed

lemma mpmc_inv_step:
  assumes "mpmc_step bs n s u" "mpmc_inv bs n s" "n + 8 < 2 ^ 32"
  shows "mpmc_inv bs n u"
  using assms(1)
proof cases
  case (p_run i p ds g p')
  then show ?thesis using mpmc_inv_run_producer [OF assms(2) _ _ assms(3)] by simp
next
  case (c_run i c ds g c')
  then show ?thesis using mpmc_inv_run_consumer [OF assms(2) _ _ assms(3)] by simp
next
  case (p_dies i)
  then show ?thesis using mpmc_inv_producer_dies [OF assms(2)] by simp
next
  case (c_dies i)
  then show ?thesis using mpmc_inv_consumer_dies [OF assms(2)] by simp
next
  case opens
  have "counted_seg k ((mem s)\<lparr>q_pid := 0\<rparr>) = (counted_seg k (mem s))\<lparr>q_pid := 0\<rparr>" for k by (simp add: counted_seg_def)
  then have "two_calls u = (two_calls s)\<lparr>sh := (sh (two_calls s))\<lparr>q_pid := 0\<rparr>\<rparr>" by (simp add: two_calls_def opens)
  then show ?thesis using assms(2) by (simp add: mpmc_inv_def spsc_inv_pid lost_def opens)
next
  case (p_lock i)
  then show ?thesis
    using assms(2) inside_simps(8) [of "psd s" P_idle]
    by (simp add: mpmc_inv_def two_calls_def lost_def lock_ok_ex deaths_simps inside_simps)
next
  case (c_lock i)
  then show ?thesis
    using assms(2) inside_simps(8) [of "csd s" C_idle]
    by (simp add: mpmc_inv_def two_calls_def lost_def lock_ok_ex deaths_simps inside_simps)
next
  case (p_call i)
  then have l: "lock_of (psd s) = Some i" using assms(2) lock_okD(1) by (fastforce simp: mpmc_inv_def)
  show ?thesis
    using p_call assms(2) lock_ok_goto [OF _ l] inside_simps(4,7) [OF l]
    by (simp add: mpmc_inv_def two_calls_def lost_def deaths_simps)
next
  case (p_unlock i)
  then have l: "lock_of (psd s) = Some i" using assms(2) lock_okD(1) by (fastforce simp: mpmc_inv_def)
  show ?thesis
    using p_unlock assms(2) lock_ok_un [OF _ l] inside_simps(2,7) [of "psd s" i] l
    by (simp add: mpmc_inv_def two_calls_def lost_def deaths_simps inside_simps)
next
  case (c_nothing i)
  then have l: "lock_of (csd s) = Some i" using assms(2) lock_okD(1) by (fastforce simp: mpmc_inv_def)
  show ?thesis
    using c_nothing assms(2) lock_ok_goto [OF _ l] inside_simps(5,7) [OF l]
    by (simp add: mpmc_inv_def two_calls_def lost_def deaths_simps)
next
  case (c_call i)
  then have l: "lock_of (csd s) = Some i" using assms(2) lock_okD(1) by (fastforce simp: mpmc_inv_def)
  show ?thesis
    using c_call assms(2) lock_ok_goto [OF _ l] inside_simps(4,7) [OF l]
    by (simp add: mpmc_inv_def two_calls_def lost_def deaths_simps)
next
  case (c_unlock i)
  then have l: "lock_of (csd s) = Some i" using assms(2) lock_okD(1) by (fastforce simp: mpmc_inv_def)
  show ?thesis
    using c_unlock assms(2) lock_ok_un [OF _ l] inside_simps(2,7) [of "csd s" i] l
    by (simp add: mpmc_inv_def two_calls_def lost_def deaths_simps inside_simps)
qed

end
