(* ===== verification/Msg_Mpmc_Props.thy ===== *)
theory Msg_Mpmc_Props
  imports Msg_Mpmc
begin

text \<open>
  The properties of any number of producers and consumers with lock files that run at the
  same time and may die: order and integrity of the messages, exclusion and progress of the
  locks, and what the death of a process costs.
\<close>

subsection \<open>Reachable states\<close>

lemma mpmc_inv_start:
  assumes "holds [] (mq_obj bs g)" "msgCount g = 0"
  shows "mpmc_inv bs n (mpmc_start g)"
proof -
  have "two_calls (mpmc_start g) = spsc_start g"
    by (simp add: two_calls_def mpmc_start_def spsc_start_def lock_ok_away)
  then show ?thesis
    using spsc_inv_start [OF assms] by (simp add: mpmc_inv_def mpmc_start_def lock_ok_away lost_def)
qed

lemma mpmc_inv_reachable:
  assumes "(mpmc_step bs n)\<^sup>*\<^sup>* (mpmc_start g) s" "holds [] (mq_obj bs g)" "msgCount g = 0" "n + 8 < 2 ^ 32"
  shows "mpmc_inv bs n s"
  using assms(1) by (induction rule: rtranclp_induct) (auto intro: mpmc_inv_step mpmc_inv_start assms)

text \<open>What the invariant says of the two calls in progress.\<close>

lemma mpmc_invE:
  assumes "mpmc_inv bs n s"
  obtains ms where "holds ms (mq_obj bs (mem s))" "\<forall>m\<in>set ms. length m + 4 \<le> n"
    "map snd (m_sent s) = map (fst \<circ> snd) (m_taken s) @ in_hand (inside C_idle (csd s)) @ ms"
    "inside P_idle (psd s) \<noteq> P_failed" "inside C_idle (csd s) \<noteq> C_failed"
    "msgCount (mem s) + of_nat (uncounted s) + lag (inside P_idle (psd s)) (inside C_idle (csd s)) = of_nat (length ms)"
proof -
  obtain ms where ms: "holds ms (mq_obj bs (sh (two_calls s)))" "\<forall>m\<in>set ms. length m + 4 \<le> n"
    "sent (two_calls s) = got (two_calls s) @ in_hand (cons (two_calls s)) @ ms"
    "prod_inv bs n ms (sh (two_calls s)) (prod (two_calls s))" "cons_inv bs n ms (sh (two_calls s)) (cons (two_calls s))"
    "msgCount (sh (two_calls s)) + lag (prod (two_calls s)) (cons (two_calls s)) = of_nat (length ms)"
    using assms unfolding mpmc_inv_def spsc_inv_def by blast
  moreover have "prod (two_calls s) \<noteq> P_failed" "cons (two_calls s) \<noteq> C_failed" using ms(4,5) by auto
  moreover have "holds ms (mq_obj bs (mem s))" using ms(1) by (simp add: two_calls_def counted_seg_def)
  ultimately show ?thesis using that by (simp add: two_calls_def)
qed

text \<open>
  C29: However the accesses of any number of producers and consumers with lock files
  interleave, and whichever of them die in the middle of a call: no call meets impossible
  positions or a damaged message; the messages taken off the queue are the first ones
  published, in order, each one once; at most one message or one count is lost with
  each death; and while nobody is within a call, the queue holds exactly the messages
  not taken, and the counter is their number less what the dead left uncounted.
\<close>

theorem mpmc_fifo_despite_deaths:
  assumes "holds [] (mq_obj bs g)" "msgCount g = 0" "n + 8 < 2 ^ 32" "(mpmc_step bs n)\<^sup>*\<^sup>* (mpmc_start g) s"
  shows "procs (psd s) i \<noteq> Calling P_failed \<and> procs (csd s) i \<noteq> Calling C_failed \<and>
    (\<exists>pending. map snd (m_sent s) = map (fst \<circ> snd) (m_taken s) @ pending) \<and>
    uncounted s + lost s \<le> deaths (psd s) + deaths (csd s) \<and>
    (lock_of (psd s) \<noteq> None \<or> lock_of (csd s) \<noteq> None \<or>
     (\<exists>ms. map snd (m_sent s) = map (fst \<circ> snd) (m_taken s) @ ms \<and> holds ms (mq_obj bs (mem s)) \<and>
       msgCount (mem s) + of_nat (uncounted s) = of_nat (length ms)))"
proof -
  have inv: "mpmc_inv bs n s" by (rule mpmc_inv_reachable [OF assms(4,1,2,3)])
  then obtain ms where ms: "holds ms (mq_obj bs (mem s))"
    "map snd (m_sent s) = map (fst \<circ> snd) (m_taken s) @ in_hand (inside C_idle (csd s)) @ ms"
    "inside P_idle (psd s) \<noteq> P_failed" "inside C_idle (csd s) \<noteq> C_failed"
    "msgCount (mem s) + of_nat (uncounted s) + lag (inside P_idle (psd s)) (inside C_idle (csd s)) = of_nat (length ms)"
    by (rule mpmc_invE)
  have ok: "lock_ok (psd s)" "lock_ok (csd s)" "uncounted s + lost s \<le> deaths (psd s) + deaths (csd s)"
    using inv by (simp_all add: mpmc_inv_def)
  have "procs (psd s) i \<noteq> Calling P_failed"
    using lock_okD(1) [OF ok(1), of i] inside_simps(6) [of "psd s" i P_failed] ms(3) by auto
  moreover have "procs (csd s) i \<noteq> Calling C_failed"
    using lock_okD(1) [OF ok(2), of i] inside_simps(6) [of "csd s" i C_failed] ms(4) by auto
  moreover have "\<exists>ms. map snd (m_sent s) = map (fst \<circ> snd) (m_taken s) @ ms \<and> holds ms (mq_obj bs (mem s)) \<and>
      msgCount (mem s) + of_nat (uncounted s) = of_nat (length ms)" if "lock_of (psd s) = None" "lock_of (csd s) = None"
    using ms inside_simps(8) [OF that(1), of P_idle] inside_simps(8) [OF that(2), of C_idle]
    by (intro exI [of _ ms]) (simp add: lag_def)
  ultimately show ?thesis using ms(2) ok(3) by blast
qed

subsection \<open>The locks\<close>

text \<open>The steps a process within the lock still needs at most.\<close>

fun p_rank :: "prod_pc client \<Rightarrow> nat" where
  "p_rank Asking = 8"
| "p_rank (Calling P_idle) = 7"
| "p_rank (Calling p) = Suc (prod_rank p)"
| "p_rank Leaving = 1"
| "p_rank _ = 0"

fun c_rank :: "cons_pc client \<Rightarrow> nat" where
  "c_rank Asking = 9"
| "c_rank (Calling C_idle) = 8"
| "c_rank (Calling c) = Suc (cons_rank c)"
| "c_rank Leaving = 1"
| "c_rank _ = 0"

lemma rank_stepped:
  "p \<noteq> P_idle \<Longrightarrow> p_rank (Calling p) = Suc (prod_rank p)" "p_rank (stepped P_idle p) = Suc (prod_rank p)"
  "c \<noteq> C_idle \<Longrightarrow> c_rank (Calling c) = Suc (cons_rank c)" "c_rank (stepped C_idle c) = Suc (cons_rank c)"
proof -
  show "p_rank (Calling p) = Suc (prod_rank p)" if "p \<noteq> P_idle" for p using that by (cases p) simp_all
  then show "p_rank (stepped P_idle p) = Suc (prod_rank p)" by (simp add: stepped_def)
  show "c_rank (Calling c) = Suc (cons_rank c)" if "c \<noteq> C_idle" for c using that by (cases c) simp_all
  then show "c_rank (stepped C_idle c) = Suc (cons_rank c)" by (simp add: stepped_def)
qed

lemma rank_bound: "p_rank c \<le> 8" "c_rank d \<le> 9"
proof -
  show "p_rank c \<le> 8"
  proof (cases c)
    case (Calling p)
    then show ?thesis using rank_stepped(1) [of p] rank_le(1) [of p] by (cases "p = P_idle") simp_all
  qed simp_all
  show "c_rank d \<le> 9"
  proof (cases d)
    case (Calling p)
    then show ?thesis using rank_stepped(3) [of p] rank_le(2) [of p] by (cases "p = C_idle") simp_all
  qed simp_all
qed

lemma stepped_moves:
  "prod_rank q < prod_rank p \<Longrightarrow> stepped P_idle q \<noteq> Calling p \<and> stepped P_idle q \<noteq> Dead"
  "cons_rank d < cons_rank c \<Longrightarrow> stepped C_idle d \<noteq> Calling c \<and> stepped C_idle d \<noteq> Dead"
  by (auto simp: stepped_def)

lemma counted_back: "counted_seg (unat (- of_nat k :: u32)) (counted_seg k g) = g"
  by (simp add: counted_seg_def)

lemma producer_progress:
  assumes inv: "mpmc_inv bs n s" and lock: "lock_of (psd s) = Some i" and n: "4 \<le> n"
  shows "\<exists>u. mpmc_step bs n s u \<and> procs (psd u) i \<noteq> procs (psd s) i \<and> procs (psd u) i \<noteq> Dead"
proof -
  have "within (procs (psd s) i)" using inv lock lock_okD(2) by (auto simp: mpmc_inv_def)
  then consider "procs (psd s) i = Asking" | "procs (psd s) i = Leaving" | p where "procs (psd s) i = Calling p"
    by (cases "procs (psd s) i") simp_all
  then show ?thesis
  proof cases
    case 1
    then show ?thesis using mpmc_step.p_call [of s i bs n] lock by fastforce
  next
    case 2
    then show ?thesis using mpmc_step.p_unlock [of s i bs n] by fastforce
  next
    case (3 p)
    show ?thesis
    proof (cases "p = P_idle")
      case True
      have "producer_step bs n (mem s) p [] (mem s) (P_head [] (q_head (mem s)))"
        using n by (simp add: producer_step_simps True)
      from mpmc_step.p_run [OF 3 this] show ?thesis using lock 3 True by (fastforce simp: stepped_def)
    next
      case False
      have "spsc_inv bs n (two_calls s)" "prod (two_calls s) = p"
        using inv inside_simps(6) [OF lock 3] by (simp_all add: mpmc_inv_def two_calls_def)
      then obtain u where u: "spsc_step bs n (two_calls s) u" "prod_rank (prod u) < prod_rank p" "cons u = cons (two_calls s)"
        using prod_next [of bs n "two_calls s"] False by metis
      obtain ds where "producer_step bs n (counted_seg (uncounted s) (mem s)) p ds (sh u) (prod u)"
        using spsc_step_producer [OF u(1,3)] \<open>prod (two_calls s) = p\<close> by (auto simp: two_calls_def)
      from producer_step_counted [OF this, of "unat (- of_nat (uncounted s) :: u32)", unfolded counted_back]
      have "mpmc_step bs n s (s\<lparr>mem := counted_seg (unat (- of_nat (uncounted s) :: u32)) (sh u),
          psd := goto i (stepped P_idle (prod u)) (psd s), m_sent := m_sent s @ map (Pair i) ds\<rparr>)"
        by (rule mpmc_step.p_run [OF 3])
      then show ?thesis using stepped_moves(1) [OF u(2)] 3 by fastforce
    qed
  qed
qed

lemma consumer_progress:
  assumes inv: "mpmc_inv bs n s" and lock: "lock_of (csd s) = Some i" and n: "n + 8 < 2 ^ 32"
  shows "\<exists>u. mpmc_step bs n s u \<and> procs (csd u) i \<noteq> procs (csd s) i \<and> procs (csd u) i \<noteq> Dead"
proof -
  have "within (procs (csd s) i)" using inv lock lock_okD(2) by (auto simp: mpmc_inv_def)
  then consider "procs (csd s) i = Asking" | "procs (csd s) i = Leaving" | c where "procs (csd s) i = Calling c"
    by (cases "procs (csd s) i") simp_all
  then show ?thesis
  proof cases
    case 1
    then show ?thesis
      using mpmc_step.c_call [of s i bs n] mpmc_step.c_nothing [of s i bs n] lock
      by (cases "msgCount (mem s) = 0") fastforce+
  next
    case 2
    then show ?thesis using mpmc_step.c_unlock [of s i bs n] by fastforce
  next
    case (3 c)
    show ?thesis
    proof (cases "c = C_idle")
      case True
      have "consumer_step bs n (mem s) c [] (mem s) (C_head (q_head (mem s)))"
        by (simp add: consumer_step_simps True)
      from mpmc_step.c_run [OF 3 this] show ?thesis using lock 3 True by (fastforce simp: stepped_def)
    next
      case False
      have "spsc_inv bs n (two_calls s)" "cons (two_calls s) = c"
        using inv inside_simps(6) [OF lock 3] by (simp_all add: mpmc_inv_def two_calls_def)
      then obtain u where u: "spsc_step bs n (two_calls s) u" "cons_rank (cons u) < cons_rank c" "prod u = prod (two_calls s)"
        using cons_next [of bs n "two_calls s"] False n by metis
      then have "cons u \<noteq> cons (two_calls s)" using \<open>cons (two_calls s) = c\<close> by auto
      then obtain ds where "consumer_step bs n (counted_seg (uncounted s) (mem s)) c ds (sh u) (cons u)"
        using spsc_step_consumer [OF u(1,3)] \<open>cons (two_calls s) = c\<close> by (auto simp: two_calls_def)
      from consumer_step_counted [OF this, of "unat (- of_nat (uncounted s) :: u32)", unfolded counted_back]
      have "mpmc_step bs n s (s\<lparr>mem := counted_seg (unat (- of_nat (uncounted s) :: u32)) (sh u),
          csd := goto i (stepped C_idle (cons u)) (csd s), m_taken := m_taken s @ map (\<lambda>d. (i, d, True)) ds\<rparr>)"
        by (rule mpmc_step.c_run [OF 3])
      then show ?thesis using stepped_moves(2) [OF u(2)] 3 by fastforce
    qed
  qed
qed

text \<open>
  A run of the whole system in which one process (at \<open>pos\<close> in a state) does not die and has not
  returned before the end, with the number of moves of its own: the steps that change its position.
  All other processes make any steps in between, and die.
\<close>

inductive call_run :: "u32 \<Rightarrow> nat \<Rightarrow> (mpmc \<Rightarrow> 'pc client) \<Rightarrow> mpmc \<Rightarrow> nat \<Rightarrow> mpmc \<Rightarrow> bool" for bs n pos s where
  begins: "call_run bs n pos s 0 s"
| goes_on: "call_run bs n pos s k u \<Longrightarrow> within (pos u) \<Longrightarrow> mpmc_step bs n u v \<Longrightarrow> pos v \<noteq> Dead \<Longrightarrow>
    call_run bs n pos s (if pos v = pos u then k else Suc k) v"

text \<open>
  The call makes at most \<open>m\<close> moves, whatever the others do; until it has returned it can always make
  one, and when it has returned the lock is free; and there is a run in which it has returned.
\<close>

definition returns_in :: "nat \<Rightarrow> u32 \<Rightarrow> nat \<Rightarrow> (mpmc \<Rightarrow> 'pc client) \<Rightarrow> (mpmc \<Rightarrow> nat option) \<Rightarrow> mpmc \<Rightarrow> bool" where
  "returns_in m bs n pos lock s \<longleftrightarrow>
     (\<forall>k v. call_run bs n pos s k v \<longrightarrow> k \<le> m \<and>
        (if within (pos v) then \<exists>w. mpmc_step bs n v w \<and> pos w \<noteq> pos v \<and> pos w \<noteq> Dead
         else pos v = Away \<and> lock v = None)) \<and>
     (\<exists>k v. call_run bs n pos s k v \<and> pos v = Away \<and> lock v = None)"

lemma returns_in_rank:
  assumes s: "mpmc_inv bs n s" "within (pos s)" and n: "n + 8 < 2 ^ 32" and m: "rank (pos s) \<le> m"
    and lower: "\<And>u v. mpmc_inv bs n u \<Longrightarrow> mpmc_step bs n u v \<Longrightarrow> within (pos u) \<Longrightarrow> pos v \<noteq> Dead \<Longrightarrow>
      pos v = pos u \<or> rank (pos v) < rank (pos u) \<and> (within (pos v) \<or> pos v = Away \<and> lock v = None)"
    and moves: "\<And>u. mpmc_inv bs n u \<Longrightarrow> within (pos u) \<Longrightarrow> \<exists>w. mpmc_step bs n u w \<and> pos w \<noteq> pos u \<and> pos w \<noteq> Dead"
  shows "returns_in m bs n pos lock s"
proof -
  have run: "mpmc_inv bs n v \<and> k + rank (pos v) \<le> rank (pos s) \<and> (within (pos v) \<or> pos v = Away \<and> lock v = None)"
    if "call_run bs n pos s k v" for k v
    using that
  proof induction
    case (goes_on k u v)
    from lower [OF _ goes_on.hyps(3,2,4)] mpmc_inv_step [OF goes_on.hyps(3) _ n] goes_on.IH goes_on.hyps(2)
    show ?case by auto
  qed (use s in simp)
  have finish: "\<exists>k v. call_run bs n pos s k v \<and> pos v = Away \<and> lock v = None" if "call_run bs n pos s k v" for k v
    using that
  proof (induction "rank (pos v)" arbitrary: k v rule: less_induct)
    case less
    show ?case
    proof (cases "within (pos v)")
      case True
      obtain w where w: "mpmc_step bs n v w" "pos w \<noteq> pos v" "pos w \<noteq> Dead"
        using moves [OF _ True] run [OF less.prems] by blast
      then have "rank (pos w) < rank (pos v)" using lower [OF _ w(1) True w(3)] run [OF less.prems] by blast
      from less.hyps [OF this call_run.goes_on [OF less.prems True w(1,3)]] show ?thesis .
    next
      case False
      then show ?thesis using run [OF less.prems] less.prems by blast
    qed
  qed
  have "k \<le> m \<and> (if within (pos v) then \<exists>w. mpmc_step bs n v w \<and> pos w \<noteq> pos v \<and> pos w \<noteq> Dead
      else pos v = Away \<and> lock v = None)" if "call_run bs n pos s k v" for k v
    using run [OF that] moves [of v] m by auto
  then show ?thesis using finish [OF call_run.begins] by (simp only: returns_in_def) blast
qed

text \<open>A move within the call lowers the rank, and the last one gives the lock back.\<close>

lemma producer_move_rank:
  "producer_step bs n g p ds g' p' \<Longrightarrow> p' \<noteq> P_failed \<Longrightarrow> p' \<noteq> p \<Longrightarrow> p_rank (stepped P_idle p') < p_rank (Calling p)"
  by (cases p) (auto simp: producer_step_simps stepped_def)

lemma consumer_move_rank:
  "consumer_step bs n g c ds g' c' \<Longrightarrow> c' \<noteq> C_failed \<Longrightarrow> c' \<noteq> c \<Longrightarrow> c_rank (stepped C_idle c') < c_rank (Calling c)"
  by (cases c) (auto simp: consumer_step_simps stepped_def)

lemma mpmc_not_failed:
  assumes "mpmc_inv bs n s"
  shows "procs (psd s) i \<noteq> Calling P_failed" "procs (csd s) i \<noteq> Calling C_failed"
proof -
  have ok: "lock_ok (psd s)" "lock_ok (csd s)" using assms by (simp_all add: mpmc_inv_def)
  obtain ms where "inside P_idle (psd s) \<noteq> P_failed" "inside C_idle (csd s) \<noteq> C_failed" using mpmc_invE [OF assms] by blast
  then show "procs (psd s) i \<noteq> Calling P_failed" "procs (csd s) i \<noteq> Calling C_failed"
    using lock_okD(1) [OF ok(1), of i] inside_simps(6) [of "psd s" i P_failed]
      lock_okD(1) [OF ok(2), of i] inside_simps(6) [of "csd s" i C_failed] by auto
qed

lemma producer_lowers:
  assumes inv: "mpmc_inv bs n u" and step: "mpmc_step bs n u v" and w: "within (procs (psd u) i)"
    and d: "procs (psd v) i \<noteq> Dead" and n: "n + 8 < 2 ^ 32"
  shows "procs (psd v) i = procs (psd u) i \<or> p_rank (procs (psd v) i) < p_rank (procs (psd u) i) \<and>
    (within (procs (psd v) i) \<or> procs (psd v) i = Away \<and> lock_of (psd v) = None)"
  using step
proof cases
  case (p_lock j)
  have "lock_of (psd u) = Some i" using inv w lock_okD(1) by (auto simp: mpmc_inv_def)
  then show ?thesis using p_lock by simp
next
  case (p_run j p ds g p')
  have "p' \<noteq> P_failed" if "j = i"
    using mpmc_not_failed(1) [OF mpmc_inv_step [OF step inv n], of i] p_run(1) that by (auto simp: stepped_def)
  moreover have "stepped P_idle p' = Calling p" if "p' = p"
    using that p_run(3) by (cases p) (auto simp: producer_step_simps stepped_def)
  ultimately show ?thesis using producer_move_rank [OF p_run(3)] p_run(1,2) by auto
qed (use d in auto)

lemma consumer_lowers:
  assumes inv: "mpmc_inv bs n u" and step: "mpmc_step bs n u v" and w: "within (procs (csd u) i)"
    and d: "procs (csd v) i \<noteq> Dead" and n: "n + 8 < 2 ^ 32"
  shows "procs (csd v) i = procs (csd u) i \<or> c_rank (procs (csd v) i) < c_rank (procs (csd u) i) \<and>
    (within (procs (csd v) i) \<or> procs (csd v) i = Away \<and> lock_of (csd v) = None)"
  using step
proof cases
  case (c_lock j)
  have "lock_of (csd u) = Some i" using inv w lock_okD(1) by (auto simp: mpmc_inv_def)
  then show ?thesis using c_lock by simp
next
  case (c_run j c ds g c')
  have "c' \<noteq> C_failed" if "j = i"
    using mpmc_not_failed(2) [OF mpmc_inv_step [OF step inv n], of i] c_run(1) that by (auto simp: stepped_def)
  moreover have "stepped C_idle c' = Calling c" if "c' = c"
    using that c_run(3) by (cases c) (auto simp: consumer_step_simps stepped_def)
  ultimately show ?thesis using consumer_move_rank [OF c_run(3)] c_run(1,2) by auto
qed (use d in auto)

text \<open>
  C30: At every moment at most one producer and at most one consumer is within its locked call,
  and none of them has died. And a call in progress returns: unless its process dies, a producer
  makes at most eight and a consumer at most nine further moves of its own (the stores that place
  one message count as one move), however the steps and deaths of all others interleave with
  them; until then it is never blocked; and when it has returned, the lock is free.
\<close>

theorem mpmc_locks_exclude_and_return:
  assumes "holds [] (mq_obj bs g)" "msgCount g = 0" "4 \<le> n" "n + 8 < 2 ^ 32" "(mpmc_step bs n)\<^sup>*\<^sup>* (mpmc_start g) s"
  shows "(within (procs (psd s) i) \<longleftrightarrow> lock_of (psd s) = Some i) \<and> (within (procs (csd s) i) \<longleftrightarrow> lock_of (csd s) = Some i) \<and>
    (lock_of (psd s) = Some i \<longrightarrow> returns_in 8 bs n (\<lambda>s. procs (psd s) i) (\<lambda>s. lock_of (psd s)) s) \<and>
    (lock_of (csd s) = Some i \<longrightarrow> returns_in 9 bs n (\<lambda>s. procs (csd s) i) (\<lambda>s. lock_of (csd s)) s)"
proof (intro conjI impI)
  have inv: "mpmc_inv bs n s" by (rule mpmc_inv_reachable [OF assms(5,1,2,4)])
  then have ok: "lock_ok (psd s)" "lock_ok (csd s)" by (simp_all add: mpmc_inv_def)
  then show "within (procs (psd s) i) \<longleftrightarrow> lock_of (psd s) = Some i" "within (procs (csd s) i) \<longleftrightarrow> lock_of (csd s) = Some i"
    by (simp_all add: lock_ok_def)
  have moves: "\<exists>w. mpmc_step bs n u w \<and> procs (psd w) i \<noteq> procs (psd u) i \<and> procs (psd w) i \<noteq> Dead"
    if "mpmc_inv bs n u" "within (procs (psd u) i)" for u
    using producer_progress [OF that(1) _ assms(3)] that lock_okD(1) by (auto simp: mpmc_inv_def)
  have moves_c: "\<exists>w. mpmc_step bs n u w \<and> procs (csd w) i \<noteq> procs (csd u) i \<and> procs (csd w) i \<noteq> Dead"
    if "mpmc_inv bs n u" "within (procs (csd u) i)" for u
    using consumer_progress [OF that(1) _ assms(4)] that lock_okD(1) by (auto simp: mpmc_inv_def)
  show "returns_in 8 bs n (\<lambda>s. procs (psd s) i) (\<lambda>s. lock_of (psd s)) s" if "lock_of (psd s) = Some i"
    by (rule returns_in_rank [where rank = p_rank and pos = "\<lambda>s. procs (psd s) i" and s = s, OF inv])
      (fact lock_okD(2) [OF ok(1) that] assms(4) rank_bound(1) | erule (3) producer_lowers [OF _ _ _ _ assms(4)] | erule (1) moves)+
  show "returns_in 9 bs n (\<lambda>s. procs (csd s) i) (\<lambda>s. lock_of (csd s)) s" if "lock_of (csd s) = Some i"
    by (rule returns_in_rank [where rank = c_rank and pos = "\<lambda>s. procs (csd s) i" and s = s, OF inv])
      (fact lock_okD(2) [OF ok(2) that] assms(4) rank_bound(2) | erule (3) consumer_lowers [OF _ _ _ _ assms(4)] | erule (1) moves_c)+
qed

subsection \<open>The calls of the code\<close>

text \<open>A call that nothing interrupts, from the lock to the unlock.\<close>

definition holding :: "nat \<Rightarrow> 'pc client \<Rightarrow> 'pc lock_file_side \<Rightarrow> 'pc lock_file_side" where
  "holding i c sd = \<lparr>procs = (procs sd)(i := c), lock_of = Some i\<rparr>"

lemma holding_simps:
  "procs (holding i c sd) i = c" "goto i c' (holding i c sd) = holding i c' sd" "lock_ex i sd = holding i Asking sd"
  "procs sd i = Away \<Longrightarrow> lock_of sd = None \<Longrightarrow> lock_un i (holding i c sd) = sd"
  by (cases sd; auto simp: holding_def goto_def lock_ex_def lock_un_def)+

lemma produce_published:
  assumes "procs (psd s) i = Away" "lock_of (psd s) = None" "mq_ok (mq_obj bs (mem s))" "length d + 4 \<le> n"
    and "enqueue env d (of_nat (length d)) (mq_obj bs (mem s)) = Some (kOk, q)"
  shows "(mpmc_step bs n)\<^sup>*\<^sup>* s (s\<lparr>mem := (seg q)\<lparr>msgCount := msgCount (mem s)\<rparr>,
    psd := holding i (Calling P_published) (psd s), m_sent := m_sent s @ [(i, d)]\<rparr>)"
proof -
  let ?g = "mem s"
  obtain b t where room: "\<not> free_len bs (q_head ?g) (q_tail ?g) \<le> of_nat (length d) + MSG_HEAD_SIZE + 2 * MSG_MAGIC_NUM_LEN"
    and place: "place_msg d (of_nat (length d)) bs (q_tail ?g) (block ?g) = Some (b, t)"
    and q: "seg q = ?g\<lparr>block := b, q_tail := t, msgCount := increment (msgCount ?g)\<rparr>"
    using enqueue_ok_parts [OF assms(3,5)] by blast
  define st where "st g c xs = s\<lparr>mem := g, psd := holding i c (psd s), m_sent := m_sent s @ xs\<rparr>" for g c xs
  have run: "(mpmc_step bs n)\<^sup>*\<^sup>* s (st g' (stepped P_idle p') (xs @ map (Pair i) ds))"
    if "(mpmc_step bs n)\<^sup>*\<^sup>* s (st g (Calling p) xs)" "producer_step bs n g p ds g' p'" for g p xs ds g' p'
    using mpmc_step.p_run [of "st g (Calling p) xs" i p bs n ds g' p'] that
    by (auto simp: st_def holding_simps intro: rtranclp.rtrancl_into_rtrancl)
  note go = run [of _ _ _ "[]", simplified stepped_def prod_pc.distinct prod_pc.distinct[symmetric] if_False list.map append_Nil2]
  have "mpmc_step bs n s (st ?g Asking [])"
    using mpmc_step.p_lock [of s i bs n] assms(1,2) by (simp add: st_def holding_simps)
  moreover have "mpmc_step bs n (st ?g Asking []) (st ?g (Calling P_idle) [])"
    using mpmc_step.p_call [of "st ?g Asking []" i bs n] by (simp add: st_def holding_simps)
  ultimately have "(mpmc_step bs n)\<^sup>*\<^sup>* s (st ?g (Calling P_idle) [])" by simp
  from go [OF this, of ?g "P_head d (q_head ?g)"]
  have "(mpmc_step bs n)\<^sup>*\<^sup>* s (st ?g (Calling (P_head d (q_head ?g))) [])" using assms(4) by (simp add: producer_step_simps)
  from go [OF this, of ?g "P_tail d (q_head ?g) (q_tail ?g)"]
  have "(mpmc_step bs n)\<^sup>*\<^sup>* s (st ?g (Calling (P_tail d (q_head ?g) (q_tail ?g))) [])" by (simp add: producer_step_simps)
  from go [OF this, of ?g "P_writing d (q_tail ?g)"]
  have "(mpmc_step bs n)\<^sup>*\<^sup>* s (st ?g (Calling (P_writing d (q_tail ?g))) [])"
    using room mq_okD(5,6) [OF assms(3)] by (simp add: producer_step_simps)
  moreover have "producer_step bs n ?g (P_writing d (q_tail ?g)) [] (?g\<lparr>block := b\<rparr>) (P_placed d t)"
    using place by (auto simp: producer_step_simps)
  ultimately have "(mpmc_step bs n)\<^sup>*\<^sup>* s (st (?g\<lparr>block := b\<rparr>) (Calling (P_placed d t)) [])" using go by fastforce
  from run [OF this, of "[d]" "?g\<lparr>block := b, q_tail := t\<rparr>" P_published]
  have "(mpmc_step bs n)\<^sup>*\<^sup>* s (st (?g\<lparr>block := b, q_tail := t\<rparr>) (Calling P_published) [(i, d)])"
    by (simp add: producer_step_simps stepped_def)
  then show ?thesis by (simp add: st_def q)
qed





subsection \<open>What the death of a producer costs\<close>

text \<open>
  C32: A producer that dies between moving the tail and counting its message leaves a counter
  that is too low for good: when the messages left in the queue are as many as such deaths,
  every consumer is told that the queue is empty, although it holds them.
\<close>

theorem mpmc_dead_producer_hides_messages:
  assumes "holds [] (mq_obj bs g)" "msgCount g = 0" "n + 8 < 2 ^ 32" "(mpmc_step bs n)\<^sup>*\<^sup>* (mpmc_start g) s"
    and "lock_of (psd s) = None" "lock_of (csd s) = None" "map snd (m_sent s) = map (fst \<circ> snd) (m_taken s) @ ms"
    and "length ms = uncounted s" "c_mq c = Some (mq_obj bs (mem s))"
  shows "holds ms (mq_obj bs (mem s)) \<and>
    comsume env buf bufSize dl c = Some (kErrShmMQEmpty, dl, buf, c)"
proof -
  have inv: "mpmc_inv bs n s" by (rule mpmc_inv_reachable [OF assms(4,1,2,3)])
  from this obtain ms' where ms': "holds ms' (mq_obj bs (mem s))"
    "map snd (m_sent s) = map (fst \<circ> snd) (m_taken s) @ in_hand (inside C_idle (csd s)) @ ms'"
    "msgCount (mem s) + of_nat (uncounted s) + lag (inside P_idle (psd s)) (inside C_idle (csd s)) = of_nat (length ms')"
    by (rule mpmc_invE)
  have idle: "inside P_idle (psd s) = P_idle" "inside C_idle (csd s) = C_idle" by (simp_all add: assms(5,6) inside_simps(8))
  then have "ms' = ms" using ms'(2) assms(7) by simp
  moreover from this have "msgCount (mem s) = 0" using ms'(3) assms(8) by (simp add: idle lag_def)
  moreover have "isInit (mq_obj bs (mem s))" by (simp add: mq_obj_def)
  ultimately show ?thesis using ms'(1) assms(9) by (simp add: comsume_def isEmpty_def)
qed

subsection \<open>A run\<close>

text \<open>Producer 0 publishes a message and dies before it counts it; producer 1 takes the lock.\<close>

definition died_run :: mpmc where
  "died_run = \<lparr>mem = (seg (placed [5, 6] (mq_obj 64 sample_seg)))\<lparr>msgCount := 0\<rparr>, psd = dies 0 all_away, csd = all_away,
     m_sent = [(0, [5, 6])], m_taken = [], uncounted = 1\<rparr>"

lemma died_run: "(mpmc_step 64 32)\<^sup>*\<^sup>* (mpmc_start sample_seg) died_run"
proof -
  let ?s = "\<lparr>mem = (seg (placed [5, 6] (mq_obj 64 sample_seg)))\<lparr>msgCount := 0\<rparr>,
    psd = holding 0 (Calling P_published) all_away, csd = all_away, m_sent = [(0, [5, 6])], m_taken = [], uncounted = 0\<rparr>"
  have "(mpmc_step 64 32)\<^sup>*\<^sup>* (mpmc_start sample_seg) ?s"
    using produce_published [of "mpmc_start sample_seg" 0 64 "[5, 6]" 32 sample_proc] holdsD(1) [OF sample_obj(1)] sample_enqueue
    by (simp add: mpmc_start_def sample_obj(2))
  moreover have "mpmc_step 64 32 ?s died_run"
    using mpmc_step.p_dies [of ?s 0 64 32]
    by (simp add: died_run_def holding_def dies_def goto_def all_away_def)
  ultimately show ?thesis by simp
qed

lemma died_run_locked:
  "(mpmc_step 64 32)\<^sup>*\<^sup>* (mpmc_start sample_seg) (died_run\<lparr>psd := lock_ex 1 (psd died_run)\<rparr>)"
  using died_run mpmc_step.p_lock [of died_run 1 64 32] by (simp add: died_run_def)

lemma died_run_fields:
  "lock_of (psd died_run) = None" "lock_of (csd died_run) = None" "m_sent died_run = [(0, [5, 6])]" "m_taken died_run = []"
  "uncounted died_run = 1" "deaths (psd died_run) = 1" "deaths (csd died_run) = 0" "lost died_run = 0"
  by (simp_all add: died_run_def deaths_def dead_simps lost_def)

theorem mpmc_fifo_despite_deaths_witness:
  "\<exists>s. (mpmc_step 64 32)\<^sup>*\<^sup>* (mpmc_start sample_seg) s \<and> procs (psd s) 0 = Dead \<and>
    (\<exists>ms. [[5, 6]] = ms \<and> holds ms (mq_obj 64 (mem s)) \<and> msgCount (mem s) + 1 = of_nat (length ms))"
  using mpmc_fifo_despite_deaths [OF sample_obj _ died_run] died_run
  by (intro exI [of _ died_run]) (simp add: died_run_fields, simp add: died_run_def)

theorem mpmc_locks_exclude_and_return_witness:
  "\<exists>s. (mpmc_step 64 32)\<^sup>*\<^sup>* (mpmc_start sample_seg) s \<and> procs (psd s) 0 = Dead \<and> lock_of (psd s) = Some 1 \<and>
    returns_in 8 64 32 (\<lambda>s. procs (psd s) 1) (\<lambda>s. lock_of (psd s)) s \<and>
    (\<exists>k u. k \<le> 8 \<and> call_run 64 32 (\<lambda>s. procs (psd s) 1) s k u \<and> procs (psd u) 1 = Away \<and> lock_of (psd u) = None)"
proof -
  let ?s = "died_run\<lparr>psd := lock_ex 1 (psd died_run)\<rparr>"
  have r: "returns_in 8 64 32 (\<lambda>s. procs (psd s) 1) (\<lambda>s. lock_of (psd s)) ?s"
    using mpmc_locks_exclude_and_return [OF sample_obj _ _ died_run_locked, of 1] by simp
  then have "\<exists>k u. k \<le> 8 \<and> call_run 64 32 (\<lambda>s. procs (psd s) 1) ?s k u \<and> procs (psd u) 1 = Away \<and> lock_of (psd u) = None"
    unfolding returns_in_def by blast
  then show ?thesis using r died_run_locked by (intro exI [of _ ?s]) (simp add: died_run_def)
qed

theorem mpmc_dead_producer_hides_messages_witness:
  "holds [[5, 6]] (mq_obj 64 (mem died_run)) \<and>
    comsume sample_proc (replicate 32 0) 32 0 \<lparr>c_mq = Some (mq_obj 64 (mem died_run))\<rparr> =
      Some (kErrShmMQEmpty, 0, replicate 32 0, \<lparr>c_mq = Some (mq_obj 64 (mem died_run))\<rparr>)"
  by (rule mpmc_dead_producer_hides_messages [OF sample_obj _ died_run]) (simp_all add: died_run_fields)

end
