(* ===== verification/Init_Race.thy ===== *)
theory Init_Race
  imports Msg_Props Mrsw_Props Mrsw_Log
begin

text \<open>
  Two processes that open the same new segment: \<^verbatim>\<open>shmget\<close> creates it, filled with zeros, before
  the creator has initialised it, and a second process may attach and use it in between.
  The queue and the table of \<^verbatim>\<open>shmutil\<close> behave differently then.
\<close>

subsection \<open>The queue\<close>

text \<open>\<^verbatim>\<open>ShmMQ::init\<close> up to the return of \<^verbatim>\<open>getmemory\<close>, and its rest.\<close>

definition init_open :: "mq_services \<Rightarrow> u32 \<Rightarrow> u32 \<Rightarrow> shm_mq \<Rightarrow> ErrorCode \<times> bool \<times> shm_mq" where
  "init_open svc key sz q =
     (let q = (mq_fini q)\<lparr>shmKey := key, shmSize := sz\<rparr>
      in getmemory svc (shmKey q) (shmSize q) q)"

definition init_finish :: "bool \<Rightarrow> shm_mq \<Rightarrow> shm_mq" where
  "init_finish isCreate q =
     (let q = (if isCreate then upd_seg (\<lambda>s. s\<lparr>q_head := 0, q_tail := 0\<rparr>) q else q);
          q = q\<lparr>blockSize := shmSize q - 4 * 2 - 4\<rparr>;
          q = upd_seg (\<lambda>s. s\<lparr>q_pid := 0\<rparr>) q
      in q\<lparr>isInit := True\<rparr>)"

lemma mq_init_parts:
  "mq_init svc key sz q =
     (case init_open svc key sz q of
        (ret, isCreate, q) \<Rightarrow> if ret \<noteq> kOk then (ret, q) else (kOk, init_finish isCreate q))"
  by (simp add: mq_init_def init_open_def init_finish_def Let_def split: prod.split)

lemma init_open_fields: "init_open svc key sz q0 = (kOk, b, q) \<Longrightarrow> shmSize q = sz"
  by (auto simp: init_open_def getmemory_def attach_id_def mq_fini_def Let_def split: sum.splits option.splits if_splits)

text \<open>
  C33: The creator of a queue sets head and tail to zero after the segment can be opened: a message
  that another process appends before that, with success, is lost, and the counter says
  one on a queue that is empty.
\<close>

theorem mq_late_creator_loses_message:
  assumes "init_open svc key sz a0 = (kOk, True, a)" "12 < unat sz" "unat sz < 2 ^ 31"
    and "length (block (seg a)) = unat sz - 12" "msgCount (seg a) = 0" "q_head (seg a) = 0" "q_tail (seg a) = 0"
    and "mq_create svc' key (sz + 8) = Inl EEXIST" "mq_open svc' key = Some i" "mq_attach svc' i = Some (seg a)"
    and "mq_init svc' key sz b0 = (kOk, b)" "length d + 12 < 2 ^ 32" "enqueue env d (of_nat (length d)) b = Some (kOk, b')"
  defines "a' \<equiv> init_finish True (a\<lparr>seg := seg b'\<rparr>)"
  shows "holds [d] b' \<and> isEmpty False a' = (kOk, False) \<and> getMsgCount 0 a' = (kOk, 1) \<and>
    dequeue env' buf bufSize n (b'\<lparr>seg := seg a'\<rparr>) = Some (kErrShmMQEmpty, 0, buf, b'\<lparr>seg := seg a'\<rparr>)"
proof -
  have size: "unat (sz - 12) = unat sz - 12"
    using assms(2) unat_minus [of 12 sz] by (simp add: word_le_nat_alt)
  have b: "seg b = (seg a)\<lparr>q_pid := 0\<rparr>" "isInit b" "blockSize b = sz - 12" "pstat b = Ptr"
    using assms(8-11) by (auto simp: mq_init_def getmemory_def attach_id_def mq_fini_def Let_def)
  have h: "holds [] b"
    using assms(2-4,6,7) size b by (simp add: holds_def mq_ok_def ring_pos_def ring_read_def)
  have len: "length d = unat (of_nat (length d) :: u32)"
    using assms(12) by (simp add: unsigned_of_nat take_bit_nat_eq_self)
  have b': "b' = placed d b" and fits: "length d + 12 < unat (blockSize b)"
    using enqueue_cases [OF holdsD(1) [OF h] len, of env] assms(12,13) holds_lens(1) [OF h] len by (auto split: if_splits)
  have h': "holds [d] b'" using holds_placed [OF h, of d] fits by (simp add: b' msg_cost_def)
  have a': "seg a' = (seg b')\<lparr>q_head := 0, q_tail := 0, q_pid := 0\<rparr>" "isInit a'"
    by (simp_all add: a'_def init_finish_def Let_def)
  have "holds [] (b'\<lparr>seg := seg a'\<rparr>)"
    using mq_okD [OF holdsD(1) [OF h']] fits by (simp add: holds_def mq_ok_def a' b' placed_def ring_pos_def ring_read_def)
  moreover have "msgCount (seg a') = 1" using a'(1) b(1) assms(5) by (simp add: b' placed_def)
  ultimately show ?thesis
    using dequeue_empty [of "b'\<lparr>seg := seg a'\<rparr>"] a'(2) h' by (simp add: isEmpty_def getMsgCount_def)
qed

definition second_svc :: mq_services where
  "second_svc = \<lparr>mq_create = (\<lambda>_ _. Inl EEXIST), mq_open = (\<lambda>_. Some 7), mq_attach = (\<lambda>_. Some sample_seg)\<rparr>"

theorem mq_late_creator_loses_message_witness:
  "\<exists>a b'. init_open sample_svc 1 76 ShmMQ = (kOk, True, a) \<and>
    enqueue sample_proc [5, 6] 2 (snd (mq_init second_svc 1 76 ShmMQ)) = Some (kOk, b') \<and>
    isEmpty False (init_finish True (a\<lparr>seg := seg b'\<rparr>)) = (kOk, False)"
proof -
  obtain a where a: "init_open sample_svc 1 76 ShmMQ = (kOk, True, a)" "seg a = sample_seg"
    by (simp add: init_open_def getmemory_def attach_id_def mq_fini_def ShmMQ_def sample_svc_def)
  obtain b where b: "mq_init second_svc 1 76 ShmMQ = (kOk, b)" "holds [] b" "blockSize b = 64"
    by (simp add: mq_init_def getmemory_def attach_id_def mq_fini_def ShmMQ_def second_svc_def Let_def
        holds_def mq_ok_def sample_seg_def ring_pos_def ring_read_def)
  have enq: "enqueue sample_proc [5, 6] (of_nat (length [5, 6 :: byte])) b = Some (kOk, placed [5, 6] b)"
    by (rule holds_enqueue [OF b(2), THEN trans]) (simp_all add: msg_cost_def b(3))
  have "isEmpty False (init_finish True (a\<lparr>seg := seg (placed [5, 6] b)\<rparr>)) = (kOk, False)"
    using mq_late_creator_loses_message [OF a(1) _ _ _ _ _ _ _ _ _ b(1) _ enq, of 7] a(2)
    by (simp add: second_svc_def sample_seg_def)
  then show ?thesis using a(1) b(1) enq by auto
qed

subsection \<open>The table\<close>

text \<open>A table whose creator has not got to \<^verbatim>\<open>qhasharr\<close> yet, attached by another process.\<close>

definition early :: "mrsw \<Rightarrow> bool" where
  "early m \<longleftrightarrow> m_isInit m \<and> m_table m = Ptr \<and> maxslots (shm m) = 0 \<and> usedslots (shm m) = 0 \<and> merrno m = EEXIST"

lemma early_ops:
  assumes "early m" "key \<noteq> []"
  shows "getValue env key old m = (kErrNotFound, old, m)" "isExist key b m = (kOk, False, m)"
    "setValue env key val m = (kErrStoreKVFailed, m)" "deleteKey key m = (kErrOther, m)" "clearTable m = (kOk, m)"
    "fst (getNext env key old i m) = kErrTraverseTableEnd"
proof -
  note E = assms(1) [unfolded early_def]
  show get: "getValue env key old m = (kErrNotFound, old, m)" for old
    using E assms(2) by (simp add: getValue_def qhasharr_get_def)
  show "isExist key b m = (kOk, False, m)" using E assms(2) by (simp add: isExist_def qhasharr_exist_def)
  have "put_shm key v m = (False, m)" for v using E by (simp add: put_shm_def qhasharr_put_def put_body.simps)
  then show "setValue env key val m = (kErrStoreKVFailed, m)"
    using E assms(2) get [of "[]"] by (simp add: setValue_def setValue_shm_def)
  show "deleteKey key m = (kErrOther, m)" using E assms(2) by (simp add: deleteKey_def qhasharr_remove_def Let_def)
  show "clearTable m = (kOk, m)" using E by (simp add: clearTable_def qhasharr_clear_def)
  show "fst (getNext env key old i m) = kErrTraverseTableEnd"
    using E by (simp add: getNext_def getNextKVPair_def qhasharr_getnext_def getnext_loop.simps Let_def)
qed

text \<open>The calls with an empty key change nothing anywhere.\<close>

lemma early_run: "early m \<Longrightarrow> writer_run env calls m = m"
proof -
  assume m: "early m"
  have step: "writer_step env c m = m" for c
  proof (cases c)
    case (Set_value key val)
    then show ?thesis using early_ops(3) [OF m, of key] by (cases "key = []") (simp_all add: setValue_def)
  next
    case (Delete_key key)
    then show ?thesis using early_ops(4) [OF m, of key] by (cases "key = []") (simp_all add: deleteKey_def)
  next
    case Clear_table
    have "clearTable m = (kOk, m)" using m by (simp add: clearTable_def qhasharr_clear_def early_def)
    then show ?thesis using Clear_table by simp
  qed
  show ?thesis by (induction calls) (simp_all add: writer_run_def step)
qed

text \<open>
  C35: A process that opens a table before its creator has initialised it opens it with success,
  finds no key, stores and deletes none whatever it calls, and once the creator is done holds a
  well-formed object on the empty table: the early start is harmless.
\<close>

theorem mrsw_early_attach_harmless:
  assumes "shm_create svc (qhasharr_calculate_memsize n) = Some EEXIST" "shm_open svc" "shm_attach svc = Some g"
    and "maxslots g = 0" "usedslots g = 0" "key \<noteq> []" "1 \<le> n" "n < 32767"
  shows "\<exists>m. MrswHashtable_init svc env n isLru (MrswHashtable t) = (kOk, m) \<and>
    fst (getValue env key old m) = kErrNotFound \<and> fst (setValue env key val m) = kErrStoreKVFailed \<and>
    fst (deleteKey key m) = kErrOther \<and> fst (getNext env key old i m) = kErrTraverseTableEnd \<and>
    writer_run env calls m = m \<and>
    (\<exists>g'. qhasharr Ptr (qhasharr_calculate_memsize n) (shm m) = (Ptr, g') \<and> mrsw_inv (m\<lparr>shm := g'\<rparr>) \<and>
       table_map g' = Map.empty \<and> length (slots g') = nat n)"
proof -
  let ?m0 = "(MrswHashtable t)\<lparr>shm := t\<lparr>errno := EEXIST\<rparr>\<rparr>"
  let ?m = "(attach g ?m0)\<lparr>m_isLruEliminate := isLru, m_isInit := True\<rparr>"
  have init: "MrswHashtable_init svc env n isLru (MrswHashtable t) = (kOk, ?m)"
    using assms(1-4)
    by (auto simp: MrswHashtable_init_def getShm_def initLruMem_def qhasharr_size_def initLru_loop.simps attach_def MrswHashtable_def Let_def)
  have early: "early ?m" using assms(4,5) by (simp add: early_def attach_def)
  note ops = early_ops [OF early assms(6)]
  obtain g' where g': "qhasharr Ptr (qhasharr_calculate_memsize n) (shm ?m) = (Ptr, g')" "table_ok g'"
    "table_map g' = Map.empty" "length (slots g') = nat n"
    using qhasharr_creates [OF assms(7), of "shm ?m"] assms(8) by auto
  have "mrsw_inv (?m\<lparr>shm := g'\<rparr>)"
    using g' assms(8) lru_init by (simp add: mrsw_inv_def mrsw_ok_def tracked_but_def attach_def MrswHashtable_def)
  then show ?thesis
    using init g' by (intro exI [of _ ?m]) (simp add: ops early_run [OF early])
qed

theorem mrsw_early_attach_harmless_witness:
  "\<exists>m. MrswHashtable_init \<lparr>shm_create = (\<lambda>_. Some EEXIST), shm_open = True, shm_attach = Some sample_env\<rparr>
      sample_host 3 True (MrswHashtable sample_env) = (kOk, m) \<and>
    fst (setValue sample_host [1] [7] m) = kErrStoreKVFailed \<and> writer_run sample_host [Set_value [1] [7], Clear_table] m = m"
  using mrsw_early_attach_harmless [where
      svc = "\<lparr>shm_create = (\<lambda>_. Some EEXIST), shm_open = True, shm_attach = Some sample_env\<rparr>" and
      n = 3 and g = sample_env and key = "[1]" and env = sample_host and isLru = True and t = sample_env and
      old = "[]" and val = "[7]" and i = 0 and calls = "[Set_value [1] [7], Clear_table]"]
  by (auto simp: sample_env_def)

end
