(* ===== verification/Clear_Race.thy ===== *)
theory Clear_Race
  imports Msg_Spsc_Props Msg_Clients
begin

text \<open>
  \<^verbatim>\<open>clearMQ\<close> of one process while another one is within \<^verbatim>\<open>dequeue\<close>. The example producers clear the
  queue when they start, whether or not a consumer runs; the lock files of producers and
  consumers are different ones, so that the locked classes do not prevent it either.
\<close>








end
