(* ===== verification/Md5_Rfc.thy ===== *)
theory Md5_Rfc
  imports Md5
begin

text \<open>
  MD5 as RFC 1321 states it (a padded message cut into blocks, and a block transform of 64
  equal steps driven by tables), and the two facts that relate \<^verbatim>\<open>shmutil/md5.c\<close> to it: the
  unrolled transform is the loop of the 64 steps, and the context that is fed in parts, with
  its 64 byte buffer and its two counters of bits, computes the digest of the whole message.
\<close>

subsection \<open>The reference\<close>

definition rfc_table :: "u32 list" where
  "rfc_table =
    [0xd76aa478, 0xe8c7b756, 0x242070db, 0xc1bdceee, 0xf57c0faf, 0x4787c62a, 0xa8304613, 0xfd469501,
     0x698098d8, 0x8b44f7af, 0xffff5bb1, 0x895cd7be, 0x6b901122, 0xfd987193, 0xa679438e, 0x49b40821,
     0xf61e2562, 0xc040b340, 0x265e5a51, 0xe9b6c7aa, 0xd62f105d, 0x02441453, 0xd8a1e681, 0xe7d3fbc8,
     0x21e1cde6, 0xc33707d6, 0xf4d50d87, 0x455a14ed, 0xa9e3e905, 0xfcefa3f8, 0x676f02d9, 0x8d2a4c8a,
     0xfffa3942, 0x8771f681, 0x6d9d6122, 0xfde5380c, 0xa4beea44, 0x4bdecfa9, 0xf6bb4b60, 0xbebfbc70,
     0x289b7ec6, 0xeaa127fa, 0xd4ef3085, 0x04881d05, 0xd9d4d039, 0xe6db99e5, 0x1fa27cf8, 0xc4ac5665,
     0xf4292244, 0x432aff97, 0xab9423a7, 0xfc93a039, 0x655b59c3, 0x8f0ccc92, 0xffeff47d, 0x85845dd1,
     0x6fa87e4f, 0xfe2ce6e0, 0xa3014314, 0x4e0811a1, 0xf7537e82, 0xbd3af235, 0x2ad7d2bb, 0xeb86d391]"

definition rfc_shifts :: "nat list" where
  "rfc_shifts = [7, 12, 17, 22, 5, 9, 14, 20, 4, 11, 16, 23, 6, 10, 15, 21]"

text \<open>The function, the index of the word, the shift and the constant of a step, by its number.\<close>

definition rfc_fun :: "nat \<Rightarrow> u32 \<Rightarrow> u32 \<Rightarrow> u32 \<Rightarrow> u32" where
  "rfc_fun i x y z =
     (if i < 16 then (x AND y) OR (NOT x AND z) else if i < 32 then (x AND z) OR (y AND NOT z)
      else if i < 48 then x XOR y XOR z else y XOR (x OR NOT z))"

definition rfc_word :: "nat \<Rightarrow> nat" where
  "rfc_word i = (if i < 16 then i else if i < 32 then (5 * i + 1) mod 16
     else if i < 48 then (3 * i + 5) mod 16 else 7 * i mod 16)"

definition rfc_step :: "u32 list \<Rightarrow> nat \<Rightarrow> md5_state \<Rightarrow> md5_state" where
  "rfc_step x i = (\<lambda>(a, b, c, d).
     (d, b + word_rotl (rfc_shifts ! (4 * (i div 16) + i mod 4)) (a + rfc_fun i b c d + x ! rfc_word i + rfc_table ! i), b, c))"

definition rfc_words :: "bytes \<Rightarrow> u32 list" where
  "rfc_words block = map (\<lambda>i. of_le (take 4 (drop (4 * i) block))) [0..<16]"

definition rfc_transform :: "md5_state \<Rightarrow> bytes \<Rightarrow> md5_state" where
  "rfc_transform st block =
     (case (st, fold (rfc_step (rfc_words block)) [0..<64] st) of
       ((s0, s1, s2, s3), (a, b, c, d)) \<Rightarrow> (s0 + a, s1 + b, s2 + c, s3 + d))"

text \<open>All whole blocks of a byte sequence, in order.\<close>

fun rfc_blocks :: "md5_state \<Rightarrow> bytes \<Rightarrow> md5_state" where
  "rfc_blocks st m = (if length m < 64 then st else rfc_blocks (rfc_transform st (take 64 m)) (drop 64 m))"

declare rfc_blocks.simps [simp del]

text \<open>A bit 1, zeros up to 56 bytes modulo 64, and the number of bits of the message.\<close>

definition rfc_padded :: "bytes \<Rightarrow> bytes" where
  "rfc_padded m = m @ 0x80 # replicate ((119 - length m mod 64) mod 64) 0 @ to_le 8 (of_nat (8 * length m) :: u64)"

definition rfc_init :: md5_state where
  "rfc_init = (0x67452301, 0xefcdab89, 0x98badcfe, 0x10325476)"

definition rfc_md5 :: "bytes \<Rightarrow> bytes" where
  "rfc_md5 m = (case rfc_blocks rfc_init (rfc_padded m) of (a, b, c, d) \<Rightarrow> concat (map (to_le 4) [a, b, c, d]))"

subsection \<open>The block transform\<close>

text \<open>\<^verbatim>\<open>ROTATE_LEFT\<close> rotates.\<close>

lemma ROTATE_LEFT_rotl:
  assumes "0 < n" "n < 32"
  shows "ROTATE_LEFT x n = word_rotl n x"
  unfolding ROTATE_LEFT_def
proof (rule bit_word_eqI)
  fix k
  assume "k < LENGTH(32)"
  then have k: "k < 32" by simp
  show "bit (push_bit n x OR drop_bit (32 - n) x) k = bit (word_rotl n x) k"
  proof (cases "n \<le> k")
    case True
    have "(k + (32 - n)) mod 32 = k - n"
      using True k assms mod_add_self2 [of "k - n" 32] by simp
    moreover have "\<not> bit x (32 - n + k)" using True by (auto dest: bit_imp_le_length)
    ultimately show ?thesis
      using True k assms by (simp add: bit_or_iff bit_push_bit_iff bit_drop_bit_eq bit_word_rotl_iff)
  next
    case False
    have "(k + (32 - n)) mod 32 = 32 - n + k" using False assms by simp
    then show ?thesis
      using False k assms by (simp only: bit_or_iff bit_push_bit_iff bit_drop_bit_eq bit_word_rotl_iff o_apply) simp
  qed
qed

text \<open>A round as a table of words, shifts and constants, one entry a step.\<close>

definition macro_step :: "(u32 \<Rightarrow> u32 \<Rightarrow> u32 \<Rightarrow> u32 \<Rightarrow> u32 \<Rightarrow> nat \<Rightarrow> u32 \<Rightarrow> u32) \<Rightarrow> u32 list \<Rightarrow>
    nat \<times> nat \<times> u32 \<Rightarrow> md5_state \<Rightarrow> md5_state" where
  "macro_step f x = (\<lambda>(k, s, t) (a, b, c, d). (d, f a b c d (x ! k) s t, b, c))"

definition step_entry :: "nat \<Rightarrow> nat \<times> nat \<times> u32" where
  "step_entry i = (rfc_word i, rfc_shifts ! (4 * (i div 16) + i mod 4), rfc_table ! i)"

lemma fold_macro:
  "fold (macro_step f x) ((k, s, t) # es) (a, b, c, d) =
   (let v = f a b c d (x ! k) s t in fold (macro_step f x) es (d, v, b, c))"
  "fold (macro_step f x) [] st = st"
  by (simp_all add: macro_step_def)

lemma steps16:
  "[0..<16] = [0, 1, 2, 3, 4, 5, 6, 7, 8, 9, 10, 11, 12, 13, 14, 15]"
  "[16..<32] = [16, 17, 18, 19, 20, 21, 22, 23, 24, 25, 26, 27, 28, 29, 30, 31]"
  "[32..<48] = [32, 33, 34, 35, 36, 37, 38, 39, 40, 41, 42, 43, 44, 45, 46, 47]"
  "[48..<64] = [48, 49, 50, 51, 52, 53, 54, 55, 56, 57, 58, 59, 60, 61, 62, 63]"
  by code_simp+

lemma entries1:
  "map step_entry [0..<16] =
    [(0, 7, 0xd76aa478), (1, 12, 0xe8c7b756), (2, 17, 0x242070db), (3, 22, 0xc1bdceee),
     (4, 7, 0xf57c0faf), (5, 12, 0x4787c62a), (6, 17, 0xa8304613), (7, 22, 0xfd469501),
     (8, 7, 0x698098d8), (9, 12, 0x8b44f7af), (10, 17, 0xffff5bb1), (11, 22, 0x895cd7be),
     (12, 7, 0x6b901122), (13, 12, 0xfd987193), (14, 17, 0xa679438e), (15, 22, 0x49b40821)]"
  by (simp add: steps16 step_entry_def rfc_word_def rfc_shifts_def rfc_table_def)

lemma md5_round1_fold: "md5_round1 x st = fold (macro_step FF x) (map step_entry [0..<16]) st"
  unfolding entries1 by (cases st) (simp only: md5_round1_def prod.case fold_macro)

lemma entries2:
  "map step_entry [16..<32] =
    [(1, 5, 0xf61e2562), (6, 9, 0xc040b340), (11, 14, 0x265e5a51), (0, 20, 0xe9b6c7aa),
     (5, 5, 0xd62f105d), (10, 9, 0x02441453), (15, 14, 0xd8a1e681), (4, 20, 0xe7d3fbc8),
     (9, 5, 0x21e1cde6), (14, 9, 0xc33707d6), (3, 14, 0xf4d50d87), (8, 20, 0x455a14ed),
     (13, 5, 0xa9e3e905), (2, 9, 0xfcefa3f8), (7, 14, 0x676f02d9), (12, 20, 0x8d2a4c8a)]"
  by (simp add: steps16 step_entry_def rfc_word_def rfc_shifts_def rfc_table_def)

lemma md5_round2_fold: "md5_round2 x st = fold (macro_step GG x) (map step_entry [16..<32]) st"
  unfolding entries2 by (cases st) (simp only: md5_round2_def prod.case fold_macro)

lemma entries3:
  "map step_entry [32..<48] =
    [(5, 4, 0xfffa3942), (8, 11, 0x8771f681), (11, 16, 0x6d9d6122), (14, 23, 0xfde5380c),
     (1, 4, 0xa4beea44), (4, 11, 0x4bdecfa9), (7, 16, 0xf6bb4b60), (10, 23, 0xbebfbc70),
     (13, 4, 0x289b7ec6), (0, 11, 0xeaa127fa), (3, 16, 0xd4ef3085), (6, 23, 0x04881d05),
     (9, 4, 0xd9d4d039), (12, 11, 0xe6db99e5), (15, 16, 0x1fa27cf8), (2, 23, 0xc4ac5665)]"
  by (simp add: steps16 step_entry_def rfc_word_def rfc_shifts_def rfc_table_def)

lemma md5_round3_fold: "md5_round3 x st = fold (macro_step HH x) (map step_entry [32..<48]) st"
  unfolding entries3 by (cases st) (simp only: md5_round3_def prod.case fold_macro)

lemma entries4:
  "map step_entry [48..<64] =
    [(0, 6, 0xf4292244), (7, 10, 0x432aff97), (14, 15, 0xab9423a7), (5, 21, 0xfc93a039),
     (12, 6, 0x655b59c3), (3, 10, 0x8f0ccc92), (10, 15, 0xffeff47d), (1, 21, 0x85845dd1),
     (8, 6, 0x6fa87e4f), (15, 10, 0xfe2ce6e0), (6, 15, 0xa3014314), (13, 21, 0x4e0811a1),
     (4, 6, 0xf7537e82), (11, 10, 0xbd3af235), (2, 15, 0x2ad7d2bb), (9, 21, 0xeb86d391)]"
  by (simp add: steps16 step_entry_def rfc_word_def rfc_shifts_def rfc_table_def)

lemma md5_round4_fold: "md5_round4 x st = fold (macro_step II x) (map step_entry [48..<64]) st"
  unfolding entries4 by (cases st) (simp only: md5_round4_def prod.case fold_macro)

text \<open>A step of the reference is the macro of its round with the entry of the table.\<close>

lemma shift_range:
  assumes "i < 64"
  shows "0 < rfc_shifts ! (4 * (i div 16) + i mod 4)" "rfc_shifts ! (4 * (i div 16) + i mod 4) < 32"
proof -
  have "\<forall>j\<in>set rfc_shifts. 0 < j \<and> j < 32" by (simp add: rfc_shifts_def)
  moreover have "i div 16 \<le> 3" "i mod 4 \<le> 3" using assms by simp_all
  then have "4 * (i div 16) + i mod 4 < length rfc_shifts" by (simp add: rfc_shifts_def)
  ultimately show "0 < rfc_shifts ! (4 * (i div 16) + i mod 4)" "rfc_shifts ! (4 * (i div 16) + i mod 4) < 32"
    using nth_mem by blast+
qed

lemma rfc_step_macro:
  "i < 16 \<Longrightarrow> rfc_step x i = macro_step FF x (step_entry i)"
  "16 \<le> i \<Longrightarrow> i < 32 \<Longrightarrow> rfc_step x i = macro_step GG x (step_entry i)"
  "32 \<le> i \<Longrightarrow> i < 48 \<Longrightarrow> rfc_step x i = macro_step HH x (step_entry i)"
  "48 \<le> i \<Longrightarrow> i < 64 \<Longrightarrow> rfc_step x i = macro_step II x (step_entry i)"
  using shift_range [of i]
  by (simp_all add: fun_eq_iff rfc_step_def macro_step_def step_entry_def rfc_fun_def FF_def GG_def HH_def II_def
      md5_F_def md5_G_def md5_H_def md5_I_def
      ROTATE_LEFT_rotl add.assoc add.commute add.left_commute)

lemma fold_entries:
  "(\<And>i. i \<in> set is \<Longrightarrow> rfc_step x i = macro_step f x (step_entry i)) \<Longrightarrow>
   fold (macro_step f x) (map step_entry is) st = fold (rfc_step x) is st"
  by (induction "is" arbitrary: st) simp_all

lemma md5_round_steps:
  "md5_round1 x st = fold (rfc_step x) [0..<16] st" "md5_round2 x st = fold (rfc_step x) [16..<32] st"
  "md5_round3 x st = fold (rfc_step x) [32..<48] st" "md5_round4 x st = fold (rfc_step x) [48..<64] st"
  unfolding md5_round1_fold md5_round2_fold md5_round3_fold md5_round4_fold
  by (rule fold_entries, rule rfc_step_macro; simp only: set_upt atLeastLessThan_iff)+

lemma steps64: "[0..<64] = [0..<16] @ [16..<32] @ [32..<48] @ [48..<64]"
  by code_simp

lemma Decode_words: "md5_Decode block 64 = rfc_words block"
  by (simp add: md5_Decode_def rfc_words_def mem_read_def)

lemma transform_rfc: "QMD5Transform st block = rfc_transform st block"
  unfolding QMD5Transform_def rfc_transform_def Let_def md5_round_steps steps64 fold_append o_apply Decode_words
  by (simp split: prod.split)

subsection \<open>Feeding a context in parts\<close>

lemma rfc_blocks_small: "length m < 64 \<Longrightarrow> rfc_blocks st m = st"
  by (simp add: rfc_blocks.simps)

lemma rfc_blocks_append:
  "64 dvd length a \<Longrightarrow> rfc_blocks st (a @ b) = rfc_blocks (rfc_blocks st a) b"
proof (induction st a rule: rfc_blocks.induct)
  case (1 st m)
  show ?case
  proof (cases "length m < 64")
    case True
    then have "m = []" using 1(2) by (auto simp: dvd_def)
    then show ?thesis by (simp add: rfc_blocks_small)
  next
    case False
    then have "64 dvd length (drop 64 m)" using 1(2) by (simp add: dvd_diff_nat)
    then show ?thesis
      using 1(1) False by (simp add: rfc_blocks.simps [of st "m @ b"] rfc_blocks.simps [of st m])
  qed
qed

lemma rfc_blocks_one: "length b = 64 \<Longrightarrow> rfc_blocks st b = rfc_transform st b"
  by (simp add: rfc_blocks.simps [of st b] rfc_blocks_small)

text \<open>The loop of \<^verbatim>\<open>QMD5Update\<close> takes all whole blocks that are left.\<close>

lemma update_loop_blocks:
  "i \<le> length input \<Longrightarrow> length input < 2 ^ 32 \<Longrightarrow> update_in_bounds (length input) i \<Longrightarrow>
   md5_update_loop st input (of_nat (length input)) (of_nat i) =
     Some (rfc_blocks st (drop i input), of_nat (length input - (length input - i) mod 64))"
proof (induction "length input - i" arbitrary: st i rule: less_induct)
  case less
  show ?case
  proof (cases "i + 63 < length input")
    case True
    have "md5_update_loop (QMD5Transform st (mem_read i 64 input)) input (of_nat (length input)) (of_nat (i + 64)) =
        Some (rfc_blocks (QMD5Transform st (mem_read i 64 input)) (drop (i + 64) input),
          of_nat (length input - (length input - (i + 64)) mod 64))"
      using less.prems True by (intro less.hyps) (simp_all add: update_in_bounds_next)
    moreover have "(length input - i) mod 64 = (length input - (i + 64)) mod 64"
      using True mod_add_self2 [of "length input - (i + 64)" 64] by simp
    moreover have "rfc_blocks st (drop i input) = rfc_blocks (QMD5Transform st (mem_read i 64 input)) (drop (i + 64) input)"
      using True less_diff_conv2 [of i "length input" 64]
      by (simp add: rfc_blocks.simps [of st "drop i input"] mem_read_def transform_rfc add.commute)
    ultimately show ?thesis using True by (simp only: update_loop_step [OF less.prems] if_True)
  next
    case False
    then have "(length input - i) mod 64 = length input - i" by simp
    then have "length input - (length input - i) mod 64 = i" using less.prems(1) by simp
    then show ?thesis
      using False by (simp add: update_loop_step [OF less.prems] rfc_blocks_small del: of_nat_diff)
  qed
qed

text \<open>A context that has taken the bytes \<open>m\<close>.\<close>

definition whole_part :: "bytes \<Rightarrow> bytes" where
  "whole_part m = take (length m - length m mod 64) m"

definition rest_part :: "bytes \<Rightarrow> bytes" where
  "rest_part m = drop (length m - length m mod 64) m"

definition fed :: "bytes \<Rightarrow> QMD5_CTX \<Rightarrow> bool" where
  "fed m ctx \<longleftrightarrow> length (ctx_buffer ctx) = 64 \<and> take (length m mod 64) (ctx_buffer ctx) = rest_part m \<and>
     ctx_state ctx = rfc_blocks rfc_init m \<and> ctx_count0 ctx = of_nat (8 * length m) \<and>
     ctx_count1 ctx = of_nat (8 * length m div 2 ^ 32)"

lemma parts: "whole_part m @ rest_part m = m" "64 dvd length (whole_part m)" "length (rest_part m) = length m mod 64"
proof -
  have "length (whole_part m) = length m - length m mod 64" by (simp add: whole_part_def)
  then show "64 dvd length (whole_part m)" by (simp only: dvd_minus_mod)
qed (simp_all add: whole_part_def rest_part_def)

lemma rfc_blocks_whole: "rfc_blocks st (whole_part m) = rfc_blocks st m"
  using rfc_blocks_append [OF parts(2), of st m "rest_part m"] rfc_blocks_small [of "rest_part m"] parts(1,3) [of m]
  by simp

lemma parts_unique:
  assumes "m = a @ b" "64 dvd length a" "length b < 64"
  shows "rest_part m = b" "length m mod 64 = length b"
proof -
  show n: "length m mod 64 = length b" using assms by (auto simp: dvd_def)
  show "rest_part m = b" unfolding rest_part_def n by (simp add: assms(1))
qed

lemma fedI:
  assumes "m = a @ b" "64 dvd length a" "length b < 64"
    and "length (ctx_buffer ctx) = 64" "take (length b) (ctx_buffer ctx) = b" "ctx_state ctx = rfc_blocks rfc_init m"
    and "ctx_count0 ctx = of_nat (8 * length m)" "ctx_count1 ctx = of_nat (8 * length m div 2 ^ 32)"
  shows "fed m ctx"
  using parts_unique [OF assms(1-3)] assms by (simp add: fed_def)

text \<open>The index into the buffer, and the counters with the carry as the code computes it.\<close>

lemma buffer_index: "unat (drop_bit 3 (of_nat (8 * n) :: u32) AND 0x3F) = n mod 64"
proof -
  have "(63 :: u32) = mask 6" by (simp add: mask_eq_exp_minus_1)
  then have "unat (drop_bit 3 (of_nat (8 * n) :: u32) AND 0x3F) = take_bit 6 (drop_bit 3 (take_bit 32 (8 * n)))"
    by (simp only: take_bit_eq_mask [symmetric] unsigned_take_bit_eq unsigned_drop_bit_eq unsigned_of_nat) simp
  also have "\<dots> = n mod 64"
    using mod_mult_mult1 [of 8 n "2 ^ 29"] by (simp add: take_bit_eq_mod drop_bit_eq_div mod_mod_cancel)
  finally show ?thesis .
qed

lemma mod_carry:
  fixes a b w :: nat
  assumes "0 < w"
  shows "(a + b) mod w < b mod w \<longleftrightarrow> w \<le> a mod w + b mod w"
proof -
  define x y where "x = a mod w" and "y = b mod w"
  have xy: "x < w" "y < w" using assms by (simp_all add: x_def y_def)
  have "(a + b) mod w = (x + y) mod w" unfolding x_def y_def by (rule mod_add_eq [symmetric])
  also have "\<dots> = (if x + y < w then x + y else x + y - w)" using xy by (simp add: mod_if)
  finally show ?thesis unfolding x_def [symmetric] y_def [symmetric] using xy by (auto split: if_splits)
qed

lemma bit_counters:
  fixes n k :: nat
  assumes "k < 2 ^ 32"
  shows "of_nat (8 * n) + push_bit 3 (of_nat k :: u32) = of_nat (8 * (n + k))"
    "(if of_nat (8 * (n + k)) < push_bit 3 (of_nat k :: u32) then (of_nat (8 * n div 2 ^ 32) :: u32) + 1 else of_nat (8 * n div 2 ^ 32)) +
       drop_bit 29 (of_nat k :: u32) = of_nat (8 * (n + k) div 2 ^ 32)"
proof -
  let ?W = "2 ^ 32 :: nat"
  have p: "push_bit 3 (of_nat k :: u32) = of_nat (8 * k)" by (simp add: push_bit_eq_mult)
  show "of_nat (8 * n) + push_bit 3 (of_nat k :: u32) = of_nat (8 * (n + k))" unfolding p by (simp add: distrib_left)
  have "unat (drop_bit 29 (of_nat k :: u32)) = k div 2 ^ 29"
    using assms(1) unfolding unsigned_drop_bit_eq unsigned_of_nat by (simp add: drop_bit_eq_div take_bit_nat_eq_self)
  moreover have "8 * k div ?W = k div 2 ^ 29" using div_mult_mult1 [of 8 k "2 ^ 29"] by simp
  ultimately have d: "drop_bit 29 (of_nat k :: u32) = of_nat (8 * k div ?W)"
    using assms(1) by (simp only: word_unat_eq_iff) (simp add: unsigned_of_nat take_bit_nat_eq_self)
  have u: "unat (of_nat j :: u32) = j mod ?W" for j by (simp add: unsigned_of_nat take_bit_eq_mod)
  have "of_nat (8 * (n + k)) < push_bit 3 (of_nat k :: u32) \<longleftrightarrow> (8 * n + 8 * k) mod ?W < 8 * k mod ?W"
    unfolding p word_less_nat_alt u by (simp add: distrib_left)
  also have "\<dots> \<longleftrightarrow> ?W \<le> 8 * n mod ?W + 8 * k mod ?W"
    by (rule mod_carry) simp
  finally have carry: "of_nat (8 * (n + k)) < push_bit 3 (of_nat k :: u32) \<longleftrightarrow> ?W \<le> 8 * n mod ?W + 8 * k mod ?W" .
  have "8 * (n + k) div ?W = 8 * n div ?W + 8 * k div ?W + (if ?W \<le> 8 * n mod ?W + 8 * k mod ?W then 1 else 0)"
  proof -
    have "8 * n mod ?W < ?W" "8 * k mod ?W < ?W" by simp_all
    then have "(8 * n mod ?W + 8 * k mod ?W) div ?W = (if ?W \<le> 8 * n mod ?W + 8 * k mod ?W then 1 else 0)"
      by (simp add: div_if)
    then show ?thesis unfolding distrib_left by (simp only: div_add1_eq [of "8 * n" "8 * k"])
  qed
  then show "(if of_nat (8 * (n + k)) < push_bit 3 (of_nat k :: u32) then (of_nat (8 * n div ?W) :: u32) + 1 else of_nat (8 * n div ?W)) +
      drop_bit 29 (of_nat k :: u32) = of_nat (8 * (n + k) div ?W)"
    unfolding carry d by (simp only: of_nat_add) (simp only: if_distrib of_nat_0 of_nat_1 split: if_split, simp add: add_ac)
qed

lemma fed_buffered: "fed m ctx \<Longrightarrow> buffered ctx = length m mod 64"
  using buffer_index [of "length m"] by (simp add: fed_def buffered_def)

lemma update_fed:
  assumes fed: "fed m ctx" and dm: "length m mod 64 + length d < 2 ^ 32"
  shows "\<exists>c. QMD5Update ctx d = Some c \<and> fed (m @ d) c"
proof -
  have d: "length d < 2 ^ 32" using dm by simp
  let ?r = "length m mod 64" and ?buf = "ctx_buffer ctx"
  have F: "length ?buf = 64" "take ?r ?buf = rest_part m" "ctx_state ctx = rfc_blocks rfc_init m"
    "ctx_count0 ctx = of_nat (8 * length m)" "ctx_count1 ctx = of_nat (8 * length m div 2 ^ 32)"
    using fed by (simp_all add: fed_def)
  note b = fed_buffered [OF fed]
  note idx = buffered_word [of ctx, unfolded b] and part = part_length [of ctx, unfolded b]
  note count = bit_counters [OF d, of "length m", folded F(4,5)]
  have m: "m = whole_part m @ rest_part m" "64 dvd length (whole_part m)" "length (rest_part m) = ?r"
    using parts [of m] by simp_all
  have r: "?r < 64" by simp
  then have r32: "unat (of_nat ?r :: u32) = ?r" "unat (of_nat (64 - ?r) :: u32) = 64 - ?r"
    by (intro u32_of_nat; simp)+
  have le: "(of_nat (64 - ?r) :: u32) \<le> of_nat (length d) \<longleftrightarrow> 64 - ?r \<le> length d"
    unfolding word_le_nat_alt r32 u32_of_nat [OF d] ..
  show ?thesis
  proof (cases "64 - ?r \<le> length d")
    case False
    then have small: "length (rest_part m @ d) < 64" using m(3) by simp
    define c where "c = ctx\<lparr>ctx_count0 := of_nat (8 * (length m + length d)),
        ctx_count1 := of_nat (8 * (length m + length d) div 2 ^ 32), ctx_buffer := blit ?r d ?buf\<rparr>"
    have new: "QMD5Update ctx d = Some c"
      unfolding QMD5Update_def Let_def idx part le count c_def using False by (simp add: r32)
    have "rfc_blocks rfc_init (m @ d) = rfc_blocks rfc_init m"
      using rfc_blocks_append [OF m(2), of rfc_init "rest_part m @ d"] small m(1) rfc_blocks_whole [of rfc_init m]
      by (simp add: rfc_blocks_small flip: append_assoc)
    then have "fed (m @ d) c"
      unfolding c_def using small m F False
      by (intro fedI [of _ "whole_part m" "rest_part m @ d"]) (simp_all add: blit_def min_def flip: append_assoc)
    with new show ?thesis by blast
  next
    case True
    define p where "p = 64 - ?r"
    define b where "b = take p d"
    define i where "i = length d - (length d - p) mod 64"
    have p: "p \<le> length d" "?r + p = 64" using True by (simp_all add: p_def)
    have b: "length b = p" "drop p d = drop p d" "b @ drop p d = d" using p(1) by (simp_all add: b_def)
    have full: "blit ?r b ?buf = rest_part m @ b" using F(1,2) b(1) p(2) by (simp add: blit_def)
    have st: "QMD5Transform (ctx_state ctx) (rest_part m @ b) = rfc_blocks rfc_init (m @ b)"
    proof -
      have "rfc_blocks rfc_init (whole_part m @ (rest_part m @ b)) = rfc_transform (rfc_blocks rfc_init m) (rest_part m @ b)"
        using rfc_blocks_append [OF m(2)] m(3) b(1) p(2) by (simp add: rfc_blocks_one rfc_blocks_whole)
      then show ?thesis using m(1) by (simp add: F(3) transform_rfc flip: append_assoc)
    qed
    have dvd_mb: "64 dvd length (m @ b)" using p(2) b(1) by (metis mod_add_left_eq mod_self dvd_eq_mod_eq_0 length_append)
    have st2: "rfc_blocks (rfc_blocks rfc_init (m @ b)) (drop p d) = rfc_blocks rfc_init (m @ d)"
      using rfc_blocks_append [OF dvd_mb, of rfc_init "drop p d"] b(3) by simp
    define c where "c = ctx\<lparr>ctx_state := rfc_blocks rfc_init (m @ d),
        ctx_count0 := of_nat (8 * (length m + length d)), ctx_count1 := of_nat (8 * (length m + length d) div 2 ^ 32),
        ctx_buffer := blit 0 (drop i d) (rest_part m @ b)\<rparr>"
    have safe: "update_in_bounds (length d) p" using dm by (cases "?r = 0") (simp_all add: update_in_bounds_def p_def)
    have p32: "unat (of_nat p :: u32) = p" and i32: "unat (of_nat i :: u32) = i"
      using d p(1) by (intro u32_of_nat; simp add: i_def)+
    have loop: "md5_update_loop (rfc_blocks rfc_init (m @ b)) d (of_nat (length d)) (of_nat p) =
        Some (rfc_blocks rfc_init (m @ d), of_nat i)"
      unfolding update_loop_blocks [OF p(1) d safe] st2 i_def ..
    have new: "QMD5Update ctx d = Some c"
      unfolding QMD5Update_def Let_def idx part le count
      by (simp only: p(1) if_True p32 i32 r32 full st loop c_def option.map prod.case unsigned_0 flip: p_def b_def)
    have rest: "length (drop i d) < 64" by (simp add: i_def)
    have "64 dvd length (m @ b) + (length d - p - (length d - p) mod 64)"
      using dvd_mb dvd_minus_mod [of 64 "length d - p"] by (simp only: dvd_add)
    moreover have "length (m @ b) + (length d - p - (length d - p) mod 64) = length (m @ take i d)"
    proof -
      have "(length d - p) mod 64 \<le> length d - p" by (rule mod_less_eq_dividend)
      then show ?thesis using p(1) b(1) by (simp add: i_def)
    qed
    ultimately have "64 dvd length (m @ take i d)" by (simp only:)
    moreover have "length (rest_part m @ b) = 64" using m(3) b(1) p(2) by simp
    then have "length (blit 0 (drop i d) (rest_part m @ b)) = 64" using rest by (simp only: length_blit)
    ultimately have "fed (m @ d) c"
      unfolding c_def using rest
      by (intro fedI [of _ "m @ take i d" "drop i d"]) (simp_all add: take_blit_0 del: length_drop length_blit)
    with new show ?thesis by blast
  qed
qed

text \<open>\<^verbatim>\<open>QMD5Pad\<close> appends the padding of the reference.\<close>

lemma take_PADDING: "0 < k \<Longrightarrow> k \<le> 64 \<Longrightarrow> take k PADDING = 0x80 # replicate (k - 1) 0"
  by (cases k) (simp_all add: PADDING_def min_def)

lemma pad_zeros:
  fixes x :: nat
  assumes "x < 64"
  shows "(if x < 56 then 56 - x else 120 - x) - 1 = (119 - x) mod 64"
    "0 < (if x < 56 then 56 - x else 120 - x)" "(if x < 56 then 56 - x else 120 - x) \<le> 64"
proof -
  show "0 < (if x < 56 then 56 - x else 120 - x)" "(if x < 56 then 56 - x else 120 - x) \<le> 64"
    using assms by auto
  show "(if x < 56 then 56 - x else 120 - x) - 1 = (119 - x) mod 64"
  proof (cases "x < 56")
    case True
    then have "119 - x = 55 - x + 64" by simp
    then show ?thesis using True by (simp only: mod_add_self2) simp
  qed (use assms in simp)
qed

lemma Encode_counters:
  "md5_Encode [of_nat n :: u32, of_nat (n div 2 ^ 32)] = to_le 8 (of_nat n :: u64)"
proof (rule nth_equalityI)
  show "length (md5_Encode [of_nat n :: u32, of_nat (n div 2 ^ 32)]) = length (to_le 8 (of_nat n :: u64))"
    by (simp add: length_md5_Encode)
next
  have high: "n div 4294967296 = drop_bit 32 n" by (simp add: drop_bit_eq_div)
  fix i
  assume "i < length (md5_Encode [of_nat n :: u32, of_nat (n div 2 ^ 32)])"
  then have i: "i < 8" by (simp add: length_md5_Encode)
  show "md5_Encode [of_nat n :: u32, of_nat (n div 2 ^ 32)] ! i = to_le 8 (of_nat n :: u64) ! i"
  proof (rule bit_word_eqI)
    fix k
    assume "k < LENGTH(8)"
    then have k: "k < 8" by simp
    show "bit (md5_Encode [of_nat n :: u32, of_nat (n div 2 ^ 32)] ! i) k = bit (to_le 8 (of_nat n :: u64) ! i) k"
    proof (cases "i < 4")
      case True
      then show ?thesis
        using i k by (simp add: md5_Encode_def nth_append to_le_def bit_ucast_iff bit_drop_bit_eq bit_of_nat_iff)
    next
      case False
      then obtain j where "i = j + 4" using le_Suc_ex [of 4 i] by (auto simp: add.commute)
      then show ?thesis
        using i k
        by (simp add: high md5_Encode_def nth_append to_le_def bit_ucast_iff bit_drop_bit_eq bit_of_nat_iff add_ac)
    qed
  qed
qed

lemma pad_fed:
  assumes "fed m ctx"
  shows "\<exists>c. QMD5Pad ctx = Some c \<and> fed (rfc_padded m) c"
proof -
  let ?idx = "length m mod 64"
  let ?pad = "if ?idx < 56 then 56 - ?idx else 120 - ?idx"
  have idx: "unat (drop_bit 3 (ctx_count0 ctx) AND 0x3F) = ?idx"
    using fed_buffered [OF assms] by (simp add: buffered_def)
  have bits: "md5_Encode [ctx_count0 ctx, ctx_count1 ctx] = to_le 8 (of_nat (8 * length m) :: u64)"
    using assms Encode_counters [of "8 * length m"] unfolding fed_def by simp
  have "?idx < 64" by simp
  note pad = pad_zeros [OF this]
  have small: "n mod 64 + length (take ?pad PADDING) < 2 ^ 32" "n mod 64 + length (to_le 8 (of_nat (8 * length m) :: u64)) < 2 ^ 32"
    for n :: nat
  proof -
    have "n mod 64 < 64" "length (take ?pad PADDING) \<le> 64" "length (to_le 8 (of_nat (8 * length m) :: u64)) = 8"
      by (simp_all add: PADDING_def)
    then have "n mod 64 + length (take ?pad PADDING) \<le> 128"
        "n mod 64 + length (to_le 8 (of_nat (8 * length m) :: u64)) \<le> 128"
      by linarith+
    moreover have "(128 :: nat) < 2 ^ 32" by simp
    ultimately show "n mod 64 + length (take ?pad PADDING) < 2 ^ 32"
        "n mod 64 + length (to_le 8 (of_nat (8 * length m) :: u64)) < 2 ^ 32"
      using le_less_trans by blast+
  qed
  obtain c where c: "QMD5Update ctx (take ?pad PADDING) = Some c" "fed (m @ take ?pad PADDING) c"
    using update_fed [OF assms small(1)] by blast
  then obtain c' where "QMD5Update c (to_le 8 (of_nat (8 * length m) :: u64)) = Some c'"
      "fed ((m @ take ?pad PADDING) @ to_le 8 (of_nat (8 * length m) :: u64)) c'"
    using update_fed [OF c(2) small(2)] by blast
  then show ?thesis
    using c(1) unfolding QMD5Pad_def Let_def idx bits take_PADDING [OF pad(2,3)] pad(1) by (simp add: rfc_padded_def)
qed

lemma init_fed: "length (ctx_buffer ctx) = 64 \<Longrightarrow> fed [] (QMD5Init ctx)"
  by (simp add: fed_def QMD5Init_def rfc_init_def rest_part_def rfc_blocks_small)

lemma final_digest: "fed m ctx \<Longrightarrow> map_option fst (QMD5Final ctx) = Some (rfc_md5 m)"
  using pad_fed [of m ctx]
  by (auto simp: QMD5Final_def rfc_md5_def fed_def md5_Encode_def md5_state_list_def split: prod.split)

text \<open>A client that feeds a message in parts, and the parts the code takes without a read beyond one of them.\<close>

fun md5_feed :: "QMD5_CTX \<Rightarrow> bytes list \<Rightarrow> QMD5_CTX option" where
  "md5_feed ctx [] = Some ctx"
| "md5_feed ctx (p # parts) = Option.bind (QMD5Update ctx p) (\<lambda>ctx. md5_feed ctx parts)"

fun parts_fit :: "nat \<Rightarrow> bytes list \<Rightarrow> bool" where
  "parts_fit n [] \<longleftrightarrow> True"
| "parts_fit n (p # parts) \<longleftrightarrow> n mod 64 + length p < 2 ^ 32 \<and> parts_fit (n + length p) parts"

lemma feed_fed:
  "fed m ctx \<Longrightarrow> parts_fit (length m) parts \<Longrightarrow> \<exists>c. md5_feed ctx parts = Some c \<and> fed (m @ concat parts) c"
proof (induction parts arbitrary: m ctx)
  case (Cons p ps)
  then obtain c where c: "QMD5Update ctx p = Some c" "fed (m @ p) c" using update_fed [of m ctx p] by auto
  moreover have "parts_fit (length (m @ p)) ps" using Cons.prems(2) by simp
  ultimately show ?case using Cons.IH [of "m @ p" c] by auto
qed simp

lemma feed_overrun:
  "fed m ctx \<Longrightarrow> \<forall>p\<in>set parts. length p < 2 ^ 32 \<Longrightarrow> \<not> parts_fit (length m) parts \<Longrightarrow> md5_feed ctx parts = None"
proof (induction parts arbitrary: m ctx)
  case (Cons p ps)
  show ?case
  proof (cases "length m mod 64 + length p < 2 ^ 32")
    case True
    then obtain c where c: "QMD5Update ctx p = Some c" "fed (m @ p) c" using Cons.prems(1) update_fed [of m ctx p] by auto
    have "\<not> parts_fit (length (m @ p)) ps" using Cons.prems(3) True by simp
    then show ?thesis using Cons.IH [OF c(2)] Cons.prems(2) c(1) by simp
  next
    case False
    then have "QMD5Update ctx p = None"
      using Cons.prems(1,2) update_total_iff [of p ctx] by (auto simp: fed_buffered)
    then show ?thesis by simp
  qed
qed simp

lemma md5_digest_rfc: "length d < 2 ^ 32 \<Longrightarrow> md5_digest d = rfc_md5 d"
proof -
  define ctx where "ctx = QMD5Init \<lparr>ctx_state = (0, 0, 0, 0), ctx_count0 = 0, ctx_count1 = 0, ctx_buffer = replicate 64 0\<rparr>"
  assume d: "length d < 2 ^ 32"
  moreover have "fed [] ctx" unfolding ctx_def by (rule init_fed) simp
  ultimately obtain c where c: "QMD5Update ctx d = Some c" "fed d c" using update_fed [of "[]" ctx d] by auto
  then have "map_option fst (md5_run d) = Some (rfc_md5 d)"
    using d final_digest [OF c(2)] by (simp add: md5_run_def Let_def flip: ctx_def)
  then show ?thesis by (auto simp: md5_digest_def)
qed

end
