(* ===== verification/Hash_Props.thy ===== *)
theory Hash_Props
  imports Hash Md5_Rfc
begin

text \<open>
  The properties of the hash functions of \<^verbatim>\<open>shmutil/qhash.c\<close> and \<^verbatim>\<open>shmutil/md5.c\<close>: MD5 against
  its RFC, and Murmur3 against the published algorithm, from which the code departs in the
  mixing of a last block of less than four bytes. Each is given up to the length at which the
  integers of the code overflow, with what happens there.
\<close>

subsection \<open>MD5\<close>




subsection \<open>Murmur3\<close>

text \<open>
  The 32 bit Murmur3 with seed 0, as published: the argument is the mixing of the last one to
  three bytes, \<open>murmur3_scramble\<close> in the published algorithm.
\<close>

definition murmur3_scramble :: "u32 \<Rightarrow> u32" where
  "murmur3_scramble k = word_rotl 15 (k * 0xcc9e2d51) * 0x1b873593"

fun murmur3_body :: "(u32 \<Rightarrow> u32) \<Rightarrow> u32 \<Rightarrow> bytes \<Rightarrow> u32" where
  "murmur3_body mix h (a # b # c # d # bs) =
     murmur3_body mix (word_rotl 13 (h XOR murmur3_scramble (of_le [a, b, c, d])) * 5 + 0xe6546b64) bs"
| "murmur3_body mix h [] = h"
| "murmur3_body mix h rest = h XOR mix (of_le rest)"

definition murmur3_fmix :: "u32 \<Rightarrow> u32" where
  "murmur3_fmix h0 =
     (let h1 = (h0 XOR drop_bit 16 h0) * 0x85ebca6b;
          h2 = (h1 XOR drop_bit 13 h1) * 0xc2b2ae35
      in h2 XOR drop_bit 16 h2)"

definition murmur3_with :: "(u32 \<Rightarrow> u32) \<Rightarrow> bytes \<Rightarrow> u32" where
  "murmur3_with mix bs = murmur3_fmix (murmur3_body mix 0 bs XOR of_nat (length bs))"

definition murmur3_ref :: "bytes \<Rightarrow> u32" where
  "murmur3_ref = murmur3_with murmur3_scramble"

text \<open>What the code does with the last bytes: the shifts by 13 and by 17, no rotation.\<close>

definition source_mix :: "u32 \<Rightarrow> u32" where
  "source_mix k = (let x = k * 0xcc9e2d51 in (push_bit 13 x OR drop_bit 17 x) * 0x1b873593)"

lemma murmur_block_ref:
  "murmur_block h k = word_rotl 13 (h XOR murmur3_scramble k) * 5 + 0xe6546b64"
  using ROTATE_LEFT_rotl [of 15] ROTATE_LEFT_rotl [of 13]
  by (simp add: murmur_block_def Let_def murmur3_scramble_def murmur_c1_def murmur_c2_def ROTATE_LEFT_def)

lemma murmur_final_ref: "murmur_final h = murmur3_fmix h"
  by (simp add: murmur_final_def murmur3_fmix_def Let_def)

text \<open>The loop takes the blocks one by one; the switch takes the rest.\<close>

lemma murmur_blocks_ref:
  "4 * (i + n) \<le> length data \<Longrightarrow>
   \<exists>h'. murmur_blocks data (int i) (int (i + n)) h = Some h' \<and>
     murmur3_body mix h (drop (4 * i) data) = murmur3_body mix h' (drop (4 * (i + n)) data)"
proof (induction n arbitrary: i h)
  case 0
  then show ?case by (simp add: murmur_blocks.simps)
next
  case (Suc n)
  then have "4 \<le> length (drop (4 * i) data)" by simp
  then obtain a b c d bs where dr: "drop (4 * i) data = a # b # c # d # bs"
    by (auto simp: numeral_eq_Suc Suc_le_length_iff simp del: length_drop)
  then have next_i: "drop (4 * Suc i) data = bs" "mem_read (4 * i) 4 data = [a, b, c, d]"
    using drop_drop [of 4 "4 * i" data] by (simp_all add: mem_read_def)
  have "murmur_blocks data (int i) (int (i + Suc n)) h =
      murmur_blocks data (int (Suc i)) (int (Suc i + n)) (murmur_block h (of_le [a, b, c, d]))"
    using Suc.prems by (subst murmur_blocks.simps) (simp add: next_i(2) add.commute)
  moreover have "murmur3_body mix h (drop (4 * i) data) = murmur3_body mix (murmur_block h (of_le [a, b, c, d])) (drop (4 * Suc i) data)"
    by (simp only: dr next_i(1) murmur3_body.simps murmur_block_ref)
  ultimately show ?case
    using Suc.IH [of "Suc i" "murmur_block h (of_le [a, b, c, d])"] Suc.prems by simp
qed

lemma tail_word:
  "of_le [a] = (ucast a :: u32)"
  "of_le [a, b] = (push_bit 8 (ucast b) XOR ucast a :: u32)"
  "of_le [a, b, c] = (push_bit 16 (ucast c) XOR push_bit 8 (ucast b) XOR ucast a :: u32)"
  by (rule bit_word_eqI, auto simp: bit_or_iff bit_xor_iff bit_push_bit_iff bit_ucast_iff dest: bit_imp_le_length)+

lemma murmur_tail_ref:
  assumes "length tail = r" "r < 4"
  shows "murmur_tail h r tail = Some (murmur3_body source_mix h tail)"
proof -
  have "tail = [] \<or> (\<exists>a. tail = [a]) \<or> (\<exists>a b. tail = [a, b]) \<or> (\<exists>a b c. tail = [a, b, c])"
    using assms by (auto simp: less_Suc_eq numeral_eq_Suc length_Suc_conv)
  then show ?thesis
    using assms(1)
    by (elim disjE exE)
      (simp_all add: murmur_tail_def Let_def source_mix_def murmur_c1_def murmur_c2_def tail_word xor.assoc del: of_le.simps)
qed

lemma murmur3_below_2GiB:
  assumes "length d < 2 ^ 31"
  shows "qhashmurmur3_32 (Some d) = Some (murmur3_with source_mix d)"
proof (cases "d = []")
  case True
  then show ?thesis by (simp add: qhashmurmur3_32_def murmur3_with_def murmur3_fmix_def)
next
  case False
  let ?n = "length d div 4"
  obtain h where h: "murmur_blocks d 0 (int ?n) 0 = Some h"
      "murmur3_body source_mix 0 d = murmur3_body source_mix h (drop (4 * ?n) d)"
    using murmur_blocks_ref [of 0 ?n d 0 source_mix] by auto
  have d: "length d < 2 ^ 33" using assms by simp
  have "length d - 4 * ?n = length d mod 4" by (simp add: minus_mult_div_eq_mod)
  then have "murmur_tail h (length d mod 4) (drop (4 * ?n) d) = Some (murmur3_body source_mix h (drop (4 * ?n) d))"
    by (intro murmur_tail_ref) simp_all
  then show ?thesis
    using assms False murmur3_off [of "length d"]
    by (simp add: qhashmurmur3_32_def Let_def block_count [OF d] h murmur3_with_def murmur_final_ref not_le not_less)
qed

lemma murmur3_from_2GiB:
  assumes "2 ^ 31 \<le> length d" "length d < 2 ^ 33"
  shows "qhashmurmur3_32 (Some d) = None"
  using assms murmur3_off(1) [of "length d"]
  by (auto simp: qhashmurmur3_32_def Let_def block_count [OF assms(2)] not_less)

lemma body_whole_blocks: "4 dvd length d \<Longrightarrow> murmur3_body mix h d = murmur3_body mix' h d"
proof (induction mix h d rule: murmur3_body.induct)
  case (1 mix h a b c d bs)
  then have "4 dvd length bs" by (metis Suc_eq_plus1 add.assoc dvd_add_left_iff dvd_refl length_Cons numeral_Bit0 one_add_one)
  then show ?case using 1 by simp
qed (auto dest!: dvd_imp_le)

text \<open>
  C37: On data of less than 2 GiB \<^verbatim>\<open>qhashmurmur3_32\<close> is the published Murmur3 with another
  mixing of the last one to three bytes, shifts by 13 and 17 in place of a rotation by 15: it is the
  published hash on whole blocks, and not on the single byte 1. From 2 GiB to 8 GiB the product
  \<^verbatim>\<open>nblocks * 4\<close> of the code overflows \<^verbatim>\<open>int\<close>, which is undefined (\<open>None\<close>).
\<close>

theorem murmur3_whole_blocks:
  assumes "length d < 2 ^ 33"
  shows "qhashmurmur3_32 (Some d) = (if length d < 2 ^ 31 then Some (murmur3_with source_mix d) else None) \<and>
    (4 dvd length d \<longrightarrow> murmur3_with source_mix d = murmur3_ref d) \<and>
    qhashmurmur3_32 (Some [1]) \<noteq> Some (murmur3_ref [1])"
proof (intro conjI impI)
  show "qhashmurmur3_32 (Some d) = (if length d < 2 ^ 31 then Some (murmur3_with source_mix d) else None)"
  proof (cases "length d < 2 ^ 31")
    case True
    then show ?thesis using murmur3_below_2GiB [OF True] by simp
  next
    case False
    then show ?thesis using murmur3_from_2GiB [OF _ assms] by simp
  qed
  show "murmur3_with source_mix d = murmur3_ref d" if "4 dvd length d"
    using body_whole_blocks [OF that, of source_mix 0 murmur3_scramble] by (simp add: murmur3_with_def murmur3_ref_def)
  show "qhashmurmur3_32 (Some [1]) \<noteq> Some (murmur3_ref [1])" by code_simp
qed

text \<open>The published values of \<^verbatim>\<open>test\<close> and of \<^verbatim>\<open>testtest\<close>; the code computes both, whole blocks.\<close>

lemma murmur3_test_values:
  "murmur3_ref [116, 101, 115, 116] = 0xba6bd213"
  "murmur3_ref [116, 101, 115, 116, 116, 101, 115, 116] = 0x2b23b1f3"
  by code_simp+

lemma test_lengths:
  "length [116, 101, 115, 116 :: 8 word] = 4" "length [116, 101, 115, 116, 116, 101, 115, 116 :: 8 word] = 8"
  by simp_all

theorem murmur3_whole_blocks_witness:
  "qhashmurmur3_32 (Some [116, 101, 115, 116]) = Some 0xba6bd213 \<and>
   qhashmurmur3_32 (Some [116, 101, 115, 116, 116, 101, 115, 116]) = Some 0x2b23b1f3"
  using murmur3_whole_blocks [of "[116, 101, 115, 116]"]
    murmur3_whole_blocks [of "[116, 101, 115, 116, 116, 101, 115, 116]"]
  unfolding murmur3_test_values test_lengths by simp

end
