(* ===== verification/Ex_Queue.thy ===== *)
theory Ex_Queue
  imports Msg_Fifo
begin

text \<open>
  The programs \<^verbatim>\<open>mq_single_producer.cc\<close>, \<^verbatim>\<open>mq_single_consumer.cc\<close>, \<^verbatim>\<open>mq_multi_producer.cc\<close> and
  \<^verbatim>\<open>mq_multi_consumer.cc\<close> of \<^verbatim>\<open>src/example\<close>. A program is the list of the lines it prints and
  the object it leaves; \<open>None\<close> is an access outside of a buffer. \<^verbatim>\<open>rand\<close> is a sequence of numbers;
  what the other processes do to the queue while the program sleeps, and between two calls of
  a consumer, is the function \<open>world\<close> of the time. The two producers differ in the class of
  the object and the key, as do the two consumers; the common text is one definition over
  the operations of the object.
\<close>

datatype mq_event =
    Init_failed ErrorCode
  | Clear_failed ErrorCode
  | Produce_failed nat ErrorCode
  | Produced bytes nat
  | Queue_empty
  | Consume_failed
  | Consumed bytes int

definition SHM_SIZE :: u32 where "SHM_SIZE = 1024 * 1024"
definition SINGLE_KEY :: u32 where "SINGLE_KEY = 67485"
definition MULTI_KEY :: u32 where "MULTI_KEY = 67486"

text \<open>What \<^verbatim>\<open>printf\<close> shows of \<^verbatim>\<open>val.c_str()\<close>.\<close>

definition c_str :: "bytes \<Rightarrow> bytes" where
  "c_str s = takeWhile (\<lambda>b. b \<noteq> 0) s"

subsection \<open>The producers\<close>

fun append_times :: "nat \<Rightarrow> bytes \<Rightarrow> bytes" where
  "append_times 0 val = val"
| "append_times (Suc k) val = append_times k (val @ ascii ''baozh'')"

definition message :: "nat \<Rightarrow> bytes" where
  "message rnd =
     (let val = [];
          randomTimes = rnd mod 10;
          randomTimes = (if randomTimes = 0 then 5 else randomTimes)
      in append_times randomTimes val)"

definition ROUNDS :: nat where "ROUNDS = 10000"

function producer_loop ::
    "(bytes \<Rightarrow> u32 \<Rightarrow> 'p \<Rightarrow> (ErrorCode \<times> 'p) option) \<Rightarrow> (nat \<Rightarrow> nat) \<Rightarrow> (nat \<Rightarrow> 'p \<Rightarrow> 'p) \<Rightarrow> nat \<Rightarrow> 'p \<Rightarrow>
     (mq_event list \<times> 'p) option" where
  "producer_loop send rand world index p =
     (if index < ROUNDS
      then do {
        let val = message (rand index);
        (ret, p) \<leftarrow> send val (of_nat (length val)) p;
        if ret \<noteq> kOk then Some ([Produce_failed (length val) ret], p)
        else do {
          (out, p) \<leftarrow> producer_loop send rand world (index + 1) (world index p);
          Some (Produced (c_str val) (length val) # out, p)
        }
      }
      else Some ([], p))"
  by pat_completeness auto
termination
  by (relation "measure (\<lambda>(send, rand, world, index, p). ROUNDS - index)") auto

declare producer_loop.simps [simp del]

definition producer_main ::
    "('p \<Rightarrow> ErrorCode \<times> 'p) \<Rightarrow> ('p \<Rightarrow> ErrorCode \<times> 'p) \<Rightarrow> (bytes \<Rightarrow> u32 \<Rightarrow> 'p \<Rightarrow> (ErrorCode \<times> 'p) option) \<Rightarrow>
     (nat \<Rightarrow> nat) \<Rightarrow> (nat \<Rightarrow> 'p \<Rightarrow> 'p) \<Rightarrow> 'p \<Rightarrow> (mq_event list \<times> 'p) option" where
  "producer_main init clear send rand world p =
     (case init p of
        (ret, p) \<Rightarrow>
          if ret \<noteq> kOk then Some ([Init_failed ret], p)
          else case clear p of
                 (ret, p) \<Rightarrow>
                   if ret \<noteq> kOk then Some ([Clear_failed ret], p)
                   else producer_loop send rand world 0 p)"

definition single_producer ::
    "mq_services \<Rightarrow> proc_env \<Rightarrow> (nat \<Rightarrow> nat) \<Rightarrow> (nat \<Rightarrow> ShmMQProducer \<Rightarrow> ShmMQProducer) \<Rightarrow>
     (mq_event list \<times> ShmMQProducer) option" where
  "single_producer svc env rand world =
     producer_main (producer_init svc SINGLE_KEY SHM_SIZE) (producer_clearMQ env) (produce env) rand world producer_new"

definition multi_producer ::
    "lock_env \<Rightarrow> mq_services \<Rightarrow> proc_env \<Rightarrow> (nat \<Rightarrow> nat) \<Rightarrow> (nat \<Rightarrow> ShmMQLockProducer \<Rightarrow> ShmMQLockProducer) \<Rightarrow>
     (mq_event list \<times> ShmMQLockProducer) option" where
  "multi_producer le svc env rand world =
     producer_main (lock_producer_init le svc MULTI_KEY SHM_SIZE (ascii ''./'')) (lock_producer_clearMQ le env)
       (lock_produce le env) rand world lock_producer_new"

subsection \<open>The consumers\<close>

definition BUF_SIZE :: nat where "BUF_SIZE = 1024 * 1024"

text \<open>
  The state of the loops: the time, the buffer, \<^verbatim>\<open>dataLen\<close> and the object. The inner loop, from
  a round with \<^verbatim>\<open>ret == kOk\<close> on: the lines it prints, whether the program goes on, and the state;
  a loop that never ends is \<open>None\<close> as well.
\<close>

type_synonym 'c drain_state = "nat \<times> bytes \<times> u32 \<times> 'c"

partial_function (option) drain ::
    "(bytes \<Rightarrow> u32 \<Rightarrow> u32 \<Rightarrow> 'c \<Rightarrow> (ErrorCode \<times> u32 \<times> bytes \<times> 'c) option) \<Rightarrow> (nat \<Rightarrow> 'c \<Rightarrow> 'c) \<Rightarrow> 'c drain_state \<Rightarrow>
     (mq_event list \<times> bool \<times> 'c drain_state) option" where
  "drain recv world s =
     (case s of
        (time, buf, dataLen, c) \<Rightarrow> do {
          (ret, dataLen, buf, c) \<leftarrow> recv buf (of_nat BUF_SIZE) dataLen c;
          if ret \<noteq> kOk
          then if ret = kErrShmMQEmpty then Some ([Queue_empty], True, time, buf, dataLen, c)
               else Some ([Consume_failed], False, time, buf, dataLen, c)
          else do {
            val \<leftarrow> mem_load 0 (unat dataLen) buf;
            (out, go, s) \<leftarrow> drain recv world (time + 1, buf, dataLen, world time c);
            Some (Consumed (c_str val) (sint dataLen) # out, go, s)
          }
        })"

text \<open>The first \<open>n\<close> rounds of the outer loop, which has no end of its own.\<close>

fun consumer_rounds ::
    "(bytes \<Rightarrow> u32 \<Rightarrow> u32 \<Rightarrow> 'c \<Rightarrow> (ErrorCode \<times> u32 \<times> bytes \<times> 'c) option) \<Rightarrow> (nat \<Rightarrow> 'c \<Rightarrow> 'c) \<Rightarrow> nat \<Rightarrow>
     'c drain_state \<Rightarrow> (mq_event list \<times> 'c drain_state) option" where
  "consumer_rounds recv world 0 s = Some ([], s)"
| "consumer_rounds recv world (Suc n) s = do {
     (out, go, time, buf, dataLen, c) \<leftarrow> drain recv world s;
     if \<not> go then Some (out, time, buf, dataLen, c)
     else do {
       (out', s) \<leftarrow> consumer_rounds recv world n (time + 1, buf, dataLen, world time c);
       Some (out @ out', s)
     }
   }"

definition consumer_main ::
    "('c \<Rightarrow> ErrorCode \<times> 'c) \<Rightarrow> (bytes \<Rightarrow> u32 \<Rightarrow> u32 \<Rightarrow> 'c \<Rightarrow> (ErrorCode \<times> u32 \<times> bytes \<times> 'c) option) \<Rightarrow>
     (nat \<Rightarrow> 'c \<Rightarrow> 'c) \<Rightarrow> nat \<Rightarrow> 'c \<Rightarrow> (mq_event list \<times> 'c) option" where
  "consumer_main init recv world n c =
     (case init c of
        (ret, c) \<Rightarrow>
          if ret \<noteq> kOk then Some ([Init_failed ret], c)
          else do {
            (out, time, buf, dataLen, c) \<leftarrow> consumer_rounds recv world n (0, replicate BUF_SIZE 0, 0, c);
            Some (out, c)
          })"

definition single_consumer ::
    "mq_services \<Rightarrow> proc_env \<Rightarrow> (nat \<Rightarrow> ShmMQComsumer \<Rightarrow> ShmMQComsumer) \<Rightarrow> nat \<Rightarrow>
     (mq_event list \<times> ShmMQComsumer) option" where
  "single_consumer svc env world n =
     consumer_main (comsumer_init svc SINGLE_KEY SHM_SIZE) (comsume env) world n comsumer_new"

definition multi_consumer ::
    "lock_env \<Rightarrow> mq_services \<Rightarrow> proc_env \<Rightarrow> (nat \<Rightarrow> ShmMQLockComsumer \<Rightarrow> ShmMQLockComsumer) \<Rightarrow> nat \<Rightarrow>
     (mq_event list \<times> ShmMQLockComsumer) option" where
  "multi_consumer le svc env world n =
     consumer_main (lock_comsumer_init le svc MULTI_KEY SHM_SIZE (ascii ''./'')) (lock_comsume le env) world n
       lock_comsumer_new"

end
