(* ===== verification/Ex_Queue_Spec.thy ===== *)
theory Ex_Queue_Spec
  imports Ex_Queue
begin

text \<open>
  What the example producers and consumers of a queue do, over any object whose operations
  keep the promises of the interfaces below, and the classes with and without a lock file as
  two instances of each.
\<close>

subsection \<open>Messages\<close>

lemma append_times_length: "length (append_times k val) = length val + 5 * k"
  by (induction k arbitrary: val) (simp_all add: ascii_def)

lemma append_times_nul: "0 \<notin> set val \<Longrightarrow> 0 \<notin> set (append_times k val)"
proof (induction k arbitrary: val)
  case (Suc k)
  have "(0 :: byte) \<notin> set (ascii ''baozh'')" by code_simp
  then show ?case using Suc by simp
qed simp

lemma c_str_same: "0 \<notin> set s \<Longrightarrow> c_str s = s"
  by (auto simp: c_str_def takeWhile_eq_all_conv)

lemma message:
  "length (message r) \<le> 45" "c_str (message r) = message r" "message r \<noteq> []"
proof -
  have "r mod 10 < 10" by simp
  then have "r mod 10 \<le> 9" by linarith
  then show "length (message r) \<le> 45" by (simp add: message_def Let_def append_times_length)
  show "c_str (message r) = message r" by (simp add: message_def Let_def c_str_same append_times_nul)
  have "0 < length (message r)" unfolding message_def Let_def append_times_length by (cases "r mod 10 = 0") simp_all
  then show "message r \<noteq> []" by simp
qed

lemma message_cost: "msg_cost (message r) \<le> 57"
  using message(1) [of r] by (simp add: msg_cost_def)

definition sent_line :: "bytes \<Rightarrow> mq_event" where
  "sent_line m = Produced m (length m)"

definition received_line :: "bytes \<Rightarrow> mq_event" where
  "received_line m = Consumed (c_str m) (int (length m))"

fun is_message :: "mq_event \<Rightarrow> bool" where
  "is_message (Consumed _ _) = True"
| "is_message _ = False"

lemma received_lines: "filter is_message (map received_line ms) = map received_line ms"
  by (simp add: received_line_def)

subsection \<open>Producers\<close>

lemma drop_of_append: "j \<le> length xs \<Longrightarrow> drop i (drop j xs @ ys) = drop (i + j) (xs @ ys)"
  by (simp flip: drop_drop)

locale queue_producer =
  fixes okp :: "bytes list \<Rightarrow> 'p \<Rightarrow> bool" and send :: "bytes \<Rightarrow> u32 \<Rightarrow> 'p \<Rightarrow> (ErrorCode \<times> 'p) option" and cap :: nat
  assumes send_room: "okp ms p \<Longrightarrow> length m \<le> 45 \<Longrightarrow> space msg_cost ms + msg_cost m < cap \<Longrightarrow>
      \<exists>p'. send m (of_nat (length m)) p = Some (kOk, p') \<and> okp (ms @ [m]) p'"
begin

text \<open>The other processes take messages from the front, or nothing at all.\<close>

lemma loop_prints:
  assumes world: "\<And>k ms p. okp ms p \<Longrightarrow> \<exists>j. okp (drop j ms) (world k p) \<and> (quiet \<longrightarrow> j = 0)" and cap: "57 * ROUNDS < cap"
  shows "okp ms p \<Longrightarrow> space msg_cost ms \<le> 57 * index \<Longrightarrow> index \<le> ROUNDS \<Longrightarrow>
    \<exists>p' j. producer_loop send rand world index p =
      Some (map (\<lambda>i. sent_line (message (rand i))) [index..<ROUNDS], p') \<and>
      okp (drop j (ms @ map (\<lambda>i. message (rand i)) [index..<ROUNDS])) p' \<and> (quiet \<longrightarrow> j = 0)"
proof (induction "ROUNDS - index" arbitrary: index ms p)
  case 0
  have "producer_loop send rand world index p = Some ([], p)" using 0(1) by (subst producer_loop.simps) simp
  then show ?case using 0 by (intro exI [of _ p] exI [of _ "0 :: nat"]) simp
next
  case (Suc d)
  then have less: "index < ROUNDS" by simp
  let ?m = "message (rand index)" and ?rest = "map (\<lambda>i. message (rand i)) [Suc index..<ROUNDS]"
  have cost: "space msg_cost ms + msg_cost ?m \<le> 57 * Suc index" using message_cost [of "rand index"] Suc.prems(2) by simp
  then have "space msg_cost ms + msg_cost ?m < cap" using cap less by simp
  then obtain p1 where p1: "send ?m (of_nat (length ?m)) p = Some (kOk, p1)" "okp (ms @ [?m]) p1"
    using send_room [OF Suc.prems(1) message(1)] by blast
  obtain j where j: "okp (drop j (ms @ [?m])) (world index p1)" "quiet \<longrightarrow> j = 0" using world [OF p1(2)] by blast
  define ms1 where "ms1 = drop j (ms @ [?m])"
  have "space msg_cost (drop j (ms @ [?m])) \<le> space msg_cost (ms @ [?m])"
    using append_take_drop_id [of j "ms @ [?m]"] space_simps(3) [of msg_cost "take j (ms @ [?m])" "drop j (ms @ [?m])"] by simp
  then have "space msg_cost ms1 \<le> 57 * Suc index" using cost by (simp add: ms1_def)
  moreover have "okp ms1 (world index p1)" using j(1) by (simp only: ms1_def)
  moreover have "d = ROUNDS - Suc index" "Suc index \<le> ROUNDS" using Suc.hyps(2) less by simp_all
  ultimately obtain p2 i where p2: "producer_loop send rand world (Suc index) (world index p1) =
      Some (map (\<lambda>i. sent_line (message (rand i))) [Suc index..<ROUNDS], p2)"
    "okp (drop i (ms1 @ ?rest)) p2" "quiet \<longrightarrow> i = 0"
    using Suc.hyps(1) by blast
  have run: "producer_loop send rand world index p =
      Some (map (\<lambda>i. sent_line (message (rand i))) [index..<ROUNDS], p2)"
    using less p1(1) p2(1)
    by (simp add: producer_loop.simps [of send rand world index] Let_def upt_conv_Cons sent_line_def message(2))
  have all: "(ms @ [?m]) @ ?rest = ms @ map (\<lambda>i. message (rand i)) [index..<ROUNDS]" using less by (simp add: upt_conv_Cons)
  define j' where "j' = min j (length (ms @ [?m]))"
  have "ms1 = drop j' (ms @ [?m])" unfolding ms1_def j'_def min_def by (cases "j \<le> length (ms @ [?m])") simp_all
  then have "drop i (ms1 @ ?rest) = drop (i + j') ((ms @ [?m]) @ ?rest)"
    using drop_of_append [of j' "ms @ [?m]" i ?rest] by (simp only: j'_def min.cobounded2)
  then have "okp (drop (i + j') (ms @ map (\<lambda>i. message (rand i)) [index..<ROUNDS])) p2" using p2(2) all by simp
  moreover have "quiet \<longrightarrow> i + j' = 0" using j(2) p2(3) by (simp add: j'_def)
  ultimately show ?case using run by blast
qed

end

subsection \<open>Consumers\<close>

text \<open>
  What a queue holds at each time when it holds \<open>ms\<close> at first, one message is taken at each time at which it
  holds one, and the messages \<open>new t\<close> are appended behind that.
\<close>

fun backlog :: "'m list \<Rightarrow> (nat \<Rightarrow> 'm list) \<Rightarrow> nat \<Rightarrow> 'm list" where
  "backlog ms new 0 = ms"
| "backlog ms new (Suc t) = tl (backlog ms new t) @ new t"

locale queue_consumer =
  fixes okc :: "bytes list \<Rightarrow> 'c \<Rightarrow> bool" and recv :: "bytes \<Rightarrow> u32 \<Rightarrow> u32 \<Rightarrow> 'c \<Rightarrow> (ErrorCode \<times> u32 \<times> bytes \<times> 'c) option"
  assumes recv_first: "okc (m # ms) c \<Longrightarrow> length buf = BUF_SIZE \<Longrightarrow>
      \<exists>c' rest. recv buf (of_nat BUF_SIZE) dl c = Some (kOk, of_nat (length m), m @ rest, c') \<and> okc ms c' \<and>
        length m + length rest = BUF_SIZE"
    and recv_empty: "okc [] c \<Longrightarrow> recv buf (of_nat BUF_SIZE) dl c = Some (kErrShmMQEmpty, dl, buf, c)"
begin

lemma drain_prints:
  assumes world: "\<And>t ms c. okc ms c \<Longrightarrow> fit (ms @ new t) \<Longrightarrow> okc (ms @ new t) (world t c)"
    and fit: "\<And>t. fit (backlog msz new t)" and until: "\<And>t. T \<le> t \<Longrightarrow> new t = []"
  shows "okc ms c \<Longrightarrow> ms = backlog msz new t \<Longrightarrow> length buf = BUF_SIZE \<Longrightarrow>
    \<exists>t' buf' dl' c'. drain recv world (t, buf, dl, c) =
      Some (map received_line (ms @ concat (map new [t..<t'])) @ [Queue_empty], True, t', buf', dl', c') \<and>
      t \<le> t' \<and> length buf' = BUF_SIZE \<and> okc [] c' \<and> backlog msz new t' = []"
proof (induction "length ms + length (concat (map new [t..<T]))" arbitrary: ms c buf t dl rule: less_induct)
  case less
  show ?case
  proof (cases ms)
    case Nil
    then show ?thesis
      using recv_empty [of c buf dl] less.prems(1,3) less.prems(2) [symmetric]
      by (intro exI [of _ t] exI [of _ buf] exI [of _ dl] exI [of _ c]) (simp add: drain.simps [of recv world])
  next
    case (Cons m ms')
    obtain c1 rest where r: "recv buf (of_nat BUF_SIZE) dl c = Some (kOk, of_nat (length m), m @ rest, c1)" "okc ms' c1"
      "length m + length rest = BUF_SIZE"
      using recv_first [of m ms' c buf dl] less.prems(1,3) Cons by blast
    have "length m \<le> BUF_SIZE" using r(3) by simp
    then have m: "unat (of_nat (length m) :: u32) = length m" "sint (of_nat (length m) :: u32) = int (length m)"
      by (simp_all add: BUF_SIZE_def unsigned_of_nat take_bit_nat_eq_self signed_of_nat signed_take_bit_int_eq_self_iff)
    have "length (new t) + length (concat (map new [Suc t..<T])) = length (concat (map new [t..<T]))"
      using until [of t] by (cases "t < T") (simp_all add: upt_conv_Cons)
    then have "length (ms' @ new t) + length (concat (map new [Suc t..<T])) < length ms + length (concat (map new [t..<T]))"
      using Cons by simp
    moreover have next_t: "ms' @ new t = backlog msz new (Suc t)" using less.prems(2) [symmetric] Cons by simp
    moreover have "okc (ms' @ new t) (world t c1)" by (rule world [OF r(2)]) (use fit [of "Suc t"] next_t in simp)
    moreover have "length (m @ rest) = BUF_SIZE" using r(3) by simp
    ultimately obtain t' buf' dl' c' where d: "drain recv world (Suc t, m @ rest, of_nat (length m), world t c1) =
        Some (map received_line ((ms' @ new t) @ concat (map new [Suc t..<t'])) @ [Queue_empty], True, t', buf', dl', c')"
      "Suc t \<le> t'" "length buf' = BUF_SIZE" "okc [] c'" "backlog msz new t' = []"
      using less.hyps by blast
    have "drain recv world (t, buf, dl, c) =
        Some (map received_line (ms @ concat (map new [t..<t'])) @ [Queue_empty], True, t', buf', dl', c')"
      using r(1,3) m d(1,2) Cons
      by (simp add: drain.simps [of recv world "(t, buf, dl, c)"] mem_load_def mem_read_def received_line_def upt_conv_Cons)
    then show ?thesis using d(2-5) by (intro exI [of _ t'] exI [of _ buf'] exI [of _ dl'] exI [of _ c']) simp
  qed
qed

lemma rounds_print:
  assumes world: "\<And>t ms c. okc ms c \<Longrightarrow> fit (ms @ new t) \<Longrightarrow> okc (ms @ new t) (world t c)"
    and fit: "\<And>t. fit (backlog msz new t)" and until: "\<And>t. T \<le> t \<Longrightarrow> new t = []"
  shows "okc ms c \<Longrightarrow> ms = backlog msz new t \<Longrightarrow> length buf = BUF_SIZE \<Longrightarrow>
    \<exists>out t' buf' dl' c' left. consumer_rounds recv world n (t, buf, dl, c) = Some (out, t', buf', dl', c') \<and>
      map received_line (ms @ concat (map new [t..<t'])) = filter is_message out @ map received_line left \<and>
      t + n \<le> t' \<and> okc left c' \<and> (if n = 0 then t' = t \<and> left = ms else left = new (t' - 1))"
proof (induction n arbitrary: ms c buf t dl)
  case 0
  then show ?case by (intro exI [of _ "[] :: mq_event list"] exI [of _ t] exI [of _ buf] exI [of _ dl] exI [of _ c] exI [of _ ms]) simp
next
  case (Suc n)
  obtain t1 buf1 dl1 c1 where d: "drain recv world (t, buf, dl, c) =
      Some (map received_line (ms @ concat (map new [t..<t1])) @ [Queue_empty], True, t1, buf1, dl1, c1)"
    "t \<le> t1" "length buf1 = BUF_SIZE" "okc [] c1" "backlog msz new t1 = []"
    using drain_prints [where new = new and world = world and T = T and fit = fit and msz = msz, OF world fit until Suc.prems] by blast
  have bl: "new t1 = backlog msz new (Suc t1)" using d(5) by simp
  have "okc (new t1) (world t1 c1)" using world [OF d(4), of t1] fit [of "Suc t1"] d(5) by simp
  from Suc.IH [OF this bl d(3), of dl1] obtain out t' buf' dl' c' left where
    r: "consumer_rounds recv world n (Suc t1, buf1, dl1, world t1 c1) = Some (out, t', buf', dl', c')"
    "map received_line (new t1 @ concat (map new [Suc t1..<t'])) = filter is_message out @ map received_line left"
    "Suc t1 + n \<le> t'" "okc left c'" "if n = 0 then t' = Suc t1 \<and> left = new t1 else left = new (t' - 1)" by blast
  have "[t..<t'] = [t..<t1] @ t1 # [Suc t1..<t']"
    using d(2) r(3) by (metis Suc_leD Suc_le_lessD add_leD1 le_add_diff_inverse upt_add_eq_append upt_conv_Cons)
  then have "map received_line (ms @ concat (map new [t..<t'])) =
      filter is_message ((map received_line (ms @ concat (map new [t..<t1])) @ [Queue_empty]) @ out) @ map received_line left"
    using r(2) by (simp add: received_lines)
  moreover have "consumer_rounds recv world (Suc n) (t, buf, dl, c) =
      Some ((map received_line (ms @ concat (map new [t..<t1])) @ [Queue_empty]) @ out, t', buf', dl', c')"
    using d(1) r(1) by simp
  moreover have "t + Suc n \<le> t'" using d(2) r(3) by simp
  moreover have "if Suc n = 0 then t' = t \<and> left = ms else left = new (t' - 1)" using r(5) by (cases n) simp_all
  ultimately show ?case using r(4) by blast
qed

end

subsection \<open>The classes\<close>

text \<open>The block of a queue of \<^verbatim>\<open>SHM_SIZE\<close> bytes.\<close>

abbreviation EX_BLOCK :: nat where "EX_BLOCK \<equiv> 1048564"

definition producer_holds :: "bytes list \<Rightarrow> 'a ShmMQProducer_scheme \<Rightarrow> bool" where
  "producer_holds ms p \<longleftrightarrow> (\<exists>q. p_mq p = Some q \<and> client_queue EX_BLOCK BUF_SIZE ms q)"

definition consumer_holds :: "bytes list \<Rightarrow> 'a ShmMQComsumer_scheme \<Rightarrow> bool" where
  "consumer_holds ms c \<longleftrightarrow> (\<exists>q. c_mq c = Some q \<and> client_queue EX_BLOCK BUF_SIZE ms q)"

lemma buf_size: "unat (of_nat BUF_SIZE :: u32) = BUF_SIZE" "BUF_SIZE + 8 < 2 ^ 32"
  by (simp_all add: BUF_SIZE_def)

lemma produce_room:
  assumes "producer_holds ms p" "length m \<le> 45" "space msg_cost ms + msg_cost m < EX_BLOCK"
  shows "\<exists>p'. produce env m (of_nat (length m)) p = Some (kOk, p') \<and> producer_holds (ms @ [m]) p' \<and>
    (\<exists>q. p' = p\<lparr>p_mq := Some q\<rparr>)"
proof -
  obtain q where q: "p_mq p = Some q" "client_queue EX_BLOCK BUF_SIZE ms q" using assms(1) by (auto simp: producer_holds_def)
  note C = client_queueD [OF q(2)]
  have len: "unat (of_nat (length m) :: u32) = length m" "length m + 12 < 2 ^ 32" "length m + 4 \<le> BUF_SIZE"
    using assms(2) by (simp_all add: unsigned_of_nat take_bit_nat_eq_self BUF_SIZE_def)
  have "enqueue env m (of_nat (length m)) q = Some (kOk, placed m q)"
    using holds_enqueue [OF C(1), of m "of_nat (length m)" env] len assms(3) C(3) by simp
  moreover have "holds (ms @ [m]) (placed m q)" using holds_placed [OF C(1)] assms(3) C(3) by simp
  moreover have "counted (ms @ [m]) (placed m q)" using C(2) by (simp add: counted_def)
  ultimately show ?thesis using q(1) C(3-5) len(3) by (auto simp: produce_def producer_holds_def client_queue_def)
qed

lemma comsume_first:
  assumes "consumer_holds (m # ms) c" "length buf = BUF_SIZE"
  shows "\<exists>c' rest. comsume env buf (of_nat BUF_SIZE) dl c = Some (kOk, of_nat (length m), m @ rest, c') \<and>
    consumer_holds ms c' \<and> length m + length rest = BUF_SIZE \<and> (\<exists>q. c' = c\<lparr>c_mq := Some q\<rparr>)"
proof -
  obtain q where q: "c_mq c = Some q" "client_queue EX_BLOCK BUF_SIZE (m # ms) q"
    using assms(1) by (auto simp: consumer_holds_def)
  note C = client_queueD [OF q(2)]
  have m: "length m + 4 \<le> BUF_SIZE" using C(5) by simp
  have "dequeue env buf (of_nat BUF_SIZE) dl q = Some (kOk, of_nat (length m), blit 0 (m @ magic) buf, after_first m q)"
    using holds_dequeue [OF C(1), of buf "of_nat BUF_SIZE" env dl] m buf_size assms(2) by simp
  moreover have "msgCount (seg q) \<noteq> 0" using counted_zero [OF C(1,2)] by simp
  moreover have "blit 0 (m @ magic) buf = m @ (magic @ drop (length m + 4) buf)" by (simp add: blit_def)
  moreover have "client_queue EX_BLOCK BUF_SIZE ms (after_first m q)" by (rule receive_first(2) [OF q(2)])
  ultimately show ?thesis
    using q(1) m assms(2) mq_okD(1) [OF holdsD(1) [OF C(1)]]
    by (auto simp: comsume_def isEmpty_def consumer_holds_def)
qed

lemma comsume_none:
  assumes "consumer_holds [] c"
  shows "comsume env buf sz dl c = Some (kErrShmMQEmpty, dl, buf, c)"
proof -
  obtain q where q: "c_mq c = Some q" "client_queue EX_BLOCK BUF_SIZE [] q" using assms by (auto simp: consumer_holds_def)
  then show ?thesis
    using client_queueD(2) [OF q(2)] mq_okD(1) [OF holdsD(1) [OF client_queueD(1) [OF q(2)]]]
    by (simp add: comsume_def isEmpty_def counted_def)
qed

interpretation single_p: queue_producer producer_holds "produce env" EX_BLOCK for env
  using produce_room by unfold_locales blast

text \<open>The lock is granted on the descriptor of the object, which no call changes.\<close>

definition lock_producer_holds :: "lock_env \<Rightarrow> bytes list \<Rightarrow> ShmMQLockProducer \<Rightarrow> bool" where
  "lock_producer_holds le ms p \<longleftrightarrow> flock_ex le (p_mfd p) \<and> producer_holds ms p"

definition lock_consumer_holds :: "lock_env \<Rightarrow> bytes list \<Rightarrow> ShmMQLockComsumer \<Rightarrow> bool" where
  "lock_consumer_holds le ms c \<longleftrightarrow> flock_ex le (c_mfd c) \<and> consumer_holds ms c"

interpretation multi_p: queue_producer "lock_producer_holds le" "lock_produce le env" EX_BLOCK for le env
proof unfold_locales
  fix ms p and m :: bytes
  assume h: "lock_producer_holds le ms p" "length m \<le> 45" "space msg_cost ms + msg_cost m < EX_BLOCK"
  then show "\<exists>p'. lock_produce le env m (of_nat (length m)) p = Some (kOk, p') \<and> lock_producer_holds le (ms @ [m]) p'"
    using produce_room [of ms p m env] by (auto simp: lock_producer_holds_def lock_produce_def)
qed

interpretation single_c: queue_consumer consumer_holds "comsume env" for env
proof unfold_locales
  fix m ms and buf :: bytes and dl and c :: "'a ShmMQComsumer_scheme"
  assume "consumer_holds (m # ms) c" "length buf = BUF_SIZE"
  then show "\<exists>c' rest. comsume env buf (of_nat BUF_SIZE) dl c = Some (kOk, of_nat (length m), m @ rest, c') \<and>
      consumer_holds ms c' \<and> length m + length rest = BUF_SIZE"
    using comsume_first by blast
qed (rule comsume_none)

interpretation multi_c: queue_consumer "lock_consumer_holds le" "lock_comsume le env" for le env
proof unfold_locales
  fix m ms and buf :: bytes and dl c
  assume h: "lock_consumer_holds le (m # ms) c" "length buf = BUF_SIZE"
  then obtain c' rest where "comsume env buf (of_nat BUF_SIZE) dl c = Some (kOk, of_nat (length m), m @ rest, c')"
    "consumer_holds ms c'" "length m + length rest = BUF_SIZE" "\<exists>q. c' = c\<lparr>c_mq := Some q\<rparr>"
    using comsume_first [of m ms c buf env dl] by (auto simp: lock_consumer_holds_def)
  then show "\<exists>c' rest. lock_comsume le env buf (of_nat BUF_SIZE) dl c = Some (kOk, of_nat (length m), m @ rest, c') \<and>
      lock_consumer_holds le ms c' \<and> length m + length rest = BUF_SIZE"
    using h(1) by (auto simp: lock_consumer_holds_def lock_comsume_def)
next
  fix buf :: bytes and dl c
  assume "lock_consumer_holds le [] c"
  then show "lock_comsume le env buf (of_nat BUF_SIZE) dl c = Some (kErrShmMQEmpty, dl, buf, c)"
    by (simp add: lock_consumer_holds_def lock_comsume_def comsume_none)
qed

subsection \<open>Opening\<close>

text \<open>The segment of the key is \<open>s\<close>, new or not.\<close>

definition attaches :: "mq_services \<Rightarrow> u32 \<Rightarrow> mq_seg \<Rightarrow> bool" where
  "attaches svc key s \<longleftrightarrow> (\<exists>i. mq_attach svc i = Some s \<and>
     (mq_create svc key (SHM_SIZE + 8) = Inr i \<or>
      mq_create svc key (SHM_SIZE + 8) = Inl EEXIST \<and> mq_open svc key = Some i))"

definition attaches_old :: "mq_services \<Rightarrow> u32 \<Rightarrow> mq_seg \<Rightarrow> bool" where
  "attaches_old svc key s \<longleftrightarrow> (\<exists>i. mq_attach svc i = Some s \<and>
     mq_create svc key (SHM_SIZE + 8) = Inl EEXIST \<and> mq_open svc key = Some i)"

lemma block_size: "SHM_SIZE - 4 * 2 - 4 = of_nat EX_BLOCK" "unat (SHM_SIZE - 4 * 2 - 4) = EX_BLOCK"
  by (simp_all add: SHM_SIZE_def)

lemma init_any:
  assumes "attaches svc key s" "length (block s) = EX_BLOCK"
  shows "\<exists>q. mq_init svc key SHM_SIZE ShmMQ = (kOk, q) \<and> isInit q \<and> client_queue EX_BLOCK BUF_SIZE [] (cleared q)"
  using assms block_size buf_size
  by (auto simp: attaches_def mq_init_def getmemory_def attach_id_def mq_fini_def ShmMQ_def Let_def client_queue_def holds_def
      mq_ok_def counted_def cleared_def ring_pos_def ring_read_def)

lemma init_old:
  assumes "attaches_old svc key (seg q1)" "client_queue EX_BLOCK BUF_SIZE ms q1"
  shows "\<exists>q. mq_init svc key SHM_SIZE ShmMQ = (kOk, q) \<and> client_queue EX_BLOCK BUF_SIZE ms q"
proof -
  note C = client_queueD [OF assms(2)]
  have "SHM_SIZE = blockSize q1 + 12"
    using C(3) by (simp add: word_unat_eq_iff SHM_SIZE_def unat_plus)
  then obtain q where "mq_init svc key SHM_SIZE ShmMQ = (kOk, q)" "holds ms q" "seg q = (seg q1)\<lparr>q_pid := 0\<rparr>" "blockSize q = blockSize q1"
    using init_opens_queue [OF _ _ _ C(1), of svc key SHM_SIZE _ ShmMQ] assms(1) by (auto simp: attaches_old_def)
  then show ?thesis using C by (simp add: client_queue_def counted_def)
qed

end
