(* ===== verification/Ex_Props.thy ===== *)
theory Ex_Props
  imports Ex_Queue_Spec
begin

text \<open>
  The properties of the example programs of \<^verbatim>\<open>src/example\<close>, with witnesses on a new segment.
\<close>

subsection \<open>A new queue\<close>

definition new_seg :: mq_seg where
  "new_seg = \<lparr>msgCount = 0, processCount = 0, q_head = 0, q_tail = 0, q_pid = 0, block = replicate (BUF_SIZE - 12) 0\<rparr>"

definition new_svc :: mq_services where
  "new_svc = \<lparr>mq_create = (\<lambda>_ _. Inr 7), mq_open = (\<lambda>_. Some 7), mq_attach = (\<lambda>_. Some new_seg)\<rparr>"

text \<open>The system calls of a process that is started when the segment holds \<open>s\<close>.\<close>

definition later_svc :: "mq_seg \<Rightarrow> mq_services" where
  "later_svc s = \<lparr>mq_create = (\<lambda>_ _. Inl EEXIST), mq_open = (\<lambda>_. Some 7), mq_attach = (\<lambda>_. Some s)\<rparr>"

definition one_proc :: proc_env where "one_proc = \<lparr>getpid = 42, kill0 = (\<lambda>_. None)\<rparr>"

definition one_lock :: lock_env where "one_lock = \<lparr>open_file = (\<lambda>_. 3), flock_ex = (\<lambda>_. True)\<rparr>"

lemma new_seg: "length (block new_seg) = EX_BLOCK" "attaches new_svc key new_seg"
  by (simp_all add: new_seg_def new_svc_def attaches_def BUF_SIZE_def)

lemma later_svc: "attaches_old (later_svc s) key s"
  by (simp add: attaches_old_def later_svc_def)

subsection \<open>Producers\<close>

lemma single_start:
  assumes "attaches svc SINGLE_KEY s" "length (block s) = EX_BLOCK"
  shows "\<exists>p. single_producer svc env rand world = producer_loop (produce env) rand world 0 p \<and> producer_holds [] p"
proof -
  obtain q where q: "mq_init svc SINGLE_KEY SHM_SIZE ShmMQ = (kOk, q)" "isInit q" "client_queue EX_BLOCK BUF_SIZE [] (cleared q)"
    using init_any [OF assms] by blast
  then have "single_producer svc env rand world = producer_loop (produce env) rand world 0 (producer_new\<lparr>p_mq := Some (cleared q)\<rparr>)"
    by (simp add: single_producer_def producer_main_def producer_init_def producer_clearMQ_def producer_fini_def producer_new_def
        clearMQ_cleared)
  then show ?thesis using q(3) by (auto simp: producer_holds_def)
qed

lemma multi_start:
  assumes "attaches svc MULTI_KEY s" "length (block s) = EX_BLOCK"
    and "0 \<le> open_file le (lock_file (ascii ''./'') ''producer'' MULTI_KEY)"
      "flock_ex le (open_file le (lock_file (ascii ''./'') ''producer'' MULTI_KEY))"
  shows "\<exists>p. multi_producer le svc env rand world = producer_loop (lock_produce le env) rand world 0 p \<and>
    lock_producer_holds le [] p"
proof -
  obtain q where q: "mq_init svc MULTI_KEY SHM_SIZE ShmMQ = (kOk, q)" "isInit q" "client_queue EX_BLOCK BUF_SIZE [] (cleared q)"
    using init_any [OF assms(1,2)] by blast
  let ?p = "\<lparr>p_mq = Some (cleared q), p_mfd = open_file le (lock_file (ascii ''./'') ''producer'' MULTI_KEY)\<rparr>"
  have "multi_producer le svc env rand world = producer_loop (lock_produce le env) rand world 0 ?p"
    using q assms(3,4)
    by (simp add: multi_producer_def producer_main_def lock_producer_init_def lock_producer_fini_def lock_producer_clearMQ_def
        producer_init_def producer_clearMQ_def producer_fini_def lock_producer_new_def clearMQ_cleared Let_def)
  then show ?thesis using q(3) assms(4) by (auto simp: lock_producer_holds_def producer_holds_def)
qed

lemma rounds_fit: "57 * ROUNDS < EX_BLOCK"
  by (simp add: ROUNDS_def)

text \<open>
  The example producers, with and without a lock file, never fail once their segment and
  lock file are open, whatever an older segment holds and whatever consumers take from the
  queue meanwhile: they print the 10000 messages that \<^verbatim>\<open>rand\<close> makes.
\<close>

theorem ex_producers_never_fail:
  assumes "attaches svc SINGLE_KEY s" "attaches svc MULTI_KEY s'" "length (block s) = EX_BLOCK" "length (block s') = EX_BLOCK"
    and "0 \<le> open_file le (lock_file (ascii ''./'') ''producer'' MULTI_KEY)"
      "flock_ex le (open_file le (lock_file (ascii ''./'') ''producer'' MULTI_KEY))"
    and "\<And>k ms p. producer_holds ms p \<Longrightarrow> \<exists>j. producer_holds (drop j ms) (world k p)"
    and "\<And>k ms p. lock_producer_holds le ms p \<Longrightarrow> \<exists>j. lock_producer_holds le (drop j ms) (world' k p)"
  shows "map_option fst (single_producer svc env rand world) = Some (map (\<lambda>i. sent_line (message (rand i))) [0..<ROUNDS]) \<and>
    map_option fst (multi_producer le svc env rand world') = Some (map (\<lambda>i. sent_line (message (rand i))) [0..<ROUNDS])"
proof -
  obtain p where p: "single_producer svc env rand world = producer_loop (produce env) rand world 0 p" "producer_holds [] p"
    using single_start [OF assms(1,3)] by blast
  obtain p' where p': "multi_producer le svc env rand world' = producer_loop (lock_produce le env) rand world' 0 p'"
    "lock_producer_holds le [] p'" using multi_start [OF assms(2,4,5,6)] by blast
  have "\<exists>p1 j. producer_loop (produce env) rand world 0 p = Some (map (\<lambda>i. sent_line (message (rand i))) [0..<ROUNDS], p1) \<and>
      producer_holds (drop j ([] @ map (\<lambda>i. message (rand i)) [0..<ROUNDS])) p1 \<and> (False \<longrightarrow> j = 0)"
    by (rule single_p.loop_prints [OF _ rounds_fit p(2)]) (use assms(7) in auto)
  moreover have "\<exists>p1 j. producer_loop (lock_produce le env) rand world' 0 p' = Some (map (\<lambda>i. sent_line (message (rand i))) [0..<ROUNDS], p1) \<and>
      lock_producer_holds le (drop j ([] @ map (\<lambda>i. message (rand i)) [0..<ROUNDS])) p1 \<and> (False \<longrightarrow> j = 0)"
    by (rule multi_p.loop_prints [OF _ rounds_fit p'(2)]) (use assms(8) in auto)
  ultimately show ?thesis using p(1) p'(1) by auto
qed

theorem ex_producers_never_fail_witness:
  "map_option fst (multi_producer one_lock new_svc one_proc (\<lambda>i. i) (\<lambda>_ p. p)) =
   Some (map (\<lambda>i. sent_line (message i)) [0..<ROUNDS])"
proof -
  have "map_option fst (single_producer new_svc one_proc (\<lambda>i. i) (\<lambda>_ p. p)) = Some (map (\<lambda>i. sent_line (message i)) [0..<ROUNDS]) \<and>
    map_option fst (multi_producer one_lock new_svc one_proc (\<lambda>i. i) (\<lambda>_ p. p)) = Some (map (\<lambda>i. sent_line (message i)) [0..<ROUNDS])"
  proof (rule ex_producers_never_fail [OF new_seg(2,2) new_seg(1,1)])
    show "0 \<le> open_file one_lock (lock_file (ascii ''./'') ''producer'' MULTI_KEY)"
      "flock_ex one_lock (open_file one_lock (lock_file (ascii ''./'') ''producer'' MULTI_KEY))"
      by (simp_all add: one_lock_def)
    show "\<exists>j. producer_holds (drop j ms) p" if "producer_holds ms p" for ms and p :: ShmMQProducer
      using that by (intro exI [of _ 0]) simp
    show "\<exists>j. lock_producer_holds one_lock (drop j ms) p" if "lock_producer_holds one_lock ms p" for ms p
      using that by (intro exI [of _ 0]) simp
  qed
  then show ?thesis by blast
qed

subsection \<open>Consumers\<close>

lemma comsumer_starts:
  assumes "attaches_old svc SINGLE_KEY (seg q)" "client_queue EX_BLOCK BUF_SIZE ms q"
  shows "\<exists>c. single_consumer svc env world n =
      map_option (\<lambda>(out, t, buf, dl, c). (out, c)) (consumer_rounds (comsume env) world n (0, replicate BUF_SIZE 0, 0, c)) \<and>
    consumer_holds ms c"
proof -
  obtain q' where q': "mq_init svc SINGLE_KEY SHM_SIZE ShmMQ = (kOk, q')" "client_queue EX_BLOCK BUF_SIZE ms q'"
    using init_old [OF assms] by blast
  let ?c = "\<lparr>c_mq = Some q'\<rparr>"
  have "single_consumer svc env world n =
      map_option (\<lambda>(out, t, buf, dl, c). (out, c)) (consumer_rounds (comsume env) world n (0, replicate BUF_SIZE 0, 0, ?c))"
    using q'(1)
    by (cases "consumer_rounds (comsume env) world n (0, replicate BUF_SIZE 0, 0, ?c)")
      (auto simp: single_consumer_def consumer_main_def comsumer_init_def comsumer_fini_def comsumer_new_def)
  then show ?thesis using q'(2) by (auto simp: consumer_holds_def)
qed

text \<open>
  C38: An example consumer that opens a queue holding the messages \<open>ms\<close>, while other processes
  append the messages \<open>new t\<close> at each time \<open>t\<close> before \<open>T\<close> (a schedule that never overfills the
  queue: at each time the backlog fits into it), has printed after more than \<open>T\<close> rounds every
  message exactly once and in order; its loop over the queue ends in each round and the queue is
  empty.
\<close>

theorem ex_consumer_prints_all:
  assumes "attaches_old svc SINGLE_KEY (seg q)" "client_queue EX_BLOCK BUF_SIZE ms q" "T < n"
    and "\<And>t ms c. consumer_holds ms c \<Longrightarrow> space msg_cost (ms @ new t) < EX_BLOCK \<Longrightarrow> consumer_holds (ms @ new t) (world t c)"
    and "\<And>t. space msg_cost (backlog ms new t) < EX_BLOCK" and "\<And>t. T \<le> t \<Longrightarrow> new t = []"
  shows "\<exists>out c. single_consumer svc env world n = Some (out, c) \<and>
    filter is_message out = map received_line (ms @ concat (map new [0..<T])) \<and> consumer_holds [] c"
proof -
  obtain c where c: "single_consumer svc env world n =
      map_option (\<lambda>(out, t, buf, dl, c). (out, c)) (consumer_rounds (comsume env) world n (0, replicate BUF_SIZE 0, 0, c))"
    "consumer_holds ms c" using comsumer_starts [OF assms(1,2)] by blast
  have buf: "length (replicate BUF_SIZE (0 :: byte)) = BUF_SIZE" by (rule length_replicate)
  have start: "ms = backlog ms new 0" by simp
  from single_c.rounds_print [where new = new and world = world and T = T and fit = "\<lambda>xs. space msg_cost xs < EX_BLOCK",
      OF assms(4-6) c(2) start buf]
  obtain out t' buf' dl' c' left where r: "consumer_rounds (comsume env) world n (0, replicate BUF_SIZE 0, 0, c) = Some (out, t', buf', dl', c')"
    "map received_line (ms @ concat (map new [0..<t'])) = filter is_message out @ map received_line left"
    "0 + n \<le> t'" "consumer_holds left c'" "if n = 0 then t' = 0 \<and> left = ms else left = new (t' - 1)" by blast
  have left: "left = []" using r(3,5) assms(3) assms(6) [of "t' - 1"] by simp
  have "[0..<t'] = [0..<T] @ [T..<t']" using upt_add_eq_append [of 0 T "t' - T"] assms(3) r(3) by simp
  moreover have "concat (map new [T..<t']) = []" using assms(6) by simp
  ultimately have "concat (map new [0..<t']) = concat (map new [0..<T])" by simp
  then have "filter is_message out = map received_line (ms @ concat (map new [0..<T]))" using r(2) left by simp
  then show ?thesis using c(1) r(1,4) left by simp
qed

text \<open>Another process that appends one message at time 0, by \<^verbatim>\<open>produce\<close>.\<close>

definition appends_once :: "nat \<Rightarrow> ShmMQComsumer \<Rightarrow> ShmMQComsumer" where
  "appends_once t c =
     (if t = 0
      then case produce one_proc [7, 8] (of_nat (length [7, 8 :: byte])) \<lparr>p_mq = c_mq c\<rparr> of
             Some (_, p) \<Rightarrow> c\<lparr>c_mq := p_mq p\<rparr>
           | None \<Rightarrow> c
      else c)"

lemma appends_once:
  assumes "consumer_holds ms c" "space msg_cost (ms @ (if t = 0 then [[7, 8]] else [])) < EX_BLOCK"
  shows "consumer_holds (ms @ (if t = 0 then [[7, 8]] else [])) (appends_once t c)"
proof (cases "t = 0")
  case True
  have "producer_holds ms \<lparr>p_mq = c_mq c\<rparr>" using assms(1) by (auto simp: consumer_holds_def producer_holds_def)
  from produce_room [OF this, of "[7, 8]" one_proc] show ?thesis
    using True assms(2) by (auto simp: appends_once_def consumer_holds_def producer_holds_def)
qed (use assms(1) in \<open>simp add: appends_once_def\<close>)

theorem ex_consumer_prints_all_witness:
  "\<exists>q out c. client_queue EX_BLOCK BUF_SIZE [[5, 6]] q \<and>
    single_consumer (later_svc (seg q)) one_proc appends_once 2 = Some (out, c) \<and>
    filter is_message out = [Consumed [5, 6] 2, Consumed [7, 8] 2]"
proof -
  obtain p :: ShmMQProducer where "producer_holds [] p" using single_start [OF new_seg(2,1), of one_proc "\<lambda>i. i" "\<lambda>_ p. p"] by blast
  then obtain p' :: ShmMQProducer where "producer_holds [[5, 6]] p'"
    using produce_room [of "[]" p "[5, 6]" one_proc] by (auto simp: msg_cost_def)
  then obtain q where q: "client_queue EX_BLOCK BUF_SIZE [[5, 6]] q" by (auto simp: producer_holds_def)
  let ?new = "\<lambda>t :: nat. if t = 0 then [[7, 8 :: byte]] else []"
  have later: "backlog [[5, 6]] ?new (Suc (Suc t)) = []" for t by (induction t) simp_all
  have fits: "space msg_cost (backlog [[5, 6]] ?new t) < EX_BLOCK" for t
  proof (cases t)
    case (Suc t')
    then show ?thesis using later by (cases t') (simp_all add: msg_cost_def)
  qed (simp add: msg_cost_def)
  have "\<exists>out c. single_consumer (later_svc (seg q)) one_proc appends_once 2 = Some (out, c) \<and>
      filter is_message out = map received_line ([[5, 6]] @ concat (map ?new [0..<1])) \<and> consumer_holds [] c"
    by (rule ex_consumer_prints_all [OF later_svc q _ appends_once fits]) simp_all
  then show ?thesis using q by (fastforce simp: received_line_def c_str_def)
qed

text \<open>
  C39: The example producer, left alone with its queue, followed by the example consumer: the
  consumer prints in its first round exactly the 10000 messages of the producer, in their
  order, and then that the queue is empty.
\<close>

theorem ex_pipeline:
  assumes "attaches svc SINGLE_KEY s" "length (block s) = EX_BLOCK"
  shows "\<exists>p q c. single_producer svc env rand (\<lambda>_ p. p) = Some (map (\<lambda>i. sent_line (message (rand i))) [0..<ROUNDS], p) \<and>
    p_mq p = Some q \<and>
    single_consumer (later_svc (seg q)) env' (\<lambda>_ c. c) 1 =
      Some (map (\<lambda>i. received_line (message (rand i))) [0..<ROUNDS] @ [Queue_empty], c)"
proof -
  obtain p0 where p0: "single_producer svc env rand (\<lambda>_ p. p) = producer_loop (produce env) rand (\<lambda>_ p. p) 0 p0" "producer_holds [] p0"
    using single_start [OF assms] by blast
  have "\<exists>p j. producer_loop (produce env) rand (\<lambda>_ p. p) 0 p0 = Some (map (\<lambda>i. sent_line (message (rand i))) [0..<ROUNDS], p) \<and>
      producer_holds (drop j ([] @ map (\<lambda>i. message (rand i)) [0..<ROUNDS])) p \<and> (True \<longrightarrow> j = 0)"
    by (rule single_p.loop_prints [OF _ rounds_fit p0(2)]) (auto intro: exI [of _ 0])
  then obtain p where p: "single_producer svc env rand (\<lambda>_ p. p) = Some (map (\<lambda>i. sent_line (message (rand i))) [0..<ROUNDS], p)"
    "producer_holds (map (\<lambda>i. message (rand i)) [0..<ROUNDS]) p" using p0(1) by auto
  then obtain q where q: "p_mq p = Some q" "client_queue EX_BLOCK BUF_SIZE (map (\<lambda>i. message (rand i)) [0..<ROUNDS]) q"
    by (auto simp: producer_holds_def)
  obtain c where c: "single_consumer (later_svc (seg q)) env' (\<lambda>_ c. c) 1 =
      map_option (\<lambda>(out, t, buf, dl, c). (out, c)) (consumer_rounds (comsume env') (\<lambda>_ c. c) 1 (0, replicate BUF_SIZE 0, 0, c))"
    "consumer_holds (map (\<lambda>i. message (rand i)) [0..<ROUNDS]) c"
    using comsumer_starts [OF later_svc q(2)] by blast
  have "\<exists>t buf dl c'. drain (comsume env') (\<lambda>_ c. c) (0, replicate BUF_SIZE 0, 0, c) =
      Some (map received_line (map (\<lambda>i. message (rand i)) [0..<ROUNDS] @ concat (map (\<lambda>_. []) [0..<t])) @ [Queue_empty],
        True, t, buf, dl, c') \<and> 0 \<le> t \<and> length buf = BUF_SIZE \<and> consumer_holds [] c' \<and>
      backlog (map (\<lambda>i. message (rand i)) [0..<ROUNDS]) (\<lambda>_. []) t = []"
    by (rule single_c.drain_prints [where T = 0 and fit = "\<lambda>_. True", OF _ _ _ c(2) _ length_replicate]) simp_all
  then obtain t buf dl c' where "drain (comsume env') (\<lambda>_ c. c) (0, replicate BUF_SIZE 0, 0, c) =
      Some (map received_line (map (\<lambda>i. message (rand i)) [0..<ROUNDS] @ concat (map (\<lambda>_. []) [0..<t])) @ [Queue_empty],
        True, t, buf, dl, c')" by blast
  then have "single_consumer (later_svc (seg q)) env' (\<lambda>_ c. c) 1 =
      Some (map (\<lambda>i. received_line (message (rand i))) [0..<ROUNDS] @ [Queue_empty], c')"
    using c(1) by (simp add: comp_def)
  then show ?thesis using p(1) q(1) by blast
qed

theorem ex_pipeline_witness:
  "\<exists>p q c. single_producer new_svc one_proc (\<lambda>i. 3 * i) (\<lambda>_ p. p) = Some (map (\<lambda>i. sent_line (message (3 * i))) [0..<ROUNDS], p) \<and>
    p_mq p = Some q \<and>
    single_consumer (later_svc (seg q)) one_proc (\<lambda>_ c. c) 1 =
      Some (map (\<lambda>i. received_line (message (3 * i))) [0..<ROUNDS] @ [Queue_empty], c)"
  using ex_pipeline [OF new_seg(2,1), of one_proc "\<lambda>i. 3 * i" one_proc] by auto

end
