(* ===== verification/Ex_Table.thy ===== *)
theory Ex_Table
  imports Mrsw_Spec
begin

text \<open>
  The programs \<^verbatim>\<open>hashtable_writer.cc\<close> and \<^verbatim>\<open>hashtable_reader.cc\<close> of \<^verbatim>\<open>src/example\<close>, as the list of
  the lines they print and the object they leave. \<^verbatim>\<open>rand\<close> is a sequence of numbers. While the
  writer sleeps the other processes only read the table. The arguments of the reader are the
  strings after the name of the program; reading an argument that is not there, and a
  negative index into the slots, is \<open>None\<close>.
\<close>

subsection \<open>The writer\<close>

datatype writer_event =
    Writer_init_failed ErrorCode
  | Writer_clear_failed ErrorCode
  | Delete_failed bytes ErrorCode
  | Delete_line bytes
  | Set_failed bytes bytes ErrorCode
  | Set_line bytes bytes

text \<open>\<^verbatim>\<open>snprintf(keyStr, 128, "key%d", i)\<close> and the same for the value.\<close>

definition keyStr :: "nat \<Rightarrow> bytes" where
  "keyStr i = take 127 (map of_char ''key'' @ print_nat i)"

definition valStr :: "nat \<Rightarrow> bytes" where
  "valStr i = take 127 (map of_char ''value'' @ print_nat i)"

definition WRITER_SLOTS :: int where "WRITER_SLOTS = 500"

definition WRITER_ROUNDS :: nat where "WRITER_ROUNDS = 10000"

function writer_loop ::
    "mrsw_env \<Rightarrow> (nat \<Rightarrow> nat) \<Rightarrow> nat \<Rightarrow> nat \<Rightarrow> bool \<Rightarrow> mrsw \<Rightarrow> writer_event list \<times> mrsw" where
  "writer_loop env rand index lastSet lastIsDelete m =
     (if index < WRITER_ROUNDS
      then if rand index mod 2 = 0 \<and> lastIsDelete = False
           then case deleteKey (keyStr lastSet) m of
                  (ret, m) \<Rightarrow>
                    if ret \<noteq> kOk then ([Delete_failed (keyStr lastSet) ret], m)
                    else case writer_loop env rand (index + 1) lastSet True m of
                           (out, m) \<Rightarrow> (Delete_line (keyStr lastSet) # out, m)
           else case setValue env (keyStr index) (valStr index) m of
                  (ret, m) \<Rightarrow>
                    if ret \<noteq> kOk then ([Set_failed (keyStr index) (valStr index) ret], m)
                    else case writer_loop env rand (index + 1) index False m of
                           (out, m) \<Rightarrow> (Set_line (keyStr index) (valStr index) # out, m)
      else ([], m))"
  by pat_completeness auto
termination
  by (relation "measure (\<lambda>(env, rand, index, lastSet, lastIsDelete, m). WRITER_ROUNDS - index)") auto

declare writer_loop.simps [simp del]

definition hashtable_writer ::
    "shm_services \<Rightarrow> mrsw_env \<Rightarrow> (nat \<Rightarrow> nat) \<Rightarrow> qenv \<Rightarrow> writer_event list \<times> mrsw" where
  "hashtable_writer svc env rand t =
     (case MrswHashtable_init svc env WRITER_SLOTS True (MrswHashtable t) of
        (ret, m) \<Rightarrow>
          if ret \<noteq> kOk then ([Writer_init_failed ret], m)
          else case clearTable m of
                 (ret, m) \<Rightarrow>
                   if ret \<noteq> kOk then ([Writer_clear_failed ret], m)
                   else writer_loop env rand 0 0 False m)"

subsection \<open>The reader\<close>

datatype reader_event =
    Usage
  | Unknown_command
  | Reader_init_failed ErrorCode
  | Get_failed bytes ErrorCode
  | Get_line bytes bytes
  | Exist_failed bytes ErrorCode
  | Exist_line bytes bool
  | Next_failed nat
  | Next_line bytes bytes
  | Stats_failed
  | Stats_line int int int

definition READER_SLOTS :: int where "READER_SLOTS = 800000"

definition printf_s :: "bytes \<Rightarrow> bytes" where
  "printf_s s = takeWhile (\<lambda>b. b \<noteq> 0) s"

definition reader_get :: "mrsw_env \<Rightarrow> bytes \<Rightarrow> mrsw \<Rightarrow> reader_event list \<times> mrsw" where
  "reader_get env key m =
     (case getValue env key [] m of
        (ret, val, m) \<Rightarrow> ([if ret \<noteq> kOk then Get_failed key ret else Get_line key (printf_s val)], m))"

definition reader_ex :: "bytes \<Rightarrow> mrsw \<Rightarrow> reader_event list \<times> mrsw" where
  "reader_ex key m =
     (case isExist key False m of
        (ret, ex, m) \<Rightarrow> ([if ret \<noteq> kOk then Exist_failed key ret else Exist_line key ex], m))"

lemma getNext_progress:
  assumes "getNext env key val idx m = (kOk, key', val', idx', m')"
  shows "idx < idx'" "int idx < maxslots (shm m)" "maxslots (shm m') = maxslots (shm m)"
proof -
  show "idx < idx'" using getNextKVPair_index assms by (simp add: getNext_def)
  obtain obj t where n: "qhasharr_getnext (e_alloc env) (m_table m) idx (shm m) = (Some obj, idx', t)" "shm m' = t"
    using assms by (auto simp: getNext_def getNextKVPair_def Let_def split: if_splits prod.splits option.splits)
  have "int idx < maxslots t \<and> maxslots t' = maxslots t" if "getnext_loop alloc t idx = (Some obj, idx', t')" for alloc t idx t'
    using that
  proof (induction alloc t idx rule: getnext_loop.induct)
    case (1 alloc t idx)
    note run = "1.prems" [unfolded getnext_loop.simps [of alloc t idx]]
    show ?case
    proof (cases "int idx < maxslots t \<and> (s_count (slot_at t idx) = 0 \<or> s_count (slot_at t idx) = -2)")
      case True
      then have "getnext_loop alloc t (idx + 1) = (Some obj, idx', t')" using run by simp
      then show ?thesis using "1.IH" True by simp
    next
      case False
      have "maxslots (snd (get_data alloc t i)) = maxslots t" for i by (simp add: get_data_def split: option.split)
      then have "get_data alloc t i = (r, t1) \<Longrightarrow> maxslots t1 = maxslots t" for i r t1 by (metis snd_conv)
      then show ?thesis using run False by (auto simp: Let_def split: if_splits option.splits prod.splits)
    qed
  qed
  then show "int idx < maxslots (shm m)" "maxslots (shm m') = maxslots (shm m)"
    using n by (auto simp: qhasharr_getnext_def split: if_splits)
qed

lemma getNext_decreases:
  assumes "getNext env key val idx m = (kOk, key', val', idx', m')"
  shows "nat (maxslots (shm m')) - idx' < nat (maxslots (shm m)) - idx"
  using getNext_progress [OF assms] by simp

function reader_pr :: "mrsw_env \<Rightarrow> bytes \<Rightarrow> bytes \<Rightarrow> nat \<Rightarrow> mrsw \<Rightarrow> reader_event list \<times> mrsw" where
  "reader_pr env key val index m =
     (case getNext env key val index m of
        (ret, key, val, index, m) \<Rightarrow>
          if ret \<noteq> kOk \<and> ret \<noteq> kErrTraverseTableEnd then ([Next_failed index], m)
          else if ret \<noteq> kErrTraverseTableEnd
          then case reader_pr env key val index m of
                 (out, m) \<Rightarrow> (Next_line (printf_s key) (printf_s val) # out, m)
          else ([], m))"
  by pat_completeness auto
termination
  by (relation "measure (\<lambda>(env, key, val, index, m). nat (maxslots (shm m)) - index)")
    (auto intro: getNext_decreases [OF sym])

declare reader_pr.simps [simp del]

definition reader_st :: "mrsw \<Rightarrow> reader_event list \<times> mrsw" where
  "reader_st m =
     (case getStats m of
        (Some (maxSlots, usedSlots, usedKeys), ret) \<Rightarrow>
          ([if ret \<noteq> kOk then Stats_failed else Stats_line maxSlots usedSlots usedKeys], m)
      | (None, ret) \<Rightarrow> ([Stats_failed], m))"

text \<open>\<open>index\<close> is what the uninitialised variable of the branch \<^verbatim>\<open>pr\<close> holds.\<close>

definition hashtable_reader ::
    "shm_services \<Rightarrow> mrsw_env \<Rightarrow> bytes list \<Rightarrow> int \<Rightarrow> qenv \<Rightarrow> (reader_event list \<times> mrsw) option" where
  "hashtable_reader svc env args index t =
     (let usage = (if length args < 1 then [Usage] else [])
      in case MrswHashtable_init svc env READER_SLOTS True (MrswHashtable t) of
           (ret, m) \<Rightarrow>
             if ret \<noteq> kOk then Some (usage @ [Reader_init_failed ret], m)
             else case args of
                    [] \<Rightarrow> None
                  | cmd # rest \<Rightarrow>
                      if cmd = map of_char ''get''
                      then (case rest of
                              [] \<Rightarrow> Some ([Unknown_command, Usage], m)
                            | key # _ \<Rightarrow> Some (reader_get env key m))
                      else if cmd = map of_char ''ex''
                      then (case rest of
                              [] \<Rightarrow> Some ([Unknown_command, Usage], m)
                            | key # _ \<Rightarrow> Some (reader_ex key m))
                      else if cmd = map of_char ''pr''
                      then (if index < 0 then None else Some (reader_pr env [] [] (nat index) m))
                      else if cmd = map of_char ''st'' then Some (reader_st m)
                      else Some ([Unknown_command, Usage], m))"

end
