(* ===== verification/Ex_Table_Spec.thy ===== *)
theory Ex_Table_Spec
  imports Ex_Table Mrsw_Reopen
begin

text \<open>
  The example writer of a hash table never fails and leaves a well-formed table; a reader that
  is started later prints what the table holds.
\<close>

subsection \<open>Keys and values\<close>

lemma print_nat_length: "i < 10 ^ Suc n \<Longrightarrow> length (print_nat i) \<le> Suc n"
proof (induction n arbitrary: i)
  case (Suc n)
  then have "i div 10 < 10 ^ Suc n" by (simp add: div_less_iff_less_mult)
  then show ?case using Suc.IH [of "i div 10"] by (subst print_nat.simps) auto
qed (simp add: print_nat.simps)

lemma print_nat_nul: "0 \<notin> set (print_nat i)"
  using print_nat_digits [of i] by (auto simp: is_digit_def)

lemma example_text:
  assumes "i < WRITER_ROUNDS"
  shows "keyStr i = map of_char ''key'' @ print_nat i" "valStr i = map of_char ''value'' @ print_nat i"
    "length (keyStr i) \<le> 7" "length (valStr i) \<le> 9" "printf_s (valStr i) = valStr i" "good_key (keyStr i)"
proof -
  have len: "length (print_nat i) \<le> 4" using print_nat_length [of i 3] assms by (simp add: WRITER_ROUNDS_def)
  show k: "keyStr i = map of_char ''key'' @ print_nat i" and v: "valStr i = map of_char ''value'' @ print_nat i"
    using len by (simp_all add: keyStr_def valStr_def)
  show "length (keyStr i) \<le> 7" "length (valStr i) \<le> 9" using len by (simp_all add: k v)
  then show "good_key (keyStr i)" by (simp add: good_key_def k)
  have "(0 :: byte) \<notin> set (map of_char ''value'')" by code_simp
  then have "0 \<notin> set (valStr i)" using print_nat_nul [of i] by (simp add: v)
  then show "printf_s (valStr i) = valStr i" by (auto simp: printf_s_def takeWhile_eq_all_conv)
qed

lemma keyStr_inj:
  assumes "i < WRITER_ROUNDS" "j < WRITER_ROUNDS" "keyStr i = keyStr j"
  shows "i = j"
proof -
  have "print_nat i = print_nat j" using assms by (simp add: example_text(1))
  then show ?thesis using read_print_nat by metis
qed

lemma key_id_short:
  assumes "key_id t k = key_id t k'" "length k \<le> KEYSIZE" "length k' \<le> KEYSIZE"
  shows "k = k'"
  using assms by (simp add: key_id_def)

subsection \<open>The writer\<close>

text \<open>Setting a key that is not stored.\<close>

lemma set_absent:
  assumes "mrsw_inv m" "m_isLruEliminate m" "good_key key" "length val < 2 ^ 32" "table_map (shm m) (key_id (shm m) key) = None"
    and "slots_needed (length (encodeValueStr (e_little env) val)) \<le> length (slots (shm m))"
  shows "fst (setValue env key val m) = kOk"
proof -
  have ok: "mrsw_ok m" and tr: "tracked m" using assms(1) by (simp_all add: mrsw_inv_def)
  define m1 where "m1 = m\<lparr>shm := (shm m)\<lparr>errno := ENOENT\<rparr>\<rparr>"
  have get: "getValue env key [] m = (kErrNotFound, [], m1)" using getValue_spec [OF ok assms(3)] assms(5) by (simp add: m1_def)
  note g = getValue_same [OF ok assms(3) get]
  have load: "load_ok (shm m) key" using load_ok_small [OF mrsw_okD(3) [OF ok]] assms(1) by (simp add: mrsw_inv_def)
  have "setValue env key val m = setValue_shm key (encodeValueStr (e_little env) val) m1"
    using get mrsw_okD(1) [OF ok] assms(3) by (simp add: setValue_def good_key_def)
  moreover have "fst (setValue_shm key (encodeValueStr (e_little env) val) m1) = kOk"
    using assms(2,6) g(5) [OF tr]
    by (intro setValue_shm_spec(6) [OF g(1) assms(3) encode_nonempty g(6) [OF load] prod.collapse [symmetric]])
      (simp_all add: m1_def)
  ultimately show ?thesis by simp
qed

text \<open>Before round \<open>index\<close> the table holds keys of earlier rounds only.\<close>

definition written :: "nat \<Rightarrow> mrsw \<Rightarrow> bool" where
  "written index m \<longleftrightarrow> mrsw_inv m \<and> m_isLruEliminate m \<and> length (slots (shm m)) = 500 \<and>
     (\<forall>i raw. table_map (shm m) i = Some raw \<longrightarrow> (\<exists>j<index. i = key_id (shm m) (keyStr j)))"

lemma written_delete:
  assumes "written index m" "ls < WRITER_ROUNDS"
  shows "\<exists>m'. deleteKey (keyStr ls) m = (kOk, m') \<and> written (Suc index) m' \<and> mrsw_step env KEYSIZE m m' \<and>
    table_map (shm m') (key_id (shm m') (keyStr ls)) = None"
proof -
  have w: "mrsw_inv m" "mrsw_ok m" "tracked m" using assms(1) by (simp_all add: written_def mrsw_inv_def)
  note good = example_text(6) [OF assms(2)]
  obtain m' where d: "deleteKey (keyStr ls) m = (kOk, m')" "mrsw_ok m'" "m_lru m' = m_lru m" "shrinks {} m m'"
    "table_map (shm m') = (table_map (shm m))(key_id (shm m) (keyStr ls) := None)"
    using deleteKey_spec [OF w(2) good] by blast
  have step: "mrsw_step env KEYSIZE m m'" using mrsw_step.delete [OF good, of env KEYSIZE m] d(1) by simp
  have "mrsw_inv m'" by (rule mrsw_inv_step [OF w(1) step])
  moreover have "m_isLruEliminate m'" "length (slots (shm m')) = 500"
    using shrinksD(1,2) [OF d(4)] assms(1) by (simp_all add: written_def same_table_def)
  moreover have "\<exists>j<Suc index. i = key_id (shm m') (keyStr j)" if "table_map (shm m') i = Some raw" for i raw
  proof -
    have "table_map (shm m) i = Some raw" using that d(5) by (simp split: if_splits)
    then obtain j where "j < index" "i = key_id (shm m) (keyStr j)" using assms(1) unfolding written_def by blast
    then show ?thesis by (intro exI [of _ j]) (simp add: shrinksD(4) [OF d(4)])
  qed
  moreover have "table_map (shm m') (key_id (shm m') (keyStr ls)) = None" by (simp add: d(5) shrinksD(4) [OF d(4)])
  ultimately show ?thesis using d(1) step by (auto simp: written_def)
qed

lemma written_set:
  assumes "written index m" "index < WRITER_ROUNDS"
  shows "\<exists>m'. setValue env (keyStr index) (valStr index) m = (kOk, m') \<and> written (Suc index) m' \<and> mrsw_step env KEYSIZE m m' \<and>
    (\<exists>raw. table_map (shm m') (key_id (shm m') (keyStr index)) = Some raw \<and>
       verifyShmValue (e_little env) raw = (kOk, valStr index))"
proof -
  have w: "mrsw_inv m" "mrsw_ok m" "tracked m" "m_isLruEliminate m" "length (slots (shm m)) = 500"
    using assms(1) by (simp_all add: written_def mrsw_inv_def)
  note T = example_text [OF assms(2)]
  have len: "length (valStr index) < 2 ^ 32" using T(4) by simp
  have load: "load_ok (shm m) (keyStr index)" using load_ok_small [OF mrsw_okD(3) [OF w(2)]] w(5) by simp
  have "table_map (shm m) (key_id (shm m) (keyStr index)) = None"
  proof (rule ccontr)
    assume "table_map (shm m) (key_id (shm m) (keyStr index)) \<noteq> None"
    then obtain j where j: "j < index" "key_id (shm m) (keyStr index) = key_id (shm m) (keyStr j)"
      using assms(1) unfolding written_def by blast
    have "j < WRITER_ROUNDS" using j(1) assms(2) by simp
    have "keyStr index = keyStr j"
      by (rule key_id_short [OF j(2)]) (use T(3) example_text(3) [OF \<open>j < WRITER_ROUNDS\<close>] in simp_all)
    then show False using keyStr_inj [OF assms(2) \<open>j < WRITER_ROUNDS\<close>] j(1) by simp
  qed
  moreover have "slots_needed (length (encodeValueStr (e_little env) (valStr index))) \<le> length (slots (shm m))"
    using T(4) w(5) by (simp add: length_encodeValueStr [OF len] slots_needed_def)
  ultimately have "fst (setValue env (keyStr index) (valStr index) m) = kOk" by (rule set_absent [OF w(1,4) T(6) len])
  then obtain m' where s: "setValue env (keyStr index) (valStr index) m = (kOk, m')"
    by (cases "setValue env (keyStr index) (valStr index) m") simp
  note ss = setValue_spec [OF w(2) T(6) len load s]
  have step: "mrsw_step env KEYSIZE m m'" using mrsw_step.set [OF T(6) _ len, of KEYSIZE env m] T(3) s by simp
  have "mrsw_inv m'" by (rule mrsw_inv_step [OF w(1) step])
  moreover have "m_isLruEliminate m'" "length (slots (shm m')) = 500"
    using shrinksD(1,2) [OF ss(2)] w(4,5) by (simp_all add: same_table_def)
  moreover have "\<exists>j<Suc index. i = key_id (shm m') (keyStr j)" if t: "table_map (shm m') i = Some raw" for i raw
  proof (cases "i = key_id (shm m) (keyStr index)")
    case True
    then show ?thesis by (intro exI [of _ index]) (simp add: shrinksD(4) [OF ss(2)])
  next
    case False
    then have "table_map (shm m) i = Some raw" using shrinksD(3) [OF ss(2), of i] t by auto
    then obtain j where "j < index" "i = key_id (shm m) (keyStr j)" using assms(1) unfolding written_def by blast
    then show ?thesis by (intro exI [of _ j]) (simp add: shrinksD(4) [OF ss(2)])
  qed
  ultimately have "written (Suc index) m'" by (auto simp: written_def)
  moreover have "\<exists>raw. table_map (shm m') (key_id (shm m') (keyStr index)) = Some raw \<and>
      verifyShmValue (e_little env) raw = (kOk, valStr index)"
    using ss(4) by (simp add: shrinksD(4) [OF ss(2)])
  ultimately show ?thesis using s step by blast
qed

fun done_line :: "writer_event \<Rightarrow> bool" where
  "done_line (Delete_line _) = True"
| "done_line (Set_line _ _) = True"
| "done_line _ = False"

definition stored :: "mrsw_env \<Rightarrow> mrsw \<Rightarrow> bytes \<Rightarrow> bytes \<Rightarrow> bool" where
  "stored env m k v \<longleftrightarrow> (\<exists>raw. table_map (shm m) (key_id (shm m) k) = Some raw \<and> verifyShmValue (e_little env) raw = (kOk, v))"

text \<open>The last line of the writer is what the table says about its key.\<close>

definition last_stored :: "mrsw_env \<Rightarrow> writer_event list \<Rightarrow> mrsw \<Rightarrow> bool" where
  "last_stored env out m \<longleftrightarrow> (case rev out of
     Set_line k v # _ \<Rightarrow> stored env m k v \<and> (\<exists>i<WRITER_ROUNDS. k = keyStr i \<and> v = valStr i)
   | Delete_line k # _ \<Rightarrow> table_map (shm m) (key_id (shm m) k) = None \<and> (\<exists>i<WRITER_ROUNDS. k = keyStr i)
   | _ \<Rightarrow> True)"

definition run_ok :: "mrsw_env \<Rightarrow> nat \<Rightarrow> mrsw \<Rightarrow> writer_event list \<Rightarrow> mrsw \<Rightarrow> bool" where
  "run_ok env index m out m' \<longleftrightarrow> length out = WRITER_ROUNDS - index \<and> list_all done_line out \<and>
     written WRITER_ROUNDS m' \<and> (mrsw_step env KEYSIZE)\<^sup>*\<^sup>* m m' \<and> last_stored env out m' \<and> (out = [] \<longrightarrow> m' = m)"

lemma run_ok_Cons:
  assumes "run_ok env (Suc index) m1 out m'" "index < WRITER_ROUNDS" "mrsw_step env KEYSIZE m m1" "done_line e"
    "last_stored env [e] m1"
  shows "run_ok env index m (e # out) m'"
proof -
  have "last_stored env (e # out) m'"
  proof (cases out rule: rev_cases)
    case Nil
    then show ?thesis using assms(1,5) by (simp add: run_ok_def)
  next
    case (snoc xs x)
    then show ?thesis using assms(1) by (auto simp: run_ok_def last_stored_def split: list.splits writer_event.splits)
  qed
  then show ?thesis
    using assms(1-4) by (auto simp: run_ok_def intro: converse_rtranclp_into_rtranclp)
qed

lemma writer_loop_runs:
  "written index m \<Longrightarrow> ls \<le> index \<Longrightarrow> ls < WRITER_ROUNDS \<Longrightarrow> index \<le> WRITER_ROUNDS \<Longrightarrow>
   \<exists>out m'. writer_loop env rand index ls del m = (out, m') \<and> run_ok env index m out m'"
proof (induction "WRITER_ROUNDS - index" arbitrary: index ls del m)
  case 0
  then have "writer_loop env rand index ls del m = ([], m)" by (subst writer_loop.simps) simp
  then show ?case using 0 by (simp add: run_ok_def last_stored_def)
next
  case (Suc d)
  then have less: "index < WRITER_ROUNDS" and d: "d = WRITER_ROUNDS - Suc index" by simp_all
  note unf = writer_loop.simps [of env rand index ls del m]
  show ?case
  proof (cases "rand index mod 2 = 0 \<and> del = False")
    case True
    obtain m1 where m1: "deleteKey (keyStr ls) m = (kOk, m1)" "written (Suc index) m1" "mrsw_step env KEYSIZE m m1"
      "table_map (shm m1) (key_id (shm m1) (keyStr ls)) = None"
      using written_delete [OF Suc.prems(1,3)] by blast
    obtain out m' where r: "writer_loop env rand (Suc index) ls True m1 = (out, m')" "run_ok env (Suc index) m1 out m'"
      using Suc.hyps(1) [OF d m1(2), of ls True] Suc.prems(2,3) less by auto
    have "run_ok env index m (Delete_line (keyStr ls) # out) m'"
      by (rule run_ok_Cons [OF r(2) less m1(3)]) (use m1(4) Suc.prems(3) in \<open>auto simp: last_stored_def\<close>)
    moreover have "writer_loop env rand index ls del m = (Delete_line (keyStr ls) # out, m')"
      using True less m1(1) r(1) by (subst unf) simp
    ultimately show ?thesis by blast
  next
    case False
    obtain m1 where m1: "setValue env (keyStr index) (valStr index) m = (kOk, m1)" "written (Suc index) m1"
      "mrsw_step env KEYSIZE m m1" "stored env m1 (keyStr index) (valStr index)"
      using written_set [OF Suc.prems(1) less] unfolding stored_def by blast
    obtain out m' where r: "writer_loop env rand (Suc index) index False m1 = (out, m')" "run_ok env (Suc index) m1 out m'"
      using Suc.hyps(1) [OF d m1(2), of index False] less by auto
    have "run_ok env index m (Set_line (keyStr index) (valStr index) # out) m'"
      by (rule run_ok_Cons [OF r(2) less m1(3)]) (use m1(4) less in \<open>auto simp: last_stored_def\<close>)
    then show ?thesis using False less m1(1) r(1) by (auto simp: unf)
  qed
qed

text \<open>The whole program, on a segment it creates.\<close>

lemma writer_runs:
  assumes "shm_create svc (qhasharr_calculate_memsize WRITER_SLOTS) = None" "shm_attach svc = Some seg"
  shows "\<exists>out m m0. hashtable_writer svc env rand t = (out, m) \<and> run_ok env 0 m0 out m \<and>
    mrsw_inv m0 \<and> table_map (shm m0) = Map.empty"
proof -
  obtain m where m: "MrswHashtable_init svc env WRITER_SLOTS True (MrswHashtable t) = (kOk, m)" "mrsw_ok m" "tracked m"
    "length (slots (shm m)) = 500" "m_isLruEliminate m"
    using init_creates [OF _ _ assms, of env True t] by (auto simp: WRITER_SLOTS_def)
  define m0 where "m0 = snd (clearTable m)"
  note C = clearTable_spec [OF m(2)]
  have clear: "clearTable m = (kOk, m0)" using C(1) by (simp add: m0_def prod_eq_iff)
  have "m_isLruEliminate m0" using m(5) by (simp add: m0_def clearTable_def)
  moreover have inv: "mrsw_inv m0" and empty: "table_map (shm m0) = Map.empty"
    using C(2-5) m(4) by (simp_all add: m0_def mrsw_inv_def same_table_def)
  moreover have "length (slots (shm m0)) = 500" using C(5) m(4) by (simp add: m0_def same_table_def)
  ultimately have "written 0 m0" by (simp add: written_def)
  then obtain out m' where "writer_loop env rand 0 0 False m0 = (out, m')" "run_ok env 0 m0 out m'"
    using writer_loop_runs [of 0 m0 0 env rand False] by (auto simp: WRITER_ROUNDS_def)
  then show ?thesis using m(1) clear inv empty by (auto simp: hashtable_writer_def)
qed

end
