(* ===== verification/Ex_Table_Props.thy ===== *)
theory Ex_Table_Props
  imports Ex_Table_Spec Mrsw_Props
begin

text \<open>
  The properties of the example programs of \<^verbatim>\<open>src/example\<close> that share a hash table.
\<close>

text \<open>The system calls of a process that is started when the segment holds \<open>s\<close>.\<close>

definition late_services :: "qenv \<Rightarrow> shm_services" where
  "late_services s = \<lparr>shm_create = (\<lambda>_. Some EEXIST), shm_open = True, shm_attach = Some s\<rparr>"

lemma late_services:
  "shm_create (late_services s) k = Some EEXIST" "shm_open (late_services s)" "shm_attach (late_services s) = Some s"
  by (simp_all add: late_services_def)

text \<open>
  C40: The example writer, on a segment that it creates, never fails, whatever numbers \<^verbatim>\<open>rand\<close>
  gives and although its 10000 rounds may write more keys than the table has slots: it prints
  one line of success a round and leaves a well-formed table. A reader that is started
  afterwards and asks for the key of the last line prints the value the line set, or that
  the key is not found if the line deleted it.
\<close>

theorem ex_writer_then_reader:
  assumes "shm_create svc (qhasharr_calculate_memsize WRITER_SLOTS) = None" "shm_attach svc = Some seg"
    and "e_alloc env = (\<lambda>_. True)" "hashtable_writer svc env rand t = (out, m)"
  shows "length out = WRITER_ROUNDS \<and> list_all done_line out \<and> mrsw_inv m \<and> (case last out of
      Set_line k v \<Rightarrow> \<exists>m2. hashtable_reader (late_services (shm m)) env [map of_char ''get'', k] index t2 = Some ([Get_line k v], m2)
    | Delete_line k \<Rightarrow>
        \<exists>m2. hashtable_reader (late_services (shm m)) env [map of_char ''get'', k] index t2 = Some ([Get_failed k kErrNotFound], m2)
    | _ \<Rightarrow> False)"
proof -
  obtain m0 where w: "run_ok env 0 m0 out m" "mrsw_inv m0" "table_map (shm m0) = Map.empty"
    using writer_runs [OF assms(1,2), of env rand t] assms(4) by auto
  have "length out = 10000" using w(1) by (simp add: run_ok_def WRITER_ROUNDS_def)
  then have ne: "out \<noteq> []" by auto
  have "sound_table (e_little env) (shm m0)" by (simp add: sound_table_def w(3))
  then have inv: "mrsw_inv m" and sound: "sound_table (e_little env) (shm m)"
    using sound_reachable [of env m0 m] w(1,2) by (auto simp: run_ok_def)
  then have ok: "table_ok (shm m)" by (simp add: mrsw_inv_def mrsw_ok_def)
  obtain m2 where m2: "MrswHashtable_init (late_services (shm m)) env READER_SLOTS True (MrswHashtable t2) = (kOk, m2)"
    "mrsw_ok m2" "table_map (shm m2) = table_map (shm m)" "same_table (shm m) (shm m2)"
    using init_reopens [OF ok sound assms(3) late_services] by blast
  have get: "hashtable_reader (late_services (shm m)) env [map of_char ''get'', k] index t2 = Some (reader_get env k m2)" for k
    using m2(1) by (simp add: hashtable_reader_def)
  have key: "key_id (shm m2) k = key_id (shm m) k" for k by (rule same_table_key_id [OF m2(4)])
  obtain xs x where out: "out = xs @ [x]" using ne by (meson rev_exhaust)
  then have x: "done_line x" "last out = x" using w(1) by (auto simp: run_ok_def)
  have "case last out of
      Set_line k v \<Rightarrow> \<exists>m2. hashtable_reader (late_services (shm m)) env [map of_char ''get'', k] index t2 = Some ([Get_line k v], m2)
    | Delete_line k \<Rightarrow>
        \<exists>m2. hashtable_reader (late_services (shm m)) env [map of_char ''get'', k] index t2 = Some ([Get_failed k kErrNotFound], m2)
    | _ \<Rightarrow> False"
  proof (cases x)
    case (Set_line k v)
    then have l: "stored env m k v" "\<exists>i<WRITER_ROUNDS. k = keyStr i \<and> v = valStr i"
      using w(1) out by (simp_all add: run_ok_def last_stored_def)
    then have "good_key k" "printf_s v = v" using example_text(5,6) by auto
    then have "reader_get env k m2 = ([Get_line k v], m2)"
      using l(1) getValue_spec [OF m2(2), of k env "[]"] assms(3) by (auto simp: reader_get_def stored_def m2(3) key)
    then show ?thesis using get x(2) Set_line by simp
  next
    case (Delete_line k)
    then have l: "table_map (shm m) (key_id (shm m) k) = None" "\<exists>i<WRITER_ROUNDS. k = keyStr i"
      using w(1) out by (simp_all add: run_ok_def last_stored_def)
    then have "good_key k" using example_text(6) by auto
    then have "fst (reader_get env k m2) = [Get_failed k kErrNotFound]"
      using l(1) getValue_spec [OF m2(2), of k env "[]"] by (simp add: reader_get_def m2(3) key)
    then show ?thesis using get x(2) Delete_line by (simp add: prod_eq_iff)
  qed (use x in simp_all)
  then show ?thesis using w(1) inv by (simp add: run_ok_def)
qed

theorem ex_writer_then_reader_witness:
  "case hashtable_writer fresh_services sample_host (\<lambda>i. i) sample_env of
     (out, m) \<Rightarrow> \<forall>k v. last out \<noteq> Set_line k v \<or>
       (\<exists>m2. hashtable_reader (late_services (shm m)) sample_host [map of_char ''get'', k] 0 sample_env = Some ([Get_line k v], m2))"
proof -
  obtain out m where w: "hashtable_writer fresh_services sample_host (\<lambda>i. i) sample_env = (out, m)"
    by (cases "hashtable_writer fresh_services sample_host (\<lambda>i. i) sample_env")
  show ?thesis using ex_writer_then_reader [OF fresh_services(1,2) sample_host(2) w, of 0 sample_env] by (auto simp: w)
qed

text \<open>
  The reader started without an argument prints its usage and, when the table opens, goes
  on to compare an argument that is not there; the command \<^verbatim>\<open>pr\<close> takes an index that was never
  set, and a negative one leads outside of the slots.
\<close>

theorem ex_reader_unchecked_inputs:
  assumes "MrswHashtable_init svc env READER_SLOTS True (MrswHashtable t) = (kOk, m)" "index < 0"
  shows "hashtable_reader svc env [] i t = None \<and> hashtable_reader svc env [map of_char ''pr''] index t = None"
  using assms by (simp add: hashtable_reader_def)

theorem ex_reader_unchecked_inputs_witness:
  "hashtable_reader fresh_services sample_host [] 0 sample_env = None"
proof -
  obtain m where "MrswHashtable_init fresh_services sample_host READER_SLOTS True (MrswHashtable sample_env) = (kOk, m)"
    using init_creates [of READER_SLOTS fresh_services sample_env sample_host True sample_env]
    by (auto simp: fresh_services READER_SLOTS_def)
  from ex_reader_unchecked_inputs [OF this, of "-1" 0] show ?thesis by simp
qed

end
