(* ===== verification/Spec2Isabelle.thy ===== *)
theory Spec2Isabelle
  imports Hasharr_Props Mrsw_Props Race_Props Base_Props Msg_Props Msg_Spsc_Props Msg_Mpmc_Props Init_Race Clear_Race Hash_Props Ex_Props Ex_Table_Props
begin

text \<open>
  Verification development for shmutil: a hash table and a message queue in shared memory.

  \<^bold>\<open>The program.\<close> \<^verbatim>\<open>shmutil/qhasharr.c\<close> keeps a hash table in an array of 260 byte slots; collisions
  and long values take further slots that are linked by index. It hashes with
  \<^verbatim>\<open>shmutil/qhash.c\<close> (Murmur3 for the bucket, MD5 of \<^verbatim>\<open>shmutil/md5.c\<close> for long keys).
  \<^verbatim>\<open>shmutil/shm_mrsw_hashtable.cc\<close> puts that table into a segment for one writing and many
  reading processes: it stores each value with its length (\<^verbatim>\<open>shmutil/common.h\<close>) and a
  verification code, and when the table is full it deletes the keys at the end of a recency
  list (\<^verbatim>\<open>shmutil/simple_lru.h\<close>), under a mutex (\<^verbatim>\<open>shmutil/mutex.h\<close>,
  \<^verbatim>\<open>shmutil/current_thread.h\<close>). \<^verbatim>\<open>shmutil/shm_msg_queue.cc\<close> is a ring buffer of messages between
  magic numbers, with counters of \<^verbatim>\<open>shmutil/atomic.h\<close>, and the four clients of it.

  \<^bold>\<open>The theories, in the order of the imports.\<close>
  \<^item> Shm_Prelude: bytes, \<^verbatim>\<open>memcpy\<close>, little-endian integers, \<^verbatim>\<open>errno\<close>, the enumeration of
    \<^verbatim>\<open>error_code.h\<close>, the cyclic walk over a table, runs of commands.
  \<^item> Md5, Hash: \<^verbatim>\<open>md5.c\<close> and \<^verbatim>\<open>qhash.c\<close>, their lengths and counters at the width of the code. Md5_Rfc
    states RFC 1321 and relates the unrolled transform and the buffered context to it; Hash_Props
    holds the properties, with the published Murmur3 as the reference of the other hash.
  \<^item> Hasharr, Hasharr_Api: the internal routines and the public operations of \<^verbatim>\<open>qhasharr.c\<close> with
    the structures of \<^verbatim>\<open>qlibc.h\<close>. Hasharr_Inv states when a table is well-formed and what it
    stores; Hasharr_Upd, Hasharr_Correct, Hasharr_Remove and Hasharr_Put prove that lookup,
    removal and insertion do what a finite map does, slot by slot. Kv_Store is the interface
    of a bounded key value store (locale \<open>kv_store\<close>), Hasharr_Spec the proof that the
    table provides it, Hasharr_Props the properties.
  \<^item> Codec, Lru, Atomic, Mutex: \<^verbatim>\<open>common.h\<close>, \<^verbatim>\<open>simple_lru.h\<close>, \<^verbatim>\<open>atomic.h\<close>, \<^verbatim>\<open>mutex.h\<close> with the cached
    thread numbers. Base_Props holds their properties.
  \<^item> Mrsw_Table: the class \<^verbatim>\<open>MrswHashtable\<close>. Mrsw_Spec states its invariant and proves each
    operation against it, Mrsw_Evict describes eviction and failing writes, Mrsw_Reopen a
    process that opens an existing segment, Mrsw_Props the properties.
  \<^item> Msg_Queue, Msg_Clients: the class \<^verbatim>\<open>ShmMQ\<close> and the producers and consumers. Msg_Ring is
    the reference (one write or read of bytes around a ring), Msg_Place proves that the
    placements of the code are such a write, Msg_Spec what \<^verbatim>\<open>enqueue\<close> and \<^verbatim>\<open>dequeue\<close> do to a
    queue that holds given messages. Fifo_Queue is the interface of a bounded queue (locale
    \<open>fifo_queue\<close>), Msg_Fifo the proof that the clients provide it, Msg_Props the properties.
  \<^item> Writer_Log, Mrsw_Log: the writing operations of the table as the sequence of their stores
    into the shared slots, with the proof that the stores replay to what the operations
    return and keep the type of every slot. Racy_Reader holds the reading operations of
    another process, access by access; Racy_Quiet compares them with the sequential ones,
    Racy_Torn follows a lookup through the stores into a table of one slot, Race_Props holds
    the properties.
  \<^item> Msg_Spsc, Msg_Spsc_Props: a producer and a consumer that run at the same time, access by
    access, with the invariant of all interleavings.
  \<^item> Flock, Msg_Mpmc, Msg_Mpmc_Props: any number of producers and consumers with lock files, each
    lock, access and unlock a step, any of which may be a process's last: the two calls in
    progress are the system of Msg_Spsc, with the counter corrected by what the dead owe. A call
    of a process that lives returns after a bounded number of its own moves in any interleaving.
  \<^item> Init_Race: a second process opens a queue or a table that its creator has not initialised.
    Clear_Race: a process clears a queue while a consumer is within its call.
  \<^item> Ex_Queue, Ex_Table: the six programs of \<^verbatim>\<open>src/example\<close>. Ex_Queue_Spec and Ex_Table_Spec
    follow their loops (locales \<open>queue_producer\<close> and \<open>queue_consumer\<close>, interpreted on the
    classes with and without a lock file), Ex_Props and Ex_Table_Props hold the properties.

  \<^bold>\<open>State.\<close> A table or queue is a record with the fields of the C structure and the segment it is
  attached to; operations return it updated. \<^verbatim>\<open>int\<close> and \<^verbatim>\<open>short\<close> fields of a table are integers
  with the conversions of C written out; the positions and counters of the queue and the
  arithmetic of the hash functions are machine words. An access outside of the block or a
  buffer of the queue, or of the data that is hashed, gives \<open>None\<close>, so that its absence is proved
  wherever a result is. The table takes the two hashes as total functions of a key or value
  (\<open>md5_digest\<close>, \<open>murmur3_hash\<close>): MD5 of one part never fails, Murmur3 not below 2 GiB, and the
  theorems on tables are about keys shorter than 65536 bytes.

  \<^bold>\<open>Processes.\<close> A view gives the slots at each access of a reader; the views of the
  properties show a reader any prefix of the writer's stores at any access. An example
  program is the list of the lines it prints and the object it leaves; what other processes
  do while it sleeps is a function of the time.

  \<^bold>\<open>Loops.\<close> Every loop of the library is a total function. The walks over links of \<^verbatim>\<open>qhasharr.c\<close> have the bound
  of the code (at most \<^verbatim>\<open>maxslots\<close> rounds), the insertion that overwrites calls itself after a
  removal that frees a slot, the eviction shortens the recency list: these are the measures.
  No fuel is used. The loop of an example consumer over its queue is a partial function, since
  a producer may keep it running for ever; that it ends when the others stop is proved. The
  endless loop around it is modelled by its first \<open>n\<close> rounds.

  \<^bold>\<open>Parameters.\<close> \<^verbatim>\<open>malloc\<close>, \<^verbatim>\<open>shmget\<close>, \<^verbatim>\<open>shmat\<close>, \<^verbatim>\<open>open\<close>, \<^verbatim>\<open>flock\<close>, \<^verbatim>\<open>kill\<close>, \<^verbatim>\<open>getpid\<close> and the
  pthread mutex are arguments of the operations that call them or, for the mutex and the
  locks, documented as granting the lock to one holder at a time. The numbers \<^verbatim>\<open>rand\<close> returns
  are a sequence that the example programs take as an argument.

  \<^bold>\<open>Assumptions.\<close> The host is little-endian (the codec is modelled with both byte orders). A section
  under the mutex is one step for the threads of its process, and in the sequential
  theories a call under \<^verbatim>\<open>flock\<close> is one step; Msg_Mpmc takes it apart, and shows what it keeps.
  A lock file is opened by each process for itself. Memory is sequentially consistent.
  Keys of the well-formedness proofs are shorter than 65536 bytes and buckets below 32768
  keys, the bounds within which \<^verbatim>\<open>keylen\<close> and \<^verbatim>\<open>count\<close> do not wrap. The properties of
  \<^verbatim>\<open>MrswHashtable\<close> over its whole life (the invariant \<open>mrsw_inv\<close>) are therefore about tables of
  fewer than 32767 slots, in which no bucket can have more keys; the default of \<^verbatim>\<open>init\<close> is 800000
  slots, in which one could.

  \<^bold>\<open>Not modelled.\<close> The makefiles and the messages printed to \<^verbatim>\<open>stderr\<close>. A \<^verbatim>\<open>clearMQ\<close>
  that runs beside other calls, except in the one place Clear_Race shows to be wrong.
  \<^verbatim>\<open>QMD5End\<close>, \<^verbatim>\<open>QMD5File\<close> and \<^verbatim>\<open>QMD5FileChunk\<close>, which \<^verbatim>\<open>md5.h\<close> declares and nothing defines. The condition variable for which
  \<^verbatim>\<open>mutex.h\<close> has its \<^verbatim>\<open>UnassignGuard\<close> is not in the repository; the guard itself is modelled.
\<close>

end
